(* ===== verification/Prelude.thy ===== *)
theory Prelude
  imports Main "HOL-Library.Word" "HOL-Library.AList"
begin

text \<open>
  Shared vocabulary of the development: the machine types of the C++ sources, the collections
  of simplification rules the components contribute to, and the generic lemmas on lists and
  words that more than one component uses.

  A \<open>uint8_t\<close> is an \<open>8 word\<close>, \<open>uint32_t\<close> and \<open>uint64_t\<close> are \<open>32 word\<close> and \<open>64 word\<close>;
  \<open>int64_t\<close> and \<open>long long\<close> are \<open>64 word\<close> as well (read by \<open>sint\<close>), since every cast between
  the signed and the unsigned type in the sources keeps the bit pattern. A \<open>std::string\<close> or
  \<open>std::vector<uint8_t>\<close> holding data is a list of bytes; sizes are \<open>nat\<close>.
\<close>

unbundle bit_operations_syntax

type_synonym byte = "8 word"
type_synonym bytes = "byte list"
type_synonym u32 = "32 word"
type_synonym u64 = "64 word"
type_synonym i64 = "64 word"

text \<open>The bytes of a string literal.\<close>

definition ascii :: "string \<Rightarrow> bytes" where
  "ascii s = map of_char s"

named_theorems layout \<open>sizes and offsets of the on-disk formats\<close>
named_theorems sys_simps \<open>effects of the system calls\<close>

section \<open>Lists\<close>

lemma take_append_exact [simp]: "length xs = n \<Longrightarrow> take n (xs @ ys) = xs"
  by auto

lemma drop_append_exact [simp]: "length xs = n \<Longrightarrow> drop n (xs @ ys) = ys"
  by auto

lemma append_eq_append_same_length:
  "length xs = length us \<Longrightarrow> xs @ ys = us @ vs \<longleftrightarrow> xs = us \<and> ys = vs"
  by simp

lemma list_eq_take_drop3:
  assumes "length xs = a + b + c"
  shows "xs = take a xs @ take b (drop a xs) @ drop (a + b) xs"
  by (metis append_take_drop_id drop_drop add.commute)

lemma foldl_snoc_map: "foldl (\<lambda>b i. b @ [f i]) acc is = acc @ map f is"
  by (induction "is" arbitrary: acc) auto

lemma map_of_eq_delete_iff [simp]: "map_of (AList.delete k al) = (map_of al)(k := None)"
  by (rule AList.delete_conv')

lemma map_of_eq_update_iff [simp]: "map_of (AList.update k v al) = (map_of al)(k \<mapsto> v)"
  by (rule AList.update_conv')

section \<open>Words\<close>

lemma unat_of_nat_small: "n < 2 ^ LENGTH('a) \<Longrightarrow> unat (of_nat n :: 'a::len word) = n"
  by (simp add: unat_of_nat)

lemma of_nat_u32_unat_le:
  "n \<le> 2 ^ 20 \<Longrightarrow> unat (of_nat n :: u32) = n"
  by (simp add: unat_of_nat)

lemma uint8_eq_iff_bits:
  "(a :: byte) = b \<longleftrightarrow> (\<forall>n < 8. bit a n = bit b n)"
  by (auto simp: bit_eq_iff)

end
