(* ===== verification/Endian.thy ===== *)
theory Endian
  imports Prelude
begin

text \<open>
  The little-endian helpers of \<^verbatim>\<open>include/persistence/Endian.hpp\<close>. A pointer argument
  \<open>const uint8_t* p\<close> is the list of the bytes from \<open>p\<close> on; a caller that reads at an offset
  passes \<open>drop offset buf\<close>. The buffer argument of the \<open>put\<close> functions is the vector they push
  onto. A \<open>double\<close> is represented by its IEEE-754 bit pattern, so \<open>doubleToBits\<close> and
  \<open>bitsToDouble\<close> are the two directions of that representation.

  The locale \<open>fixed_codec\<close> is the interface the file formats rely on: a fixed-width encoder and
  a decoder that reads it back from the front of any buffer.
\<close>

section \<open>Writers and readers\<close>

definition putLE32 :: "bytes \<Rightarrow> u32 \<Rightarrow> bytes" where
  "putLE32 buf v = buf @ [ucast v, ucast (drop_bit 8 v), ucast (drop_bit 16 v), ucast (drop_bit 24 v)]"

definition putLE64 :: "bytes \<Rightarrow> u64 \<Rightarrow> bytes" where
  "putLE64 buf v = foldl (\<lambda>b i. b @ [ucast (drop_bit (8 * i) v)]) buf [0..<8]"

definition getLE32 :: "bytes \<Rightarrow> u32" where
  "getLE32 p = ucast (p ! 0) OR push_bit 8 (ucast (p ! 1)) OR push_bit 16 (ucast (p ! 2))
     OR push_bit 24 (ucast (p ! 3))"

definition getLE64 :: "bytes \<Rightarrow> u64" where
  "getLE64 p = foldl (\<lambda>v i. v OR push_bit (8 * i) (ucast (p ! i))) 0 [0..<8]"

text \<open>A \<open>double\<close> of the sources; its bytes in memory depend on the host's byte order.\<close>

datatype double = Double (bits_of: u64)

definition doubleToBits :: "double \<Rightarrow> u64" where
  "doubleToBits d = bits_of d"

definition bitsToDouble :: "u64 \<Rightarrow> double" where
  "bitsToDouble b = Double b"

section \<open>The interface of a fixed-width encoding\<close>

locale fixed_codec =
  fixes enc :: "'a \<Rightarrow> bytes"
    and dec :: "bytes \<Rightarrow> 'a"
    and width :: nat
  assumes enc_length: "length (enc v) = width"
    and dec_enc: "dec (enc v @ rest) = v"
    and enc_dec: "length p = width \<Longrightarrow> enc (dec p) = p"
begin

lemma enc_inj: "enc v = enc w \<longleftrightarrow> v = w"
  by (metis dec_enc)

lemma enc_append_inj: "enc v @ xs = enc w @ ys \<longleftrightarrow> v = w \<and> xs = ys"
  by (auto simp: append_eq_append_conv enc_length enc_inj)

lemma dec_prefix:
  assumes "width \<le> length p"
  shows "enc (dec (take width p)) = take width p"
  using assms by (intro enc_dec) simp

lemma dec_take: "width \<le> length p \<Longrightarrow> dec p = dec (take width p)"
  by (metis append_take_drop_id dec_enc dec_prefix)

lemma dec_at: "length xs = n \<Longrightarrow> dec (drop n (xs @ enc v @ rest)) = v"
  by (simp add: dec_enc)

end

section \<open>Round trips\<close>

lemma putLE32_append: "putLE32 buf v = buf @ putLE32 [] v"
  by (simp add: putLE32_def)

lemma putLE64_eq: "putLE64 buf v = buf @ map (\<lambda>i. ucast (drop_bit (8 * i) v)) [0..<8]"
  by (simp add: putLE64_def foldl_snoc_map)

lemma putLE64_append: "putLE64 buf v = buf @ putLE64 [] v"
  by (simp add: putLE64_eq)

lemma length_putLE32 [simp]: "length (putLE32 buf v) = length buf + 4"
  by (simp add: putLE32_def)

lemma length_putLE64 [simp]: "length (putLE64 buf v) = length buf + 8"
  by (simp add: putLE64_eq)

text \<open>Both readers assemble the bytes in the same way; this is their bit-level meaning.\<close>

definition le_word :: "bytes \<Rightarrow> nat \<Rightarrow> 'a::len word" where
  "le_word p k = foldl (\<lambda>v i. v OR push_bit (8 * i) (ucast (p ! i))) 0 [0..<k]"

lemma bit_le_word:
  "bit (le_word p k :: 'a::len word) n \<longleftrightarrow> n < LENGTH('a) \<and> n < 8 * k \<and> bit (p ! (n div 8)) (n mod 8)"
proof (induction k)
  case 0
  show ?case by (simp add: le_word_def)
next
  case (Suc k)
  have byte: "bit (p ! k) m \<Longrightarrow> m < 8" for m
    using bit_imp_le_length [of "p ! k" m] by simp
  have "bit (push_bit (8 * k) (ucast (p ! k) :: 'a word)) n \<longleftrightarrow>
      n < LENGTH('a) \<and> n div 8 = k \<and> bit (p ! (n div 8)) (n mod 8)"
  proof (cases "8 * k \<le> n \<and> n - 8 * k < 8")
    case True
    then obtain m where "n = 8 * k + m" and "m < 8"
      by (metis le_add_diff_inverse)
    then show ?thesis by (auto simp: bit_simps)
  next
    case False
    then have "n div 8 \<noteq> k" by (auto simp: not_le not_less div_less_iff_less_mult)
    with False show ?thesis by (auto simp: bit_simps dest: byte)
  qed
  with Suc show ?case
    by (auto simp: le_word_def bit_or_iff)
qed

lemma getLE32_le_word: "getLE32 p = le_word p 4"
  by (simp add: getLE32_def le_word_def upt_rec or.assoc eval_nat_numeral(2,3))

lemma getLE64_le_word: "getLE64 p = le_word p 8"
  by (simp add: getLE64_def le_word_def)

lemma putLE32_eq: "putLE32 buf v = buf @ map (\<lambda>i. ucast (drop_bit (8 * i) v)) [0..<4]"
  by (simp add: putLE32_def upt_rec)

lemma le_word_enc:
  assumes "LENGTH('a::len) = 8 * k"
  shows "le_word (map (\<lambda>i. ucast (drop_bit (8 * i) v)) [0..<k] @ rest) k = (v :: 'a word)"
proof (rule bit_word_eqI)
  fix n assume "n < LENGTH('a)"
  then have "n div 8 < k" using assms by auto
  then show "bit (le_word (map (\<lambda>i. ucast (drop_bit (8 * i) v)) [0..<k] @ rest) k :: 'a word) n \<longleftrightarrow> bit v n"
    using \<open>n < LENGTH('a)\<close> assms
    by (simp add: bit_le_word nth_append bit_simps)
qed

lemma enc_le_word:
  assumes "LENGTH('a::len) = 8 * k" and "length p = k"
  shows "map (\<lambda>i. ucast (drop_bit (8 * i) (le_word p k :: 'a word))) [0..<k] = p"
proof (rule nth_equalityI)
  show "length (map (\<lambda>i. ucast (drop_bit (8 * i) (le_word p k :: 'a word))) [0..<k]) = length p"
    using assms by simp
next
  fix i assume "i < length (map (\<lambda>i. ucast (drop_bit (8 * i) (le_word p k :: 'a word))) [0..<k])"
  then have i: "i < k" by simp
  have "(ucast (drop_bit (8 * i) (le_word p k :: 'a word)) :: byte) = p ! i"
  proof (rule bit_word_eqI)
    fix n assume "n < LENGTH(8)"
    then have n: "n < 8" by simp
    then have "8 * i + n < 8 * k" using i by simp
    with n show "bit (ucast (drop_bit (8 * i) (le_word p k :: 'a word)) :: byte) n \<longleftrightarrow> bit (p ! i) n"
      using assms by (simp add: bit_simps bit_le_word)
  qed
  with i show "map (\<lambda>i. ucast (drop_bit (8 * i) (le_word p k :: 'a word))) [0..<k] ! i = p ! i"
    by simp
qed

lemma getLE32_putLE32: "getLE32 (putLE32 [] v @ rest) = v"
  by (simp add: getLE32_le_word putLE32_eq le_word_enc del: upt_rec_numeral)

lemma putLE32_getLE32: "length p = 4 \<Longrightarrow> putLE32 [] (getLE32 p) = p"
  by (simp add: getLE32_le_word putLE32_eq enc_le_word del: upt_rec_numeral)

lemma getLE64_putLE64: "getLE64 (putLE64 [] v @ rest) = v"
  by (simp add: getLE64_le_word putLE64_eq le_word_enc del: upt_rec_numeral)

lemma putLE64_getLE64: "length p = 8 \<Longrightarrow> putLE64 [] (getLE64 p) = p"
  by (simp add: getLE64_le_word putLE64_eq enc_le_word del: upt_rec_numeral)

interpretation le32: fixed_codec "putLE32 []" getLE32 4
  by unfold_locales (simp_all add: getLE32_putLE32 putLE32_getLE32)

interpretation le64: fixed_codec "putLE64 []" getLE64 8
  by unfold_locales (simp_all add: getLE64_putLE64 putLE64_getLE64)

lemma bitsToDouble_doubleToBits [simp]: "bitsToDouble (doubleToBits d) = d"
  by (simp add: bitsToDouble_def doubleToBits_def)

lemma doubleToBits_bitsToDouble [simp]: "doubleToBits (bitsToDouble b) = b"
  by (simp add: bitsToDouble_def doubleToBits_def)

end
