(* ===== verification/CRC32.thy ===== *)
theory CRC32
  imports Prelude
begin

text \<open>
  \<^verbatim>\<open>include/persistence/CRC32.hpp\<close>: the table-driven checksum the log and the snapshot carry.
  The compile-time lambda that fills the table is \<open>crc_table\<close>, its inner loop body
  \<open>crc_table_step\<close>; \<open>CRC32_step\<close> is the loop body of \<open>CRC32::calculate\<close>.

  The table version is proved equal to its bit-serial form \<open>crc_bitwise\<close>, and that to the checksum of the
  standard, \<open>ieee_crc32\<close>, which is defined on its own: other bit order, other direction of the
  register, the polynomial by its exponents. From the bit-serial form follows what the store relies on: the
  checksum changes whenever exactly one byte of the data changes.
\<close>

section \<open>The code\<close>

definition crc_table_step :: "u32 \<Rightarrow> u32" where
  "crc_table_step c = (if c AND 1 \<noteq> 0 then 0xEDB88320 XOR drop_bit 1 c else drop_bit 1 c)"

definition crc_table :: "u32 list" where
  "crc_table = map (\<lambda>i. (crc_table_step ^^ 8) (of_nat i)) [0..<256]"

definition CRC32_step :: "u32 \<Rightarrow> byte \<Rightarrow> u32" where
  "CRC32_step crc b = crc_table ! unat ((crc XOR ucast b) AND 0xFF) XOR drop_bit 8 crc"

definition CRC32_calculate :: "bytes \<Rightarrow> u32" where
  "CRC32_calculate data = NOT (foldl CRC32_step 0xFFFFFFFF data)"

section \<open>The bit-serial form of the code\<close>

definition crc_bitwise_step :: "u32 \<Rightarrow> byte \<Rightarrow> u32" where
  "crc_bitwise_step crc b = (crc_table_step ^^ 8) (crc XOR ucast b)"

definition crc_bitwise :: "bytes \<Rightarrow> u32" where
  "crc_bitwise data = NOT (foldl crc_bitwise_step (NOT 0) data)"

section \<open>The standard\<close>

text \<open>
  The checksum of IEEE 802.3, clause 3.2.9, as the shift register that divides by the generator polynomial: the
  message enters bit by bit, the least significant bit of a byte first, and the register shifts towards its
  most significant bit. The generator is given by its exponents below 32. Neither the reflected polynomial nor
  any definition of the code is used.
\<close>

definition ieee_exponents :: "nat list" where
  "ieee_exponents = [26, 23, 22, 16, 12, 11, 10, 8, 7, 5, 4, 2, 1, 0]"

definition ieee_generator :: u32 where
  "ieee_generator = foldr (\<lambda>e g. 2 ^ e + g) ieee_exponents 0"

definition ieee_shift :: "u32 \<Rightarrow> bool \<Rightarrow> u32" where
  "ieee_shift r b = (if bit r 31 \<noteq> b then push_bit 1 r XOR ieee_generator else push_bit 1 r)"

definition byte_bits :: "byte \<Rightarrow> bool list" where
  "byte_bits b = map (bit b) [0..<8]"

definition ieee_crc32 :: "bytes \<Rightarrow> u32" where
  "ieee_crc32 data = word_reverse (NOT (foldl ieee_shift (NOT 0) (concat (map byte_bits data))))"

section \<open>Linearity of one division step\<close>

lemma and_one_bit: "((c :: u32) AND 1 \<noteq> 0) \<longleftrightarrow> bit c 0"
  by (simp add: and_one_eq bit_0 odd_iff_mod_2_eq_one)

lemma crc_table_step_eq:
  "crc_table_step c = (if bit c 0 then 0xEDB88320 else 0) XOR drop_bit 1 c"
  by (simp add: crc_table_step_def and_one_bit)

lemma drop_bit_xor: "drop_bit n (a XOR b) = drop_bit n a XOR drop_bit n (b :: 'a::len word)"
  by (rule bit_eqI) (simp add: bit_simps)

lemma crc_table_step_xor: "crc_table_step (a XOR b) = crc_table_step a XOR crc_table_step b"
  by (auto simp: crc_table_step_eq drop_bit_xor bit_xor_iff ac_simps)

lemma crc_table_steps_xor:
  "(crc_table_step ^^ n) (a XOR b) = (crc_table_step ^^ n) a XOR (crc_table_step ^^ n) b"
  by (induction n) (simp_all add: crc_table_step_xor)

text \<open>A word whose low \<open>n\<close> bits are zero is only shifted by \<open>n\<close> steps.\<close>

lemma crc_table_steps_shift:
  "(\<forall>i < n. \<not> bit c i) \<Longrightarrow> (crc_table_step ^^ n) c = drop_bit n c"
proof (induction n arbitrary: c)
  case 0
  show ?case by simp
next
  case (Suc n)
  have "\<not> bit c 0" using Suc.prems by simp
  then have step: "crc_table_step c = drop_bit 1 c" by (simp add: crc_table_step_eq)
  have "\<forall>i < n. \<not> bit (drop_bit 1 c) i"
    using Suc.prems by (simp add: bit_drop_bit_eq)
  then have "(crc_table_step ^^ n) (drop_bit 1 c) = drop_bit n (drop_bit 1 c)"
    by (rule Suc.IH)
  then show ?case by (simp add: funpow_Suc_right step drop_bit_drop_bit add.commute del: funpow.simps)
qed

section \<open>The table lookup is eight division steps\<close>

lemma mask_split: "(c :: u32) = (c AND 0xFF) XOR push_bit 8 (drop_bit 8 c)"
proof (rule bit_word_eqI)
  fix n assume "n < LENGTH(32)"
  have m: "(0xFF :: u32) = mask 8" by (simp add: mask_eq_exp_minus_1)
  show "bit c n \<longleftrightarrow> bit ((c AND 0xFF) XOR push_bit 8 (drop_bit 8 c)) n"
    using \<open>n < LENGTH(32)\<close> unfolding m by (auto simp: bit_simps)
qed

lemma unat_and_FF: "unat ((c :: u32) AND 0xFF) < 256"
proof -
  have "c AND 0xFF \<le> 0xFF" by (rule word_and_le1)
  then show ?thesis by (simp add: word_le_nat_alt)
qed

lemma crc_table_nth: "i < 256 \<Longrightarrow> crc_table ! i = (crc_table_step ^^ 8) (of_nat i)"
  by (simp add: crc_table_def del: upt_rec_numeral)

lemma CRC32_step_bitwise: "CRC32_step crc b = crc_bitwise_step crc b"
proof -
  let ?x = "crc XOR ucast b"
  have "(crc_table_step ^^ 8) ?x =
      (crc_table_step ^^ 8) (?x AND 0xFF) XOR (crc_table_step ^^ 8) (push_bit 8 (drop_bit 8 ?x))"
    using mask_split [of ?x] by (metis crc_table_steps_xor)
  also have "(crc_table_step ^^ 8) (push_bit 8 (drop_bit 8 ?x)) = drop_bit 8 (push_bit 8 (drop_bit 8 ?x))"
    by (rule crc_table_steps_shift) (simp add: bit_simps)
  also have "drop_bit 8 (push_bit 8 (drop_bit 8 ?x)) = drop_bit 8 crc"
    by (rule bit_eqI) (auto simp: bit_simps dest: bit_imp_le_length)
  also have "(crc_table_step ^^ 8) (?x AND 0xFF) = crc_table ! unat (?x AND 0xFF)"
    by (simp add: crc_table_nth unat_and_FF)
  finally show ?thesis by (simp add: CRC32_step_def crc_bitwise_step_def)
qed

text \<open>
  The table-driven checksum computes the bit-serial CRC-32 of every byte string.
\<close>

theorem CRC32_calculate_is_bitwise: "CRC32_calculate data = crc_bitwise data"
proof -
  have "CRC32_step = crc_bitwise_step"
    by (intro ext CRC32_step_bitwise)
  moreover have "(0xFFFFFFFF :: u32) = NOT 0" by simp
  ultimately show ?thesis by (simp only: CRC32_calculate_def crc_bitwise_def)
qed

section \<open>The bit-serial form is the standard\<close>

lemma word_reverse_xor: "word_reverse (a XOR b) = word_reverse a XOR word_reverse (b :: u32)"
  by (rule bit_word_eqI) (simp add: bit_word_reverse_iff bit_simps)

lemma word_reverse_not: "word_reverse (NOT a) = NOT (word_reverse (a :: u32))"
  by (rule bit_word_eqI) (simp add: bit_word_reverse_iff bit_simps less_imp_diff_less)

lemma word_reverse_shift: "word_reverse (push_bit 1 (r :: u32)) = drop_bit 1 (word_reverse r)"
proof (rule bit_word_eqI)
  fix n
  assume n: "n < LENGTH(32)"
  have "bit (push_bit 1 r) (31 - n) \<longleftrightarrow> 1 \<le> 31 - n \<and> bit r (31 - n - 1)"
    by (simp only: bit_push_bit_iff possible_bit_word) (simp add: less_imp_diff_less)
  moreover have "1 \<le> 31 - n \<longleftrightarrow> n < 31" and "31 - n - 1 = 30 - n" and "31 - (1 + n) = 30 - n" and "1 + n < 32 \<longleftrightarrow> n < 31" by arith+
  moreover have "bit (word_reverse (push_bit 1 r)) n \<longleftrightarrow> bit (push_bit 1 r) (31 - n)"
    using n by (simp only: bit_word_reverse_iff) simp
  moreover have "bit (drop_bit 1 (word_reverse r)) n \<longleftrightarrow> 1 + n < 32 \<and> bit r (31 - (1 + n))"
    by (simp only: bit_drop_bit_eq comp_apply bit_word_reverse_iff) simp
  ultimately show "bit (word_reverse (push_bit 1 r)) n \<longleftrightarrow> bit (drop_bit 1 (word_reverse r)) n" by metis
qed

text \<open>The constant of the code is the generator with its bits reversed.\<close>

lemma word_reverse_generator: "word_reverse ieee_generator = 0xEDB88320"
  unfolding ieee_generator_def ieee_exponents_def by code_simp

lemma word_reverse_step: "word_reverse (ieee_shift r b) = crc_table_step (word_reverse r XOR of_bool b)"
proof -
  define p where "p = push_bit 1 r"
  have sh: "word_reverse p = drop_bit 1 (word_reverse r)" unfolding p_def by (rule word_reverse_shift)
  have "bit (word_reverse r XOR of_bool b) 0 \<longleftrightarrow> bit r 31 \<noteq> b" by (simp add: bit_word_reverse_iff bit_simps)
  moreover have "drop_bit 1 (word_reverse r XOR of_bool b) = word_reverse p"
    unfolding sh drop_bit_xor by simp
  moreover have "ieee_shift r b = (if bit r 31 \<noteq> b then p XOR ieee_generator else p)" by (simp only: ieee_shift_def p_def)
  ultimately show ?thesis
    unfolding crc_table_step_eq by (simp add: word_reverse_xor word_reverse_generator xor.commute)
qed

lemma foldl_word_reverse:
  "word_reverse (foldl ieee_shift r bs) = foldl (\<lambda>c b. crc_table_step (c XOR of_bool b)) (word_reverse r) bs"
  by (induction bs arbitrary: r) (simp_all add: word_reverse_step)

lemma take_bit_Suc_top: "take_bit (Suc n) (x :: u32) = take_bit n x XOR push_bit n (of_bool (bit x n))"
  by (rule bit_eqI) (auto simp: bit_simps less_Suc_eq)

lemma foldl_bits:
  "n < 32 \<Longrightarrow> foldl (\<lambda>c b. crc_table_step (c XOR of_bool b)) c (map (bit (x :: u32)) [0..<n]) =
    (crc_table_step ^^ n) (c XOR take_bit n x)"
proof (induction n)
  case (Suc n)
  let ?b = "of_bool (bit x n) :: u32"
  have "(crc_table_step ^^ n) (push_bit n ?b) = drop_bit n (push_bit n ?b)"
    by (rule crc_table_steps_shift) (simp add: bit_simps)
  also have "\<dots> = ?b" using Suc.prems by (intro bit_word_eqI) (auto simp: bit_simps)
  finally have "(crc_table_step ^^ n) (c XOR take_bit (Suc n) x) = (crc_table_step ^^ n) (c XOR take_bit n x) XOR ?b"
    by (simp only: take_bit_Suc_top xor.assoc [symmetric] crc_table_steps_xor [of n _ "push_bit n ?b"])
  with Suc show ?case by simp
qed simp

lemma foldl_byte_bits:
  "foldl (\<lambda>c b. crc_table_step (c XOR of_bool b)) c (byte_bits x) = crc_bitwise_step c x"
proof -
  have "byte_bits x = map (bit (ucast x :: u32)) [0..<8]" by (simp add: byte_bits_def bit_simps del: upt_rec_numeral)
  moreover have "take_bit 8 (ucast x :: u32) = ucast x"
    by (rule bit_word_eqI) (auto simp: bit_simps dest: bit_imp_le_length)
  ultimately show ?thesis using foldl_bits [of 8 c "ucast x"] by (simp add: crc_bitwise_step_def del: upt_rec_numeral funpow.simps)
qed

lemma crc_bitwise_is_ieee: "crc_bitwise data = ieee_crc32 data"
proof -
  have "foldl (\<lambda>c b. crc_table_step (c XOR of_bool b)) c (concat (map byte_bits data)) = foldl crc_bitwise_step c data" for c
    by (induction data arbitrary: c) (simp_all add: foldl_byte_bits)
  moreover have "word_reverse (NOT 0 :: u32) = NOT 0" by (rule bit_word_eqI) (simp add: bit_word_reverse_iff)
  ultimately show ?thesis by (simp add: crc_bitwise_def ieee_crc32_def word_reverse_not foldl_word_reverse)
qed

text \<open>The check value that is published for the checksum: that of the digits 1 to 9.\<close>

lemma crc_bitwise_step_unfold:
  "crc_bitwise_step c b = crc_table_step (crc_table_step (crc_table_step (crc_table_step
    (crc_table_step (crc_table_step (crc_table_step (crc_table_step (c XOR ucast b))))))))"
  by (simp add: crc_bitwise_step_def eval_nat_numeral)

lemma check_steps:
  "crc_bitwise_step 0xFFFFFFFF 0x31 = 0x7C231048"
  "crc_bitwise_step 0x7C231048 0x32 = 0xB0ACBB32"
  "crc_bitwise_step 0xB0ACBB32 0x33 = 0x77B79C2D"
  "crc_bitwise_step 0x77B79C2D 0x34 = 0x641C1F5C"
  "crc_bitwise_step 0x641C1F5C 0x35 = 0x340AC5E3"
  "crc_bitwise_step 0x340AC5E3 0x36 = 0xF68D2C9E"
  "crc_bitwise_step 0xF68D2C9E 0x37 = 0xAFFC9660"
  "crc_bitwise_step 0xAFFC9660 0x38 = 0x651F2550"
  "crc_bitwise_step 0x651F2550 0x39 = 0x340BC6D9"
  by (simp_all add: crc_bitwise_step_unfold crc_table_step_def)

lemma crc_check_value: "CRC32_calculate [0x31, 0x32, 0x33, 0x34, 0x35, 0x36, 0x37, 0x38, 0x39] = 0xCBF43926"
proof -
  have "(NOT 0 :: u32) = 0xFFFFFFFF" by simp
  then have "CRC32_calculate [0x31, 0x32, 0x33, 0x34, 0x35, 0x36, 0x37, 0x38, 0x39] = NOT 0x340BC6D9"
    by (simp only: CRC32_calculate_is_bitwise crc_bitwise_def foldl.simps check_steps)
  then show ?thesis by simp
qed

section \<open>Every single-byte change is detected\<close>

text \<open>
  The polynomial's top bit is set, so the top bit of a step's result tells which branch was
  taken: a step loses no information.
\<close>

lemma xor_right_cancel: "(a :: 'a::len word) XOR c = b XOR c \<longleftrightarrow> a = b"
  by (metis xor.assoc xor.right_neutral xor_self_eq)

lemma xor_left_cancel: "c XOR (a :: 'a::len word) = c XOR b \<longleftrightarrow> a = b"
  by (metis xor.commute xor_right_cancel)

lemma bit_poly_31: "bit (0xEDB88320 :: u32) 31"
  by simp

lemma crc_table_step_inj: "crc_table_step a = crc_table_step b \<longleftrightarrow> a = b"
proof
  assume eq: "crc_table_step a = crc_table_step b"
  have top: "bit (crc_table_step c) 31 \<longleftrightarrow> bit c 0" for c
    using bit_poly_31 bit_imp_le_length [of c 32] by (auto simp: crc_table_step_eq bit_simps)
  have low: "bit a 0 \<longleftrightarrow> bit b 0" using top eq by metis
  then have shift: "drop_bit 1 a = drop_bit 1 b"
    using eq by (auto simp: crc_table_step_eq xor_left_cancel split: if_splits)
  show "a = b"
  proof (rule bit_eqI)
    fix n show "bit a n \<longleftrightarrow> bit b n"
    proof (cases n)
      case 0
      with low show ?thesis by simp
    next
      case (Suc m)
      with shift show ?thesis by (metis bit_drop_bit_eq comp_apply plus_1_eq_Suc)
    qed
  qed
qed simp

lemma crc_table_steps_inj: "(crc_table_step ^^ n) a = (crc_table_step ^^ n) b \<longleftrightarrow> a = b"
  by (induction n) (simp_all add: crc_table_step_inj)

lemma crc_bitwise_step_inj_crc: "crc_bitwise_step c b = crc_bitwise_step d b \<longleftrightarrow> c = d"
  by (simp add: crc_bitwise_step_def crc_table_steps_inj xor_right_cancel)

lemma ucast_u32_byte: "ucast (ucast (x :: byte) :: u32) = x"
  by (rule bit_eqI) (auto simp: bit_simps)

lemma ucast_byte_inj: "(ucast (x :: byte) :: u32) = ucast y \<longleftrightarrow> x = y"
  by (metis ucast_u32_byte)

lemma crc_bitwise_step_inj_byte: "crc_bitwise_step c x = crc_bitwise_step c y \<longleftrightarrow> x = y"
  by (metis crc_bitwise_step_def crc_table_steps_inj ucast_byte_inj xor.commute xor_right_cancel)

lemma foldl_crc_bitwise_inj:
  "foldl crc_bitwise_step c xs = foldl crc_bitwise_step d xs \<longleftrightarrow> c = d"
  by (induction xs arbitrary: c d) (simp_all add: crc_bitwise_step_inj_crc)

lemma not_inj: "NOT (a :: 'a::len word) = NOT b \<longleftrightarrow> a = b"
  by simp

theorem CRC32_detects_byte_change:
  assumes "x \<noteq> y"
  shows "CRC32_calculate (pre @ x # post) \<noteq> CRC32_calculate (pre @ y # post)"
  using assms
  by (simp add: CRC32_calculate_is_bitwise crc_bitwise_def foldl_crc_bitwise_inj
      crc_bitwise_step_inj_byte)

end
