(* ===== verification/SHA256.thy ===== *)
theory SHA256
  imports Prelude
begin

text \<open>
  \<^verbatim>\<open>include/persistence/SHA256.hpp\<close>: the incremental hash that chains the log's entries. The
  object's fields are the record \<open>sha256_ctx\<close>; \<open>SHA256_update\<close> and \<open>SHA256_digest\<close> follow the
  methods statement by statement, including the buffer the bytes are staged in.

  The reference is FIPS 180-4 written on whole messages: padding, parsing into 64-byte blocks, a
  recursive message schedule and the compression function with real rotations. The incremental
  object is proved to compute exactly that function, however its input is split over calls.
\<close>

section \<open>The code\<close>

type_synonym Sha256Digest = bytes

record sha256_ctx =
  m_state :: "u32 list"
  m_buffer :: bytes
  m_bufLen :: nat
  m_bitLen :: u64

definition H_init :: "u32 list" where
  "H_init = [0x6a09e667, 0xbb67ae85, 0x3c6ef372, 0xa54ff53a, 0x510e527f, 0x9b05688c, 0x1f83d9ab, 0x5be0cd19]"

definition K256 :: "u32 list" where
  "K256 =
    [0x428a2f98, 0x71374491, 0xb5c0fbcf, 0xe9b5dba5, 0x3956c25b, 0x59f111f1, 0x923f82a4, 0xab1c5ed5] @
    [0xd807aa98, 0x12835b01, 0x243185be, 0x550c7dc3, 0x72be5d74, 0x80deb1fe, 0x9bdc06a7, 0xc19bf174] @
    [0xe49b69c1, 0xefbe4786, 0x0fc19dc6, 0x240ca1cc, 0x2de92c6f, 0x4a7484aa, 0x5cb0a9dc, 0x76f988da] @
    [0x983e5152, 0xa831c66d, 0xb00327c8, 0xbf597fc7, 0xc6e00bf3, 0xd5a79147, 0x06ca6351, 0x14292967] @
    [0x27b70a85, 0x2e1b2138, 0x4d2c6dfc, 0x53380d13, 0x650a7354, 0x766a0abb, 0x81c2c92e, 0x92722c85] @
    [0xa2bfe8a1, 0xa81a664b, 0xc24b8b70, 0xc76c51a3, 0xd192e819, 0xd6990624, 0xf40e3585, 0x106aa070] @
    [0x19a4c116, 0x1e376c08, 0x2748774c, 0x34b0bcb5, 0x391c0cb3, 0x4ed8aa4a, 0x5b9cca4f, 0x682e6ff3] @
    [0x748f82ee, 0x78a5636f, 0x84c87814, 0x8cc70208, 0x90befffa, 0xa4506ceb, 0xbef9a3f7, 0xc67178f2]"

definition rotr :: "u32 \<Rightarrow> nat \<Rightarrow> u32" where
  "rotr x n = drop_bit n x OR push_bit (32 - n) x"

definition block_word :: "bytes \<Rightarrow> nat \<Rightarrow> u32" where
  "block_word p i = push_bit 24 (ucast (p ! (i * 4 + 0))) OR push_bit 16 (ucast (p ! (i * 4 + 1)))
     OR push_bit 8 (ucast (p ! (i * 4 + 2))) OR ucast (p ! (i * 4 + 3))"

definition schedule_step :: "u32 list \<Rightarrow> nat \<Rightarrow> u32 list" where
  "schedule_step w i =
    (let s0 = rotr (w ! (i - 15)) 7 XOR rotr (w ! (i - 15)) 18 XOR drop_bit 3 (w ! (i - 15));
         s1 = rotr (w ! (i - 2)) 17 XOR rotr (w ! (i - 2)) 19 XOR drop_bit 10 (w ! (i - 2))
     in w @ [w ! (i - 16) + s0 + w ! (i - 7) + s1])"

definition schedule :: "bytes \<Rightarrow> u32 list" where
  "schedule p = foldl schedule_step (map (block_word p) [0..<16]) [16..<64]"

type_synonym regs = "u32 \<times> u32 \<times> u32 \<times> u32 \<times> u32 \<times> u32 \<times> u32 \<times> u32"

definition transform_round :: "u32 list \<Rightarrow> regs \<Rightarrow> nat \<Rightarrow> regs" where
  "transform_round w r i =
    (case r of (a, b, c, d, e, f, g, h) \<Rightarrow>
      let S1 = rotr e 6 XOR rotr e 11 XOR rotr e 25;
          ch = (e AND f) XOR (NOT e AND g);
          t1 = h + S1 + ch + K256 ! i + w ! i;
          S0 = rotr a 2 XOR rotr a 13 XOR rotr a 22;
          maj = (a AND b) XOR (a AND c) XOR (b AND c);
          t2 = S0 + maj
      in (t1 + t2, a, b, c, d + t1, e, f, g))"

definition transform_state :: "u32 list \<Rightarrow> bytes \<Rightarrow> u32 list" where
  "transform_state st p =
    (case foldl (transform_round (schedule p))
            (st ! 0, st ! 1, st ! 2, st ! 3, st ! 4, st ! 5, st ! 6, st ! 7) [0..<64] of
      (a, b, c, d, e, f, g, h) \<Rightarrow>
        [st ! 0 + a, st ! 1 + b, st ! 2 + c, st ! 3 + d, st ! 4 + e, st ! 5 + f, st ! 6 + g, st ! 7 + h])"

definition transform :: "sha256_ctx \<Rightarrow> sha256_ctx" where
  "transform c = c\<lparr>m_state := transform_state (m_state c) (m_buffer c)\<rparr>"

definition SHA256_init :: sha256_ctx where
  "SHA256_init = \<lparr>m_state = H_init, m_buffer = replicate 64 0, m_bufLen = 0, m_bitLen = 0\<rparr>"

text \<open>The statement \<open>m_buffer[m_bufLen++] = b\<close>.\<close>

definition push_byte :: "sha256_ctx \<Rightarrow> byte \<Rightarrow> sha256_ctx" where
  "push_byte c b = c\<lparr>m_buffer := (m_buffer c)[m_bufLen c := b], m_bufLen := m_bufLen c + 1\<rparr>"

definition update_byte :: "sha256_ctx \<Rightarrow> byte \<Rightarrow> sha256_ctx" where
  "update_byte c b =
    (let c1 = push_byte c b
     in if m_bufLen c1 = 64
        then (transform c1)\<lparr>m_bitLen := m_bitLen c1 + 512, m_bufLen := 0\<rparr>
        else c1)"

definition SHA256_update :: "sha256_ctx \<Rightarrow> bytes \<Rightarrow> sha256_ctx" where
  "SHA256_update c data = foldl update_byte c data"

text \<open>The loop \<open>while (m_bufLen < limit) m_buffer[m_bufLen++] = 0\<close>.\<close>

function pad_zeros :: "nat \<Rightarrow> sha256_ctx \<Rightarrow> sha256_ctx" where
  "pad_zeros limit c = (if m_bufLen c < limit then pad_zeros limit (push_byte c 0) else c)"
  by pat_completeness auto
termination
  by (relation "measure (\<lambda>(limit, c). limit - m_bufLen c)") (auto simp: push_byte_def)

declare pad_zeros.simps [simp del]

definition digest_out :: "u32 list \<Rightarrow> Sha256Digest" where
  "digest_out st = concat (map (\<lambda>i.
     [ucast (drop_bit 24 (st ! i)), ucast (drop_bit 16 (st ! i)), ucast (drop_bit 8 (st ! i)), ucast (st ! i)])
     [0..<8])"

definition SHA256_digest :: "sha256_ctx \<Rightarrow> Sha256Digest" where
  "SHA256_digest c =
    (let totalBits = m_bitLen c + of_nat (m_bufLen c) * 8;
         c1 = push_byte c 0x80;
         c2 = (if m_bufLen c1 > 56 then (transform (pad_zeros 64 c1))\<lparr>m_bufLen := 0\<rparr> else c1);
         c3 = pad_zeros 56 c2;
         c4 = foldl (\<lambda>x i. push_byte x (ucast (drop_bit (i * 8) totalBits))) c3 [7, 6, 5, 4, 3, 2, 1, 0];
         c5 = transform c4
     in digest_out (m_state c5))"

definition SHA256_hash :: "bytes \<Rightarrow> Sha256Digest" where
  "SHA256_hash data = SHA256_digest (SHA256_update SHA256_init data)"

section \<open>FIPS 180-4 on whole messages\<close>

definition fips_sigma0 :: "u32 \<Rightarrow> u32" where
  "fips_sigma0 x = word_rotr 7 x XOR word_rotr 18 x XOR drop_bit 3 x"

definition fips_sigma1 :: "u32 \<Rightarrow> u32" where
  "fips_sigma1 x = word_rotr 17 x XOR word_rotr 19 x XOR drop_bit 10 x"

definition fips_Sigma0 :: "u32 \<Rightarrow> u32" where
  "fips_Sigma0 x = word_rotr 2 x XOR word_rotr 13 x XOR word_rotr 22 x"

definition fips_Sigma1 :: "u32 \<Rightarrow> u32" where
  "fips_Sigma1 x = word_rotr 6 x XOR word_rotr 11 x XOR word_rotr 25 x"

definition fips_Ch :: "u32 \<Rightarrow> u32 \<Rightarrow> u32 \<Rightarrow> u32" where
  "fips_Ch x y z = (x AND y) XOR (NOT x AND z)"

definition fips_Maj :: "u32 \<Rightarrow> u32 \<Rightarrow> u32 \<Rightarrow> u32" where
  "fips_Maj x y z = (x AND y) XOR (x AND z) XOR (y AND z)"

text \<open>The big-endian word \<open>i\<close> of a block, and the schedule as the standard's recurrence.\<close>

definition fips_M :: "bytes \<Rightarrow> nat \<Rightarrow> u32" where
  "fips_M p i = of_nat (foldl (\<lambda>n b. 256 * n + unat b) 0 (take 4 (drop (4 * i) p)))"

fun fips_W :: "bytes \<Rightarrow> nat \<Rightarrow> u32" where
  "fips_W p t =
    (if t < 16 then fips_M p t
     else fips_sigma1 (fips_W p (t - 2)) + fips_W p (t - 7) + fips_sigma0 (fips_W p (t - 15)) + fips_W p (t - 16))"

declare fips_W.simps [simp del]

primrec fips_rounds :: "bytes \<Rightarrow> regs \<Rightarrow> nat \<Rightarrow> regs" where
  "fips_rounds p r 0 = r"
| "fips_rounds p r (Suc t) =
    (case fips_rounds p r t of (a, b, c, d, e, f, g, h) \<Rightarrow>
      let T1 = h + fips_Sigma1 e + fips_Ch e f g + K256 ! t + fips_W p t;
          T2 = fips_Sigma0 a + fips_Maj a b c
      in (T1 + T2, a, b, c, d + T1, e, f, g))"

definition fips_compress :: "u32 list \<Rightarrow> bytes \<Rightarrow> u32 list" where
  "fips_compress H p =
    (case fips_rounds p (H ! 0, H ! 1, H ! 2, H ! 3, H ! 4, H ! 5, H ! 6, H ! 7) 64 of
      (a, b, c, d, e, f, g, h) \<Rightarrow>
        [a + H ! 0, b + H ! 1, c + H ! 2, d + H ! 3, e + H ! 4, f + H ! 5, g + H ! 6, h + H ! 7])"

fun blocks :: "bytes \<Rightarrow> bytes list" where
  "blocks xs = (if length xs < 64 then [] else take 64 xs # blocks (drop 64 xs))"

declare blocks.simps [simp del]

text \<open>
  One bit, then the fewest zeros that make the length 56 modulo 64, then the bit length as 64 bits.
\<close>

definition be64 :: "nat \<Rightarrow> bytes" where
  "be64 n = map (\<lambda>i. of_nat (n div 256 ^ i)) [7, 6, 5, 4, 3, 2, 1, 0]"

definition fips_pad :: "bytes \<Rightarrow> bytes" where
  "fips_pad m = m @ [0x80] @ replicate ((119 - length m mod 64) mod 64) 0 @ be64 (8 * length m mod 2 ^ 64)"

definition fips_sha256 :: "bytes \<Rightarrow> Sha256Digest" where
  "fips_sha256 m = digest_out (foldl fips_compress H_init (blocks (fips_pad m)))"

section \<open>The compression function\<close>

lemma rotr_word_rotr:
  assumes "0 < n" and "n < 32"
  shows "rotr x n = word_rotr n x"
proof (rule bit_word_eqI)
  fix i assume "i < LENGTH(32)"
  then have i: "i < 32" by simp
  have "bit (rotr x n) i \<longleftrightarrow> (if i + n < 32 then bit x (i + n) else bit x (i + n - 32))"
  proof (cases "i + n < 32")
    case True
    then have "\<not> 32 - n \<le> i" by simp
    with True i show ?thesis by (simp add: rotr_def bit_simps add.commute)
  next
    case False
    then have "32 - n \<le> i" and "i - (32 - n) = i + n - 32" and "\<not> bit x (n + i)"
      using assms bit_imp_le_length [of x "n + i"] by auto
    with i False show ?thesis by (simp add: rotr_def bit_simps)
  qed
  also have "\<dots> \<longleftrightarrow> bit x ((i + n) mod 32)"
    using i assms by (simp add: mod_if)
  finally show "bit (rotr x n) i \<longleftrightarrow> bit (word_rotr n x) i"
    using i by (simp add: bit_word_rotr_iff)
qed

lemma sigma_defs:
  "rotr x 7 XOR rotr x 18 XOR drop_bit 3 x = fips_sigma0 x"
  "rotr x 17 XOR rotr x 19 XOR drop_bit 10 x = fips_sigma1 x"
  "rotr x 2 XOR rotr x 13 XOR rotr x 22 = fips_Sigma0 x"
  "rotr x 6 XOR rotr x 11 XOR rotr x 25 = fips_Sigma1 x"
  by (simp_all add: rotr_word_rotr fips_sigma0_def fips_sigma1_def fips_Sigma0_def fips_Sigma1_def)

text \<open>The four big-endian bytes of a word occupy disjoint bits, so the code's \<open>|\<close> is addition.\<close>

lemma be_word:
  fixes a b c d :: byte
  shows "push_bit 24 (ucast a) OR push_bit 16 (ucast b) OR push_bit 8 (ucast c) OR ucast d =
    (of_nat (256 * (256 * (256 * unat a + unat b) + unat c) + unat d) :: u32)"
proof -
  have n: "\<not> bit (x :: byte) m" if "8 \<le> m" for x m
    using that bit_imp_le_length [of x m] by auto
  have cd: "push_bit 8 (ucast c) OR ucast d = (push_bit 8 (ucast c) + ucast d :: u32)"
    by (rule disjunctive_add_eq_or [symmetric]) (rule bit_eqI, auto simp: bit_simps n)
  have bcd: "push_bit 16 (ucast b) OR (push_bit 8 (ucast c) OR ucast d) =
      (push_bit 16 (ucast b) + (push_bit 8 (ucast c) OR ucast d) :: u32)"
    by (rule disjunctive_add_eq_or [symmetric]) (rule bit_eqI, auto simp: bit_simps n)
  have abcd: "push_bit 24 (ucast a) OR (push_bit 16 (ucast b) OR push_bit 8 (ucast c) OR ucast d) =
      (push_bit 24 (ucast a) + (push_bit 16 (ucast b) OR push_bit 8 (ucast c) OR ucast d) :: u32)"
    by (rule disjunctive_add_eq_or [symmetric]) (rule bit_eqI, auto simp: bit_simps n)
  show ?thesis
    unfolding abcd unfolding bcd unfolding cd by (simp add: push_bit_eq_mult algebra_simps)
qed

lemma take4_drop:
  "j + 4 \<le> length p \<Longrightarrow> take 4 (drop j p) = [p ! j, p ! (j + 1), p ! (j + 2), p ! (j + 3)]"
  by (rule nth_equalityI) (auto simp: less_Suc_eq numeral_eq_Suc)

lemma block_word_fips: "4 * i + 4 \<le> length p \<Longrightarrow> block_word p i = fips_M p i"
  by (simp add: block_word_def fips_M_def take4_drop be_word mult.commute)

lemma schedule_step_eq:
  "schedule_step w i = w @ [w ! (i - 16) + fips_sigma0 (w ! (i - 15)) + w ! (i - 7) + fips_sigma1 (w ! (i - 2))]"
  by (simp add: schedule_step_def sigma_defs)

lemma schedule_prefix:
  assumes "length p = 64"
  shows "foldl schedule_step (map (block_word p) [0..<16]) [16..<16 + n] = map (fips_W p) [0..<16 + n]"
proof (induction n)
  case 0
  have "block_word p i = fips_W p i" if "i < 16" for i
    using that assms by (simp add: block_word_fips fips_W.simps [of p i])
  then show ?case by simp
next
  case (Suc n)
  have "fips_W p (16 + n) = fips_W p n + fips_sigma0 (fips_W p (n + 1)) + fips_W p (n + 9) + fips_sigma1 (fips_W p (n + 14))"
    by (subst fips_W.simps) (simp add: ac_simps)
  then have w: "map (fips_W p) [0..<16 + n] ! n + fips_sigma0 (map (fips_W p) [0..<16 + n] ! (n + 1))
      + map (fips_W p) [0..<16 + n] ! (n + 9) + fips_sigma1 (map (fips_W p) [0..<16 + n] ! (n + 14))
      = fips_W p (16 + n)"
    by (simp del: upt_rec_numeral)
  have i: "16 + n - 16 = n" "16 + n - 15 = n + 1" "16 + n - 7 = n + 9" "16 + n - 2 = n + 14" by simp_all
  have "schedule_step (map (fips_W p) [0..<16 + n]) (16 + n) = map (fips_W p) [0..<16 + n] @ [fips_W p (16 + n)]"
    by (simp only: schedule_step_eq i w)
  moreover have "[16..<16 + Suc n] = [16..<16 + n] @ [16 + n]" and "[0..<16 + Suc n] = [0..<16 + n] @ [16 + n]"
    using upt_Suc_append [of 16 "16 + n"] upt_Suc_append [of 0 "16 + n"]
    by (simp_all only: add_Suc_right le_add1 le0 simp_thms)
  ultimately show ?case using Suc by (simp only: foldl_append foldl.simps map_append list.map)
qed

lemma schedule_fips: "length p = 64 \<Longrightarrow> schedule p = map (fips_W p) [0..<64]"
  using schedule_prefix [of p 48] by (simp add: schedule_def del: upt_rec_numeral)

lemma rounds_fips:
  assumes "length p = 64" and "n \<le> 64"
  shows "foldl (transform_round (schedule p)) r [0..<n] = fips_rounds p r n"
  using assms(2)
proof (induction n)
  case 0
  show ?case by simp
next
  case (Suc n)
  then have "schedule p ! n = fips_W p n"
    using assms(1) by (simp add: schedule_fips del: upt_rec_numeral)
  with Suc show ?case
    by (simp add: transform_round_def sigma_defs fips_Ch_def fips_Maj_def split: prod.splits)
qed

lemma transform_state_fips: "length p = 64 \<Longrightarrow> transform_state st p = fips_compress st p"
  by (simp add: transform_state_def fips_compress_def rounds_fips add.commute split: prod.splits
      del: upt_rec_numeral)

section \<open>Blocks\<close>

lemma blocks_short [simp]: "length xs < 64 \<Longrightarrow> blocks xs = []"
  by (subst blocks.simps) simp

lemma blocks_cons: "length b = 64 \<Longrightarrow> blocks (b @ xs) = b # blocks xs"
  by (subst blocks.simps) simp

lemma blocks_append:
  "64 dvd length xs \<Longrightarrow> blocks (xs @ ys) = blocks xs @ blocks ys"
proof (induction xs rule: blocks.induct)
  case (1 xs)
  show ?case
  proof (cases "length xs < 64")
    case True
    with 1 have "xs = []" by (auto dest: dvd_imp_le)
    then show ?thesis by simp
  next
    case False
    let ?b = "take 64 xs"
    have len: "length ?b = 64" using False by simp
    have "64 dvd length (drop 64 xs)" using 1 False by (auto simp: dvd_minus_self)
    then have "blocks (drop 64 xs @ ys) = blocks (drop 64 xs) @ blocks ys"
      using 1 False by simp
    then have "blocks (?b @ (drop 64 xs @ ys)) = ?b # blocks (drop 64 xs) @ blocks ys"
      using blocks_cons [OF len] by simp
    moreover have "blocks (?b @ drop 64 xs) = ?b # blocks (drop 64 xs)"
      by (rule blocks_cons [OF len])
    ultimately show ?thesis
      by (metis append.assoc append_Cons append_take_drop_id)
  qed
qed

text \<open>The part of a message that is still waiting for a full block.\<close>

definition tail64 :: "bytes \<Rightarrow> bytes" where
  "tail64 m = drop (64 * (length m div 64)) m"

lemma length_tail64: "length (tail64 m) = length m mod 64"
  by (simp add: tail64_def minus_mult_div_eq_mod)

lemma blocks_split: "blocks (m @ ys) = blocks m @ blocks (tail64 m @ ys)"
proof -
  let ?h = "take (64 * (length m div 64)) m"
  have "64 * (length m div 64) \<le> length m" by simp
  then have d: "64 dvd length ?h" by (simp add: min_absorb2)
  have m: "m = ?h @ tail64 m" by (simp add: tail64_def)
  have t: "length (tail64 m) < 64" by (simp add: length_tail64)
  have "blocks (m @ ys) = blocks (?h @ (tail64 m @ ys))"
    using m by (metis append.assoc)
  also have "\<dots> = blocks ?h @ blocks (tail64 m @ ys)"
    using d by (rule blocks_append)
  also have "blocks ?h = blocks m"
    using blocks_append [OF d, of "tail64 m"] m t by simp
  finally show ?thesis .
qed

lemma tail64_snoc_full:
  "length (tail64 m) = 63 \<Longrightarrow> tail64 (m @ [b]) = []"
proof -
  assume "length (tail64 m) = 63"
  then have "length m mod 64 = 63" by (simp add: length_tail64)
  then have "Suc (length m) mod 64 = 0" by (simp add: mod_Suc)
  then have "64 * (Suc (length m) div 64) = Suc (length m)" by auto
  then show ?thesis by (simp add: tail64_def)
qed

lemma tail64_snoc:
  "length (tail64 m) < 63 \<Longrightarrow> tail64 (m @ [b]) = tail64 m @ [b]"
proof -
  assume "length (tail64 m) < 63"
  then have "length m mod 64 < 63" by (simp add: length_tail64)
  then have "Suc (length m) div 64 = length m div 64" by (simp add: div_Suc mod_Suc)
  moreover have "64 * (length m div 64) \<le> length m" by simp
  ultimately show ?thesis by (simp add: tail64_def)
qed

section \<open>What the object has absorbed\<close>

text \<open>
  \<open>absorbed c m\<close>: the object has been fed exactly the message \<open>m\<close>. The chaining value covers the
  complete blocks, the buffer holds the rest, the bit counter counts the blocks modulo \<open>2^64\<close>.
\<close>

definition absorbed :: "sha256_ctx \<Rightarrow> bytes \<Rightarrow> bool" where
  "absorbed c m \<longleftrightarrow> length (m_buffer c) = 64 \<and> m_bufLen c = length (tail64 m) \<and>
     take (m_bufLen c) (m_buffer c) = tail64 m \<and>
     m_state c = foldl fips_compress H_init (blocks m) \<and>
     m_bitLen c = of_nat (512 * (length m div 64))"

lemma absorbed_init: "absorbed SHA256_init []"
  by (simp add: absorbed_def SHA256_init_def tail64_def)

lemma take_list_update_snoc:
  "n < length xs \<Longrightarrow> take (Suc n) (xs[n := b]) = take n xs @ [b]"
  by (simp add: take_Suc_conv_app_nth)

lemma absorbed_update_byte:
  assumes "absorbed c m"
  shows "absorbed (update_byte c b) (m @ [b])"
proof -
  let ?buf = "(m_buffer c)[m_bufLen c := b]"
  have n: "m_bufLen c < 64" and len: "length ?buf = 64"
    and tk0: "take (m_bufLen c) (m_buffer c) = tail64 m"
    using assms by (auto simp: absorbed_def length_tail64)
  have tk: "take (Suc (m_bufLen c)) ?buf = tail64 m @ [b]"
    using tk0 n len take_list_update_snoc [of "m_bufLen c" "m_buffer c" b] by (simp only: length_list_update)
  show ?thesis
  proof (cases "m_bufLen c = 63")
    case True
    with assms have t: "length (tail64 m) = 63" by (simp add: absorbed_def)
    then have mod: "length m mod 64 = 63" by (simp add: length_tail64)
    have buf: "?buf = tail64 m @ [b]" using tk True len by simp
    have "blocks (m @ [b]) = blocks m @ [?buf]"
      using blocks_cons [of "tail64 m @ [b]" "[]"] t by (simp add: blocks_split [of m] buf)
    moreover have "Suc (length m) div 64 = Suc (length m div 64)"
      using mod by (simp add: div_Suc mod_Suc)
    ultimately show ?thesis
      using assms True t len
      by (simp add: absorbed_def update_byte_def push_byte_def transform_def tail64_snoc_full
          transform_state_fips)
  next
    case False
    with n assms have t: "length (tail64 m) < 63" by (simp add: absorbed_def)
    then have "length m mod 64 < 63" by (simp add: length_tail64)
    then have "Suc (length m) div 64 = length m div 64" by (simp add: div_Suc mod_Suc)
    moreover have "blocks (m @ [b]) = blocks m"
      using t by (simp add: blocks_split [of m])
    ultimately show ?thesis
      using assms False n tk t
      by (simp add: absorbed_def update_byte_def push_byte_def tail64_snoc)
  qed
qed

lemma absorbed_update: "absorbed c m \<Longrightarrow> absorbed (SHA256_update c data) (m @ data)"
proof (induction data arbitrary: c m)
  case Nil
  then show ?case by (simp add: SHA256_update_def)
next
  case (Cons b data)
  from Cons.IH [OF absorbed_update_byte [OF Cons.prems]] show ?case
    by (simp add: SHA256_update_def)
qed

section \<open>Padding and the digest\<close>

text \<open>\<open>staged c p\<close>: the bytes staged in the buffer so far are \<open>p\<close>.\<close>

definition staged :: "sha256_ctx \<Rightarrow> bytes \<Rightarrow> bool" where
  "staged c p \<longleftrightarrow> length (m_buffer c) = 64 \<and> m_bufLen c = length p \<and> take (length p) (m_buffer c) = p"

lemma staged_push: "staged c p \<Longrightarrow> length p < 64 \<Longrightarrow> staged (push_byte c b) (p @ [b])"
  by (auto simp: staged_def push_byte_def take_list_update_snoc)

lemma m_state_push [simp]: "m_state (push_byte c b) = m_state c"
  by (simp add: push_byte_def)

lemma staged_full: "staged c p \<Longrightarrow> length p = 64 \<Longrightarrow> m_buffer c = p"
  by (metis staged_def order_refl take_all)

lemma staged_pad_zeros:
  "staged c p \<Longrightarrow> length p \<le> limit \<Longrightarrow> limit \<le> 64 \<Longrightarrow>
    staged (pad_zeros limit c) (p @ replicate (limit - length p) 0) \<and> m_state (pad_zeros limit c) = m_state c"
proof (induction limit c arbitrary: p rule: pad_zeros.induct)
  case (1 limit c)
  show ?case
  proof (cases "m_bufLen c < limit")
    case False
    with 1 have "length p = limit" by (simp add: staged_def)
    with False 1 show ?thesis by (simp add: pad_zeros.simps [of limit c])
  next
    case True
    with 1 have lt: "length p < limit" by (simp add: staged_def)
    have st: "staged (push_byte c 0) (p @ [0])"
      using 1 lt by (intro staged_push) auto
    have "limit - length p = Suc (limit - length (p @ [0]))"
      using lt by simp
    then show ?thesis
      using 1(1) [OF True st] lt 1 True
      by (simp add: pad_zeros.simps [of limit c] append.assoc)
  qed
qed

lemma staged_push_list:
  "staged c p \<Longrightarrow> length p + length is \<le> 64 \<Longrightarrow>
    staged (foldl (\<lambda>x i. push_byte x (f i)) c is) (p @ map f is) \<and>
    m_state (foldl (\<lambda>x i. push_byte x (f i)) c is) = m_state c"
proof (induction "is" arbitrary: c p)
  case Nil
  then show ?case by simp
next
  case (Cons i "is")
  have "staged (push_byte c (f i)) (p @ [f i])"
    using Cons.prems by (intro staged_push) auto
  from Cons.IH [OF this] Cons.prems show ?case by simp
qed

lemma m_state_transform:
  "length (m_buffer c) = 64 \<Longrightarrow> m_state (transform c) = fips_compress (m_state c) (m_buffer c)"
  by (simp add: transform_def transform_state_fips)

text \<open>
  What \<open>digest()\<close> does after the input: starting from the staged rest \<open>p\<close>, it compresses the blocks
  of \<open>p\<close>, the bit 1, zeros and the length, whether they take one block or two.
\<close>

lemma finish_blocks:
  assumes "staged c p" and "length p < 64" and "length L = 8"
    and c1: "c1 = push_byte c 0x80"
    and c2: "c2 = (if m_bufLen c1 > 56 then (transform (pad_zeros 64 c1))\<lparr>m_bufLen := 0\<rparr> else c1)"
  shows "\<exists>q. staged (pad_zeros 56 c2) q \<and> length q = 56 \<and>
    foldl fips_compress (m_state c) (blocks (p @ [0x80] @ replicate ((119 - length p) mod 64) 0 @ L)) =
    fips_compress (m_state (pad_zeros 56 c2)) (q @ L)"
proof -
  have st1: "staged c1 (p @ [0x80])"
    using assms(1,2) c1 by (simp add: staged_push)
  have len1: "m_bufLen c1 = length p + 1" using st1 by (simp add: staged_def)
  show ?thesis
  proof (cases "m_bufLen c1 > 56")
    case False
    then have le: "length p \<le> 55" using len1 by simp
    then have "(119 - length p) mod 64 = 55 - length p"
      by (simp add: mod_if)
    then have blk: "blocks (p @ [0x80] @ replicate ((119 - length p) mod 64) 0 @ L) =
        [(p @ [0x80]) @ replicate (55 - length p) 0 @ L]"
      using blocks_cons [of "(p @ [0x80]) @ replicate (55 - length p) 0 @ L" "[]"] le assms(3) by simp
    have pz: "staged (pad_zeros 56 c1) ((p @ [0x80]) @ replicate (55 - length p) 0)"
      "m_state (pad_zeros 56 c1) = m_state c"
      using staged_pad_zeros [OF st1, of 56] le c1 by simp_all
    with blk le False c2 show ?thesis
      by (intro exI [of _ "(p @ [0x80]) @ replicate (55 - length p) 0"]) simp
  next
    case True
    then have ge: "56 \<le> length p" using len1 by simp
    then have zeros: "(119 - length p) mod 64 = (63 - length p) + 56"
      using assms(2) by simp
    have "p @ [0x80] @ replicate ((119 - length p) mod 64) 0 @ L =
        ((p @ [0x80]) @ replicate (63 - length p) 0) @ (replicate 56 0 @ L)"
      by (simp only: zeros replicate_add append.assoc)
    then have blk: "blocks (p @ [0x80] @ replicate ((119 - length p) mod 64) 0 @ L) =
        [(p @ [0x80]) @ replicate (63 - length p) 0, replicate 56 0 @ L]"
      using blocks_cons [of "(p @ [0x80]) @ replicate (63 - length p) 0" "replicate 56 0 @ L"]
        blocks_cons [of "replicate 56 0 @ L" "[]"] assms(2,3) by simp
    let ?f = "pad_zeros 64 c1"
    have f: "staged ?f ((p @ [0x80]) @ replicate (63 - length p) 0)" "m_state ?f = m_state c"
      using staged_pad_zeros [OF st1, of 64] assms(2) c1 by simp_all
    have fb: "m_buffer ?f = (p @ [0x80]) @ replicate (63 - length p) 0"
      using f(1) assms(2) by (intro staged_full) auto
    have st2: "staged c2 []" "m_state c2 = fips_compress (m_state c) (m_buffer ?f)"
      using True c2 f fb assms(2) by (simp_all add: staged_def transform_def transform_state_fips)
    have "staged (pad_zeros 56 c2) (replicate 56 0)" "m_state (pad_zeros 56 c2) = m_state c2"
      using staged_pad_zeros [OF st2(1), of 56] by simp_all
    with blk st2(2) fb show ?thesis
      by (intro exI [of _ "replicate 56 0"]) simp
  qed
qed

text \<open>The eight length bytes: the code shifts a 64-bit counter that has wrapped modulo \<open>2^64\<close>.\<close>

lemma length_bytes:
  "(ucast (drop_bit (i * 8) (of_nat n :: u64)) :: byte) = of_nat ((n mod 2 ^ 64) div 256 ^ i)"
proof -
  have "unat (drop_bit (i * 8) (of_nat n :: u64)) = drop_bit (i * 8) (unat (of_nat n :: u64))"
    by (rule unat_drop_bit_eq)
  also have "\<dots> = (n mod 2 ^ 64) div 2 ^ (i * 8)"
    by (simp only: drop_bit_eq_div unat_of_nat len_of_numeral_defs) simp
  also have "(2::nat) ^ (i * 8) = 256 ^ i"
    using power_mult [of "2::nat" 8 i] by (simp add: mult.commute)
  finally have u: "unat (drop_bit (i * 8) (of_nat n :: u64)) = (n mod 2 ^ 64) div 256 ^ i" .
  have "(ucast (drop_bit (i * 8) (of_nat n :: u64)) :: byte) = of_nat (unat (drop_bit (i * 8) (of_nat n :: u64)))"
    by (rule of_nat_unat [symmetric])
  then show ?thesis by (simp only: u)
qed

lemma total_bits:
  "(of_nat (512 * (n div 64)) + of_nat (n mod 64) * 8 :: u64) = of_nat (8 * n)"
proof -
  define q r where "q = n div 64" and "r = n mod 64"
  have "n = 64 * q + r" by (simp add: q_def r_def)
  then have eq: "512 * (n div 64) + (n mod 64) * 8 = 8 * n"
    unfolding q_def [symmetric] r_def [symmetric] by linarith
  have "(of_nat (512 * (n div 64)) + of_nat (n mod 64) * 8 :: u64) = of_nat (512 * (n div 64) + (n mod 64) * 8)"
    by (simp only: of_nat_add of_nat_mult of_nat_numeral)
  then show ?thesis by (simp only: eq)
qed

lemma SHA256_digest_absorbed:
  assumes "absorbed c m"
  shows "SHA256_digest c = fips_sha256 m"
proof -
  define p where "p = tail64 m"
  define L where "L = be64 (8 * length m mod 2 ^ 64)"
  define c1 where "c1 = push_byte c 0x80"
  define c2 where "c2 = (if m_bufLen c1 > 56 then (transform (pad_zeros 64 c1))\<lparr>m_bufLen := 0\<rparr> else c1)"
  define tb where "tb = m_bitLen c + of_nat (m_bufLen c) * 8"
  let ?f = "\<lambda>i. ucast (drop_bit (i * 8) tb) :: byte"
  let ?c4 = "foldl (\<lambda>x i. push_byte x (?f i)) (pad_zeros 56 c2) [7, 6, 5, 4, 3, 2, 1, 0]"
  have p: "staged c p" "length p < 64" "length p = length m mod 64"
    using assms by (auto simp: absorbed_def staged_def p_def length_tail64)
  have L: "length L = 8" by (simp add: L_def be64_def)
  obtain q where q: "staged (pad_zeros 56 c2) q" "length q = 56"
      "foldl fips_compress (m_state c) (blocks (p @ [0x80] @ replicate ((119 - length p) mod 64) 0 @ L)) =
       fips_compress (m_state (pad_zeros 56 c2)) (q @ L)"
    using finish_blocks [OF p(1,2) L c1_def c2_def] by blast
  have "tb = of_nat (8 * length m)"
    using assms total_bits [of "length m"] by (simp add: tb_def absorbed_def length_tail64)
  then have fL: "map ?f [7, 6, 5, 4, 3, 2, 1, 0] = L"
    by (simp only: L_def be64_def length_bytes mod_mod_trivial)
  have c4: "staged ?c4 (q @ L)" "m_state ?c4 = m_state (pad_zeros 56 c2)"
    using staged_push_list [OF q(1), of "[7, 6, 5, 4, 3, 2, 1, 0]" ?f] q(2) fL by simp_all
  have b4: "m_buffer ?c4 = q @ L"
    using c4(1) q(2) L by (intro staged_full) auto
  have "SHA256_digest c = digest_out (m_state (transform ?c4))"
    by (simp add: SHA256_digest_def Let_def c1_def c2_def tb_def)
  also have "m_state (transform ?c4) = fips_compress (m_state (pad_zeros 56 c2)) (q @ L)"
    using b4 c4(2) q(2) L by (simp add: m_state_transform)
  also have "\<dots> = foldl fips_compress (m_state c) (blocks (p @ [0x80] @ replicate ((119 - length p) mod 64) 0 @ L))"
    by (simp only: q(3))
  also have "\<dots> = foldl fips_compress H_init (blocks (fips_pad m))"
    using assms blocks_split [of m "[0x80] @ replicate ((119 - length p) mod 64) 0 @ L"]
    by (simp add: absorbed_def fips_pad_def p_def L_def length_tail64)
  finally show ?thesis by (simp add: fips_sha256_def)
qed

section \<open>The object computes FIPS 180-4\<close>

lemma absorbed_updates: "absorbed c m \<Longrightarrow> absorbed (foldl SHA256_update c parts) (m @ concat parts)"
proof (induction parts arbitrary: c m)
  case Nil
  then show ?case by simp
next
  case (Cons a parts)
  from Cons.IH [OF absorbed_update [OF Cons.prems]] show ?case by simp
qed

lemma length_digest_out: "length (digest_out st) = 32"
  by (simp add: digest_out_def length_concat comp_def sum_list_triv)

lemma length_fips_sha256 [simp]: "length (fips_sha256 m) = 32"
  by (simp add: fips_sha256_def length_digest_out)

theorem SHA256_incremental_is_fips:
  "SHA256_digest (foldl SHA256_update SHA256_init parts) = fips_sha256 (concat parts)"
  using absorbed_updates [OF absorbed_init] by (simp add: SHA256_digest_absorbed)

lemma SHA256_hash_fips: "SHA256_hash m = fips_sha256 m"
  using absorbed_update [OF absorbed_init] by (simp add: SHA256_hash_def SHA256_digest_absorbed)

end
