(* ===== verification/SHA256_Vectors.thy ===== *)
theory SHA256_Vectors
  imports SHA256
begin

text \<open>
  The two known-answer tests of \<^verbatim>\<open>tests/sha256_test.cpp\<close>, evaluated by the simplifier: the
  message schedule and the rounds in steps of eight, then the digest.
\<close>

lemma upt_16_64: "[16..<64] = [16, 17, 18, 19, 20, 21, 22, 23] @ [24, 25, 26, 27, 28, 29, 30, 31] @ [32, 33, 34, 35,
     36, 37, 38, 39] @ [40, 41, 42, 43, 44, 45, 46, 47] @ [48, 49, 50, 51, 52, 53, 54, 55] @ [56, 57, 58, 59, 60,
     61, 62, 63]"
  by code_simp

lemma upt_0_64: "[0..<64] = [0, 1, 2, 3, 4, 5, 6, 7] @ [8, 9, 10, 11, 12, 13, 14, 15] @ [16, 17, 18, 19, 20, 21, 22,
     23] @ [24, 25, 26, 27, 28, 29, 30, 31] @ [32, 33, 34, 35, 36, 37, 38, 39] @ [40, 41, 42, 43, 44, 45, 46, 47] @
     [48, 49, 50, 51, 52, 53, 54, 55] @ [56, 57, 58, 59, 60, 61, 62, 63]"
  by code_simp

lemma upt_0_16: "[0..<16] = [0, 1, 2, 3, 4, 5, 6, 7, 8, 9, 10, 11, 12, 13, 14, 15]"
  by code_simp

lemma upt_0_8: "[0..<8] = [0, 1, 2, 3, 4, 5, 6, 7]"
  by code_simp

lemma H_init_nth:
  "H_init ! 0 = 0x6a09e667" "H_init ! 1 = 0xbb67ae85" "H_init ! 2 = 0x3c6ef372" "H_init ! 3 = 0xa54ff53a"
  "H_init ! 4 = 0x510e527f" "H_init ! 5 = 0x9b05688c" "H_init ! 6 = 0x1f83d9ab" "H_init ! 7 = 0x5be0cd19"
  by (simp_all add: H_init_def)

lemma replicate_eqs: "replicate (numeral n) b = b # replicate (pred_numeral n) b"
  by (simp add: numeral_eq_Suc)

section \<open>The message abc\<close>

definition abc_block :: bytes where
    "abc_block = [0x61, 0x62, 0x63, 0x80, 0x0, 0x0, 0x0, 0x0, 0x0, 0x0, 0x0, 0x0, 0x0, 0x0, 0x0, 0x0, 0x0, 0x0, 0x0,
     0x0, 0x0, 0x0, 0x0, 0x0, 0x0, 0x0, 0x0, 0x0, 0x0, 0x0, 0x0, 0x0, 0x0, 0x0, 0x0, 0x0, 0x0, 0x0, 0x0, 0x0, 0x0,
     0x0, 0x0, 0x0, 0x0, 0x0, 0x0, 0x0, 0x0, 0x0, 0x0, 0x0, 0x0, 0x0, 0x0, 0x0, 0x0, 0x0, 0x0, 0x0, 0x0, 0x0, 0x0,
     0x18]"

definition abc_W :: "u32 list" where
    "abc_W = [0x61626380, 0x0, 0x0, 0x0, 0x0, 0x0, 0x0, 0x0, 0x0, 0x0, 0x0, 0x0, 0x0, 0x0, 0x0, 0x18, 0x61626380,
     0xf0000, 0x7da86405, 0x600003c6, 0x3e9d7b78, 0x183fc00, 0x12dcbfdb, 0xe2e2c38e, 0xc8215c1a, 0xb73679a2,
     0xe5bc3909, 0x32663c5b, 0x9d209d67, 0xec8726cb, 0x702138a4, 0xd3b7973b, 0x93f5997f, 0x3b68ba73, 0xaff4ffc1,
     0xf10a5c62, 0xa8b3996, 0x72af830a, 0x9409e33e, 0x24641522, 0x9f47bf94, 0xf0a64f5a, 0x3e246a79, 0x27333ba3,
     0xc4763f2, 0x840abf27, 0x7a290d5d, 0x65c43da, 0xfb3e89cb, 0xcc7617db, 0xb9e66c34, 0xa9993667, 0x84badedd,
     0xc21462bc, 0x1487472c, 0xb20f7a99, 0xef57b9cd, 0xebe6b238, 0x9fe3095e, 0x78bc8d4b, 0xa43fcf15, 0x668b2ff8,
     0xeeaba2cc, 0x12b1edeb]"

lemma abc_words:
    "map (block_word abc_block) [0..<16] = [0x61626380, 0x0, 0x0, 0x0, 0x0, 0x0, 0x0, 0x0, 0x0, 0x0, 0x0, 0x0, 0x0,
     0x0, 0x0, 0x18]"
  by (simp add: abc_block_def block_word_def upt_0_16)

lemma abc_schedule_16:
    "foldl schedule_step ([0x61626380, 0x0, 0x0, 0x0, 0x0, 0x0, 0x0, 0x0, 0x0, 0x0, 0x0, 0x0, 0x0, 0x0, 0x0, 0x18])
     [16, 17, 18, 19, 20, 21, 22, 23] = [0x61626380, 0x0, 0x0, 0x0, 0x0, 0x0, 0x0, 0x0, 0x0, 0x0, 0x0, 0x0, 0x0,
     0x0, 0x0, 0x18, 0x61626380, 0xf0000, 0x7da86405, 0x600003c6, 0x3e9d7b78, 0x183fc00, 0x12dcbfdb, 0xe2e2c38e]"
  by (simp add: schedule_step_def rotr_def)

lemma abc_schedule_24:
    "foldl schedule_step ([0x61626380, 0x0, 0x0, 0x0, 0x0, 0x0, 0x0, 0x0, 0x0, 0x0, 0x0, 0x0, 0x0, 0x0, 0x0, 0x18,
     0x61626380, 0xf0000, 0x7da86405, 0x600003c6, 0x3e9d7b78, 0x183fc00, 0x12dcbfdb, 0xe2e2c38e]) [24, 25, 26, 27,
     28, 29, 30, 31] = [0x61626380, 0x0, 0x0, 0x0, 0x0, 0x0, 0x0, 0x0, 0x0, 0x0, 0x0, 0x0, 0x0, 0x0, 0x0, 0x18,
     0x61626380, 0xf0000, 0x7da86405, 0x600003c6, 0x3e9d7b78, 0x183fc00, 0x12dcbfdb, 0xe2e2c38e, 0xc8215c1a,
     0xb73679a2, 0xe5bc3909, 0x32663c5b, 0x9d209d67, 0xec8726cb, 0x702138a4, 0xd3b7973b]"
  by (simp add: schedule_step_def rotr_def)

lemma abc_schedule_32:
    "foldl schedule_step ([0x61626380, 0x0, 0x0, 0x0, 0x0, 0x0, 0x0, 0x0, 0x0, 0x0, 0x0, 0x0, 0x0, 0x0, 0x0, 0x18,
     0x61626380, 0xf0000, 0x7da86405, 0x600003c6, 0x3e9d7b78, 0x183fc00, 0x12dcbfdb, 0xe2e2c38e, 0xc8215c1a,
     0xb73679a2, 0xe5bc3909, 0x32663c5b, 0x9d209d67, 0xec8726cb, 0x702138a4, 0xd3b7973b]) [32, 33, 34, 35, 36, 37,
     38, 39] = [0x61626380, 0x0, 0x0, 0x0, 0x0, 0x0, 0x0, 0x0, 0x0, 0x0, 0x0, 0x0, 0x0, 0x0, 0x0, 0x18, 0x61626380,
     0xf0000, 0x7da86405, 0x600003c6, 0x3e9d7b78, 0x183fc00, 0x12dcbfdb, 0xe2e2c38e, 0xc8215c1a, 0xb73679a2,
     0xe5bc3909, 0x32663c5b, 0x9d209d67, 0xec8726cb, 0x702138a4, 0xd3b7973b, 0x93f5997f, 0x3b68ba73, 0xaff4ffc1,
     0xf10a5c62, 0xa8b3996, 0x72af830a, 0x9409e33e, 0x24641522]"
  by (simp add: schedule_step_def rotr_def)

lemma abc_schedule_40:
    "foldl schedule_step ([0x61626380, 0x0, 0x0, 0x0, 0x0, 0x0, 0x0, 0x0, 0x0, 0x0, 0x0, 0x0, 0x0, 0x0, 0x0, 0x18,
     0x61626380, 0xf0000, 0x7da86405, 0x600003c6, 0x3e9d7b78, 0x183fc00, 0x12dcbfdb, 0xe2e2c38e, 0xc8215c1a,
     0xb73679a2, 0xe5bc3909, 0x32663c5b, 0x9d209d67, 0xec8726cb, 0x702138a4, 0xd3b7973b, 0x93f5997f, 0x3b68ba73,
     0xaff4ffc1, 0xf10a5c62, 0xa8b3996, 0x72af830a, 0x9409e33e, 0x24641522]) [40, 41, 42, 43, 44, 45, 46, 47] =
     [0x61626380, 0x0, 0x0, 0x0, 0x0, 0x0, 0x0, 0x0, 0x0, 0x0, 0x0, 0x0, 0x0, 0x0, 0x0, 0x18, 0x61626380, 0xf0000,
     0x7da86405, 0x600003c6, 0x3e9d7b78, 0x183fc00, 0x12dcbfdb, 0xe2e2c38e, 0xc8215c1a, 0xb73679a2, 0xe5bc3909,
     0x32663c5b, 0x9d209d67, 0xec8726cb, 0x702138a4, 0xd3b7973b, 0x93f5997f, 0x3b68ba73, 0xaff4ffc1, 0xf10a5c62,
     0xa8b3996, 0x72af830a, 0x9409e33e, 0x24641522, 0x9f47bf94, 0xf0a64f5a, 0x3e246a79, 0x27333ba3, 0xc4763f2,
     0x840abf27, 0x7a290d5d, 0x65c43da]"
  by (simp add: schedule_step_def rotr_def)

lemma abc_schedule_48:
    "foldl schedule_step ([0x61626380, 0x0, 0x0, 0x0, 0x0, 0x0, 0x0, 0x0, 0x0, 0x0, 0x0, 0x0, 0x0, 0x0, 0x0, 0x18,
     0x61626380, 0xf0000, 0x7da86405, 0x600003c6, 0x3e9d7b78, 0x183fc00, 0x12dcbfdb, 0xe2e2c38e, 0xc8215c1a,
     0xb73679a2, 0xe5bc3909, 0x32663c5b, 0x9d209d67, 0xec8726cb, 0x702138a4, 0xd3b7973b, 0x93f5997f, 0x3b68ba73,
     0xaff4ffc1, 0xf10a5c62, 0xa8b3996, 0x72af830a, 0x9409e33e, 0x24641522, 0x9f47bf94, 0xf0a64f5a, 0x3e246a79,
     0x27333ba3, 0xc4763f2, 0x840abf27, 0x7a290d5d, 0x65c43da]) [48, 49, 50, 51, 52, 53, 54, 55] = [0x61626380, 0x0,
     0x0, 0x0, 0x0, 0x0, 0x0, 0x0, 0x0, 0x0, 0x0, 0x0, 0x0, 0x0, 0x0, 0x18, 0x61626380, 0xf0000, 0x7da86405,
     0x600003c6, 0x3e9d7b78, 0x183fc00, 0x12dcbfdb, 0xe2e2c38e, 0xc8215c1a, 0xb73679a2, 0xe5bc3909, 0x32663c5b,
     0x9d209d67, 0xec8726cb, 0x702138a4, 0xd3b7973b, 0x93f5997f, 0x3b68ba73, 0xaff4ffc1, 0xf10a5c62, 0xa8b3996,
     0x72af830a, 0x9409e33e, 0x24641522, 0x9f47bf94, 0xf0a64f5a, 0x3e246a79, 0x27333ba3, 0xc4763f2, 0x840abf27,
     0x7a290d5d, 0x65c43da, 0xfb3e89cb, 0xcc7617db, 0xb9e66c34, 0xa9993667, 0x84badedd, 0xc21462bc, 0x1487472c,
     0xb20f7a99]"
  by (simp add: schedule_step_def rotr_def)

lemma abc_schedule_56:
    "foldl schedule_step ([0x61626380, 0x0, 0x0, 0x0, 0x0, 0x0, 0x0, 0x0, 0x0, 0x0, 0x0, 0x0, 0x0, 0x0, 0x0, 0x18,
     0x61626380, 0xf0000, 0x7da86405, 0x600003c6, 0x3e9d7b78, 0x183fc00, 0x12dcbfdb, 0xe2e2c38e, 0xc8215c1a,
     0xb73679a2, 0xe5bc3909, 0x32663c5b, 0x9d209d67, 0xec8726cb, 0x702138a4, 0xd3b7973b, 0x93f5997f, 0x3b68ba73,
     0xaff4ffc1, 0xf10a5c62, 0xa8b3996, 0x72af830a, 0x9409e33e, 0x24641522, 0x9f47bf94, 0xf0a64f5a, 0x3e246a79,
     0x27333ba3, 0xc4763f2, 0x840abf27, 0x7a290d5d, 0x65c43da, 0xfb3e89cb, 0xcc7617db, 0xb9e66c34, 0xa9993667,
     0x84badedd, 0xc21462bc, 0x1487472c, 0xb20f7a99]) [56, 57, 58, 59, 60, 61, 62, 63] = [0x61626380, 0x0, 0x0, 0x0,
     0x0, 0x0, 0x0, 0x0, 0x0, 0x0, 0x0, 0x0, 0x0, 0x0, 0x0, 0x18, 0x61626380, 0xf0000, 0x7da86405, 0x600003c6,
     0x3e9d7b78, 0x183fc00, 0x12dcbfdb, 0xe2e2c38e, 0xc8215c1a, 0xb73679a2, 0xe5bc3909, 0x32663c5b, 0x9d209d67,
     0xec8726cb, 0x702138a4, 0xd3b7973b, 0x93f5997f, 0x3b68ba73, 0xaff4ffc1, 0xf10a5c62, 0xa8b3996, 0x72af830a,
     0x9409e33e, 0x24641522, 0x9f47bf94, 0xf0a64f5a, 0x3e246a79, 0x27333ba3, 0xc4763f2, 0x840abf27, 0x7a290d5d,
     0x65c43da, 0xfb3e89cb, 0xcc7617db, 0xb9e66c34, 0xa9993667, 0x84badedd, 0xc21462bc, 0x1487472c, 0xb20f7a99,
     0xef57b9cd, 0xebe6b238, 0x9fe3095e, 0x78bc8d4b, 0xa43fcf15, 0x668b2ff8, 0xeeaba2cc, 0x12b1edeb]"
  by (simp add: schedule_step_def rotr_def)

lemma abc_rounds_0:
    "foldl (transform_round abc_W) (0x6a09e667, 0xbb67ae85, 0x3c6ef372, 0xa54ff53a, 0x510e527f, 0x9b05688c,
     0x1f83d9ab, 0x5be0cd19) [0, 1, 2, 3, 4, 5, 6, 7] = (0x85a07b5f, 0xe5030380, 0x2b4209f5, 0x4409a6a, 0xc657a79,
     0x9b27a401, 0x714260ad, 0x43ada245)"
  by (simp add: abc_W_def K256_def transform_round_def rotr_def)

lemma abc_rounds_8:
    "foldl (transform_round abc_W) (0x85a07b5f, 0xe5030380, 0x2b4209f5, 0x4409a6a, 0xc657a79, 0x9b27a401,
     0x714260ad, 0x43ada245) [8, 9, 10, 11, 12, 13, 14, 15] = (0xb0fa238e, 0xc0645fde, 0xd932eb16, 0x87912990,
     0x7590dcd, 0xb92f20c, 0x745a48de, 0x1e578218)"
  by (simp add: abc_W_def K256_def transform_round_def rotr_def)

lemma abc_rounds_16:
    "foldl (transform_round abc_W) (0xb0fa238e, 0xc0645fde, 0xd932eb16, 0x87912990, 0x7590dcd, 0xb92f20c,
     0x745a48de, 0x1e578218) [16, 17, 18, 19, 20, 21, 22, 23] = (0xc5d53d8d, 0xa7a3623f, 0xc2606d6d, 0x9dc68b63,
     0xaa47c347, 0x49f5114a, 0xe1257970, 0x8ada8930)"
  by (simp add: abc_W_def K256_def transform_round_def rotr_def)

lemma abc_rounds_24:
    "foldl (transform_round abc_W) (0xc5d53d8d, 0xa7a3623f, 0xc2606d6d, 0x9dc68b63, 0xaa47c347, 0x49f5114a,
     0xe1257970, 0x8ada8930) [24, 25, 26, 27, 28, 29, 30, 31] = (0x73b33bf5, 0xea992a22, 0xa0060b30, 0x363482c9,
     0xba591112, 0x109ab3a, 0xade79437, 0x6112a3b7)"
  by (simp add: abc_W_def K256_def transform_round_def rotr_def)

lemma abc_rounds_32:
    "foldl (transform_round abc_W) (0x73b33bf5, 0xea992a22, 0xa0060b30, 0x363482c9, 0xba591112, 0x109ab3a,
     0xade79437, 0x6112a3b7) [32, 33, 34, 35, 36, 37, 38, 39] = (0x79ea687a, 0x6dc57a8a, 0x34df1604, 0x41a65cb1,
     0x1efbc0a0, 0xf0781bc8, 0xa507a53d, 0x772a26b)"
  by (simp add: abc_W_def K256_def transform_round_def rotr_def)

lemma abc_rounds_40:
    "foldl (transform_round abc_W) (0x79ea687a, 0x6dc57a8a, 0x34df1604, 0x41a65cb1, 0x1efbc0a0, 0xf0781bc8,
     0xa507a53d, 0x772a26b) [40, 41, 42, 43, 44, 45, 46, 47] = (0x4172328d, 0xa14c14b0, 0x72ab4b91, 0x26628815,
     0xfecf0bc6, 0xd57b94a9, 0xb7755da1, 0xa80f11f0)"
  by (simp add: abc_W_def K256_def transform_round_def rotr_def)

lemma abc_rounds_48:
    "foldl (transform_round abc_W) (0x4172328d, 0xa14c14b0, 0x72ab4b91, 0x26628815, 0xfecf0bc6, 0xd57b94a9,
     0xb7755da1, 0xa80f11f0) [48, 49, 50, 51, 52, 53, 54, 55] = (0x38cc9913, 0x3ec45cdb, 0xf5702fdb, 0x101fd28f,
     0x54cb266b, 0xe50e1b4f, 0x9f4787c3, 0x529e7d00)"
  by (simp add: abc_W_def K256_def transform_round_def rotr_def)

lemma abc_rounds_56:
    "foldl (transform_round abc_W) (0x38cc9913, 0x3ec45cdb, 0xf5702fdb, 0x101fd28f, 0x54cb266b, 0xe50e1b4f,
     0x9f4787c3, 0x529e7d00) [56, 57, 58, 59, 60, 61, 62, 63] = (0x506e3058, 0xd39a2165, 0x4d24d6c, 0xb85e2ce9,
     0x5ef50f24, 0xfb121210, 0x948d25b6, 0x961f4894)"
  by (simp add: abc_W_def K256_def transform_round_def rotr_def)

lemma abc_schedule: "schedule abc_block = abc_W"
  unfolding schedule_def upt_16_64 foldl_append abc_words
  by (simp only: abc_W_def
      abc_schedule_16 abc_schedule_24 abc_schedule_32 abc_schedule_40 abc_schedule_48 abc_schedule_56)

lemma abc_state:
    "transform_state H_init abc_block = [0xba7816bf, 0x8f01cfea, 0x414140de, 0x5dae2223, 0xb00361a3, 0x96177a9c,
     0xb410ff61, 0xf20015ad]"
  unfolding transform_state_def upt_0_64 foldl_append abc_schedule H_init_nth
  by (simp only: prod.case
      abc_rounds_0 abc_rounds_8 abc_rounds_16 abc_rounds_24 abc_rounds_32 abc_rounds_40 abc_rounds_48 abc_rounds_56)
    simp

lemma abc_padded: "fips_pad [0x61, 0x62, 0x63] = abc_block"
  by (simp add: fips_pad_def be64_def abc_block_def replicate_eqs)

lemma abc_digest:
    "SHA256_hash [0x61, 0x62, 0x63] = [0xba, 0x78, 0x16, 0xbf, 0x8f, 0x1, 0xcf, 0xea, 0x41, 0x41, 0x40, 0xde, 0x5d,
     0xae, 0x22, 0x23, 0xb0, 0x3, 0x61, 0xa3, 0x96, 0x17, 0x7a, 0x9c, 0xb4, 0x10, 0xff, 0x61, 0xf2, 0x0, 0x15,
     0xad]"
proof -
  have len: "length abc_block = 64" by (simp add: abc_block_def)
  then have "blocks abc_block = [abc_block]" using blocks_cons [of abc_block "[]"] by simp
    moreover have "fips_compress H_init abc_block = [0xba7816bf, 0x8f01cfea, 0x414140de, 0x5dae2223, 0xb00361a3,
     0x96177a9c, 0xb410ff61, 0xf20015ad]"
    using abc_state len by (simp only: transform_state_fips)
  ultimately show ?thesis
    by (simp add: SHA256_hash_fips fips_sha256_def abc_padded digest_out_def upt_0_8)
qed

section \<open>The empty message\<close>

definition empty_block :: bytes where
    "empty_block = [0x80, 0x0, 0x0, 0x0, 0x0, 0x0, 0x0, 0x0, 0x0, 0x0, 0x0, 0x0, 0x0, 0x0, 0x0, 0x0, 0x0, 0x0, 0x0,
     0x0, 0x0, 0x0, 0x0, 0x0, 0x0, 0x0, 0x0, 0x0, 0x0, 0x0, 0x0, 0x0, 0x0, 0x0, 0x0, 0x0, 0x0, 0x0, 0x0, 0x0, 0x0,
     0x0, 0x0, 0x0, 0x0, 0x0, 0x0, 0x0, 0x0, 0x0, 0x0, 0x0, 0x0, 0x0, 0x0, 0x0, 0x0, 0x0, 0x0, 0x0, 0x0, 0x0, 0x0,
     0x0]"

definition empty_W :: "u32 list" where
    "empty_W = [0x80000000, 0x0, 0x0, 0x0, 0x0, 0x0, 0x0, 0x0, 0x0, 0x0, 0x0, 0x0, 0x0, 0x0, 0x0, 0x0, 0x80000000,
     0x0, 0x205000, 0x0, 0x22000800, 0x0, 0x5089542, 0x80000000, 0x58080000, 0x40a000, 0x162505, 0x66001800,
     0xd6222580, 0x14225508, 0xd645f95c, 0xc9282000, 0xc3f10094, 0x284ca766, 0x6886dc6, 0xa37bf116, 0x717cbe96,
     0xfec2d74a, 0xa7b67f00, 0x811596a2, 0x98a6e768, 0x3b20c82, 0x5d1da7c9, 0xb156b935, 0xc3ddca11, 0x249c107f,
     0xc48d24ef, 0x5de54c30, 0xdefece65, 0x2ca1480d, 0x3c15332c, 0x1cec9ad, 0x160cccd0, 0xbacda98, 0x361b8fe0,
     0xd2320ba6, 0x29b7007, 0x7546587c, 0x7f54f39, 0xf808ddc3, 0xdcca7608, 0x5e427188, 0x44bcec5d, 0x3b5ec49b]"

lemma empty_words:
    "map (block_word empty_block) [0..<16] = [0x80000000, 0x0, 0x0, 0x0, 0x0, 0x0, 0x0, 0x0, 0x0, 0x0, 0x0, 0x0,
     0x0, 0x0, 0x0, 0x0]"
  by (simp add: empty_block_def block_word_def upt_0_16)

lemma empty_schedule_16:
    "foldl schedule_step ([0x80000000, 0x0, 0x0, 0x0, 0x0, 0x0, 0x0, 0x0, 0x0, 0x0, 0x0, 0x0, 0x0, 0x0, 0x0, 0x0])
     [16, 17, 18, 19, 20, 21, 22, 23] = [0x80000000, 0x0, 0x0, 0x0, 0x0, 0x0, 0x0, 0x0, 0x0, 0x0, 0x0, 0x0, 0x0,
     0x0, 0x0, 0x0, 0x80000000, 0x0, 0x205000, 0x0, 0x22000800, 0x0, 0x5089542, 0x80000000]"
  by (simp add: schedule_step_def rotr_def)

lemma empty_schedule_24:
    "foldl schedule_step ([0x80000000, 0x0, 0x0, 0x0, 0x0, 0x0, 0x0, 0x0, 0x0, 0x0, 0x0, 0x0, 0x0, 0x0, 0x0, 0x0,
     0x80000000, 0x0, 0x205000, 0x0, 0x22000800, 0x0, 0x5089542, 0x80000000]) [24, 25, 26, 27, 28, 29, 30, 31] =
     [0x80000000, 0x0, 0x0, 0x0, 0x0, 0x0, 0x0, 0x0, 0x0, 0x0, 0x0, 0x0, 0x0, 0x0, 0x0, 0x0, 0x80000000, 0x0,
     0x205000, 0x0, 0x22000800, 0x0, 0x5089542, 0x80000000, 0x58080000, 0x40a000, 0x162505, 0x66001800, 0xd6222580,
     0x14225508, 0xd645f95c, 0xc9282000]"
  by (simp add: schedule_step_def rotr_def)

lemma empty_schedule_32:
    "foldl schedule_step ([0x80000000, 0x0, 0x0, 0x0, 0x0, 0x0, 0x0, 0x0, 0x0, 0x0, 0x0, 0x0, 0x0, 0x0, 0x0, 0x0,
     0x80000000, 0x0, 0x205000, 0x0, 0x22000800, 0x0, 0x5089542, 0x80000000, 0x58080000, 0x40a000, 0x162505,
     0x66001800, 0xd6222580, 0x14225508, 0xd645f95c, 0xc9282000]) [32, 33, 34, 35, 36, 37, 38, 39] = [0x80000000,
     0x0, 0x0, 0x0, 0x0, 0x0, 0x0, 0x0, 0x0, 0x0, 0x0, 0x0, 0x0, 0x0, 0x0, 0x0, 0x80000000, 0x0, 0x205000, 0x0,
     0x22000800, 0x0, 0x5089542, 0x80000000, 0x58080000, 0x40a000, 0x162505, 0x66001800, 0xd6222580, 0x14225508,
     0xd645f95c, 0xc9282000, 0xc3f10094, 0x284ca766, 0x6886dc6, 0xa37bf116, 0x717cbe96, 0xfec2d74a, 0xa7b67f00,
     0x811596a2]"
  by (simp add: schedule_step_def rotr_def)

lemma empty_schedule_40:
    "foldl schedule_step ([0x80000000, 0x0, 0x0, 0x0, 0x0, 0x0, 0x0, 0x0, 0x0, 0x0, 0x0, 0x0, 0x0, 0x0, 0x0, 0x0,
     0x80000000, 0x0, 0x205000, 0x0, 0x22000800, 0x0, 0x5089542, 0x80000000, 0x58080000, 0x40a000, 0x162505,
     0x66001800, 0xd6222580, 0x14225508, 0xd645f95c, 0xc9282000, 0xc3f10094, 0x284ca766, 0x6886dc6, 0xa37bf116,
     0x717cbe96, 0xfec2d74a, 0xa7b67f00, 0x811596a2]) [40, 41, 42, 43, 44, 45, 46, 47] = [0x80000000, 0x0, 0x0, 0x0,
     0x0, 0x0, 0x0, 0x0, 0x0, 0x0, 0x0, 0x0, 0x0, 0x0, 0x0, 0x0, 0x80000000, 0x0, 0x205000, 0x0, 0x22000800, 0x0,
     0x5089542, 0x80000000, 0x58080000, 0x40a000, 0x162505, 0x66001800, 0xd6222580, 0x14225508, 0xd645f95c,
     0xc9282000, 0xc3f10094, 0x284ca766, 0x6886dc6, 0xa37bf116, 0x717cbe96, 0xfec2d74a, 0xa7b67f00, 0x811596a2,
     0x98a6e768, 0x3b20c82, 0x5d1da7c9, 0xb156b935, 0xc3ddca11, 0x249c107f, 0xc48d24ef, 0x5de54c30]"
  by (simp add: schedule_step_def rotr_def)

lemma empty_schedule_48:
    "foldl schedule_step ([0x80000000, 0x0, 0x0, 0x0, 0x0, 0x0, 0x0, 0x0, 0x0, 0x0, 0x0, 0x0, 0x0, 0x0, 0x0, 0x0,
     0x80000000, 0x0, 0x205000, 0x0, 0x22000800, 0x0, 0x5089542, 0x80000000, 0x58080000, 0x40a000, 0x162505,
     0x66001800, 0xd6222580, 0x14225508, 0xd645f95c, 0xc9282000, 0xc3f10094, 0x284ca766, 0x6886dc6, 0xa37bf116,
     0x717cbe96, 0xfec2d74a, 0xa7b67f00, 0x811596a2, 0x98a6e768, 0x3b20c82, 0x5d1da7c9, 0xb156b935, 0xc3ddca11,
     0x249c107f, 0xc48d24ef, 0x5de54c30]) [48, 49, 50, 51, 52, 53, 54, 55] = [0x80000000, 0x0, 0x0, 0x0, 0x0, 0x0,
     0x0, 0x0, 0x0, 0x0, 0x0, 0x0, 0x0, 0x0, 0x0, 0x0, 0x80000000, 0x0, 0x205000, 0x0, 0x22000800, 0x0, 0x5089542,
     0x80000000, 0x58080000, 0x40a000, 0x162505, 0x66001800, 0xd6222580, 0x14225508, 0xd645f95c, 0xc9282000,
     0xc3f10094, 0x284ca766, 0x6886dc6, 0xa37bf116, 0x717cbe96, 0xfec2d74a, 0xa7b67f00, 0x811596a2, 0x98a6e768,
     0x3b20c82, 0x5d1da7c9, 0xb156b935, 0xc3ddca11, 0x249c107f, 0xc48d24ef, 0x5de54c30, 0xdefece65, 0x2ca1480d,
     0x3c15332c, 0x1cec9ad, 0x160cccd0, 0xbacda98, 0x361b8fe0, 0xd2320ba6]"
  by (simp add: schedule_step_def rotr_def)

lemma empty_schedule_56:
    "foldl schedule_step ([0x80000000, 0x0, 0x0, 0x0, 0x0, 0x0, 0x0, 0x0, 0x0, 0x0, 0x0, 0x0, 0x0, 0x0, 0x0, 0x0,
     0x80000000, 0x0, 0x205000, 0x0, 0x22000800, 0x0, 0x5089542, 0x80000000, 0x58080000, 0x40a000, 0x162505,
     0x66001800, 0xd6222580, 0x14225508, 0xd645f95c, 0xc9282000, 0xc3f10094, 0x284ca766, 0x6886dc6, 0xa37bf116,
     0x717cbe96, 0xfec2d74a, 0xa7b67f00, 0x811596a2, 0x98a6e768, 0x3b20c82, 0x5d1da7c9, 0xb156b935, 0xc3ddca11,
     0x249c107f, 0xc48d24ef, 0x5de54c30, 0xdefece65, 0x2ca1480d, 0x3c15332c, 0x1cec9ad, 0x160cccd0, 0xbacda98,
     0x361b8fe0, 0xd2320ba6]) [56, 57, 58, 59, 60, 61, 62, 63] = [0x80000000, 0x0, 0x0, 0x0, 0x0, 0x0, 0x0, 0x0,
     0x0, 0x0, 0x0, 0x0, 0x0, 0x0, 0x0, 0x0, 0x80000000, 0x0, 0x205000, 0x0, 0x22000800, 0x0, 0x5089542, 0x80000000,
     0x58080000, 0x40a000, 0x162505, 0x66001800, 0xd6222580, 0x14225508, 0xd645f95c, 0xc9282000, 0xc3f10094,
     0x284ca766, 0x6886dc6, 0xa37bf116, 0x717cbe96, 0xfec2d74a, 0xa7b67f00, 0x811596a2, 0x98a6e768, 0x3b20c82,
     0x5d1da7c9, 0xb156b935, 0xc3ddca11, 0x249c107f, 0xc48d24ef, 0x5de54c30, 0xdefece65, 0x2ca1480d, 0x3c15332c,
     0x1cec9ad, 0x160cccd0, 0xbacda98, 0x361b8fe0, 0xd2320ba6, 0x29b7007, 0x7546587c, 0x7f54f39, 0xf808ddc3,
     0xdcca7608, 0x5e427188, 0x44bcec5d, 0x3b5ec49b]"
  by (simp add: schedule_step_def rotr_def)

lemma empty_rounds_0:
    "foldl (transform_round empty_W) (0x6a09e667, 0xbb67ae85, 0x3c6ef372, 0xa54ff53a, 0x510e527f, 0x9b05688c,
     0x1f83d9ab, 0x5be0cd19) [0, 1, 2, 3, 4, 5, 6, 7] = (0x7ad5b1b6, 0xf0205590, 0x292e3b42, 0x4366f730, 0x53f94dcb,
     0x82ede06f, 0x4f6540fa, 0xe7d0641e)"
  by (simp add: empty_W_def K256_def transform_round_def rotr_def)

lemma empty_rounds_8:
    "foldl (transform_round empty_W) (0x7ad5b1b6, 0xf0205590, 0x292e3b42, 0x4366f730, 0x53f94dcb, 0x82ede06f,
     0x4f6540fa, 0xe7d0641e) [8, 9, 10, 11, 12, 13, 14, 15] = (0xb40085b5, 0xb88afddb, 0x45c013a7, 0x2102d2cd,
     0x5cb8e863, 0x1ccfac39, 0x2b427296, 0xcdfdfe52)"
  by (simp add: empty_W_def K256_def transform_round_def rotr_def)

lemma empty_rounds_16:
    "foldl (transform_round empty_W) (0xb40085b5, 0xb88afddb, 0x45c013a7, 0x2102d2cd, 0x5cb8e863, 0x1ccfac39,
     0x2b427296, 0xcdfdfe52) [16, 17, 18, 19, 20, 21, 22, 23] = (0x985bed55, 0x404d8054, 0x99a6cb19, 0x75c7f0d8,
     0x2c2c028d, 0xb1653710, 0xc287981e, 0x39953ccd)"
  by (simp add: empty_W_def K256_def transform_round_def rotr_def)

lemma empty_rounds_24:
    "foldl (transform_round empty_W) (0x985bed55, 0x404d8054, 0x99a6cb19, 0x75c7f0d8, 0x2c2c028d, 0xb1653710,
     0xc287981e, 0x39953ccd) [24, 25, 26, 27, 28, 29, 30, 31] = (0x11e7025f, 0xa0bb0cdf, 0x72d3a00d, 0x64bc9e1c,
     0xbbd7846c, 0x564a6626, 0xb04ab22d, 0x95696b75)"
  by (simp add: empty_W_def K256_def transform_round_def rotr_def)

lemma empty_rounds_32:
    "foldl (transform_round empty_W) (0x11e7025f, 0xa0bb0cdf, 0x72d3a00d, 0x64bc9e1c, 0xbbd7846c, 0x564a6626,
     0xb04ab22d, 0x95696b75) [32, 33, 34, 35, 36, 37, 38, 39] = (0x499911b1, 0x9e58e42f, 0x56e3dc4e, 0xa096535d,
     0x716bb025, 0x85a71424, 0xe807ea7f, 0xfac06aed)"
  by (simp add: empty_W_def K256_def transform_round_def rotr_def)

lemma empty_rounds_40:
    "foldl (transform_round empty_W) (0x499911b1, 0x9e58e42f, 0x56e3dc4e, 0xa096535d, 0x716bb025, 0x85a71424,
     0xe807ea7f, 0xfac06aed) [40, 41, 42, 43, 44, 45, 46, 47] = (0x365a34cd, 0x54982d6c, 0x32fa442b, 0xa40972d4,
     0xcbb3f8eb, 0x8a6a82b2, 0xd285c679, 0xaa2c1810)"
  by (simp add: empty_W_def K256_def transform_round_def rotr_def)

lemma empty_rounds_48:
    "foldl (transform_round empty_W) (0x365a34cd, 0x54982d6c, 0x32fa442b, 0xa40972d4, 0xcbb3f8eb, 0x8a6a82b2,
     0xd285c679, 0xaa2c1810) [48, 49, 50, 51, 52, 53, 54, 55] = (0x1638014, 0x2caf58ca, 0x3a0e9477, 0xb1b29c90,
     0xadf94e0a, 0xe588e598, 0xfd99936e, 0x43a5def8)"
  by (simp add: empty_W_def K256_def transform_round_def rotr_def)

lemma empty_rounds_56:
    "foldl (transform_round empty_W) (0x1638014, 0x2caf58ca, 0x3a0e9477, 0xb1b29c90, 0xadf94e0a, 0xe588e598,
     0xfd99936e, 0x43a5def8) [56, 57, 58, 59, 60, 61, 62, 63] = (0x79a6dddb, 0xdd946d8f, 0x5e8d0156, 0xf41fc3ea,
     0xd69fef65, 0xc9962ac0, 0x8511bf70, 0x1c71eb3c)"
  by (simp add: empty_W_def K256_def transform_round_def rotr_def)

lemma empty_schedule: "schedule empty_block = empty_W"
  unfolding schedule_def upt_16_64 foldl_append empty_words
  by (simp only: empty_W_def
      empty_schedule_16 empty_schedule_24 empty_schedule_32 empty_schedule_40 empty_schedule_48 empty_schedule_56)

lemma empty_state:
    "transform_state H_init empty_block = [0xe3b0c442, 0x98fc1c14, 0x9afbf4c8, 0x996fb924, 0x27ae41e4, 0x649b934c,
     0xa495991b, 0x7852b855]"
  unfolding transform_state_def upt_0_64 foldl_append empty_schedule H_init_nth
  by (simp only: prod.case
        empty_rounds_0 empty_rounds_8 empty_rounds_16 empty_rounds_24 empty_rounds_32 empty_rounds_40
     empty_rounds_48 empty_rounds_56)
    simp

lemma empty_padded: "fips_pad [] = empty_block"
  by (simp add: fips_pad_def be64_def empty_block_def replicate_eqs)

lemma empty_digest:
    "SHA256_hash [] =
      [0xe3, 0xb0, 0xc4, 0x42, 0x98, 0xfc, 0x1c, 0x14] @
      [0x9a, 0xfb, 0xf4, 0xc8, 0x99, 0x6f, 0xb9, 0x24] @
      [0x27, 0xae, 0x41, 0xe4, 0x64, 0x9b, 0x93, 0x4c] @
      [0xa4, 0x95, 0x99, 0x1b, 0x78, 0x52, 0xb8, 0x55]"
proof -
  have len: "length empty_block = 64" by (simp add: empty_block_def)
  then have "blocks empty_block = [empty_block]" using blocks_cons [of empty_block "[]"] by simp
    moreover have "fips_compress H_init empty_block = [0xe3b0c442, 0x98fc1c14, 0x9afbf4c8, 0x996fb924, 0x27ae41e4,
     0x649b934c, 0xa495991b, 0x7852b855]"
    using empty_state len by (simp only: transform_state_fips)
  ultimately show ?thesis
    by (simp add: SHA256_hash_fips fips_sha256_def empty_padded digest_out_def upt_0_8)
qed

end
