(* ===== verification/Codec_Properties.thy ===== *)
theory Codec_Properties
  imports Endian CRC32 SHA256_Vectors
begin

text \<open>
  The properties of the helpers that both file formats rest on: the little-endian codecs and the
  two checksums.
\<close>

section \<open>Little-endian integers\<close>

text \<open>Reading what was put at the end of a buffer gives the value back, for both widths, whatever
  stands before it and after it, and putting what was read from four or eight bytes gives the bytes back.\<close>

theorem endian_round_trip:
  "getLE32 (drop (length buf) (putLE32 buf v @ rest)) = v \<and>
   getLE64 (drop (length buf) (putLE64 buf x @ rest)) = x \<and>
   putLE32 [] (getLE32 [a0, a1, a2, a3]) = [a0, a1, a2, a3] \<and>
   putLE64 [] (getLE64 [a0, a1, a2, a3, a4, a5, a6, a7]) = [a0, a1, a2, a3, a4, a5, a6, a7]"
proof -
  have "getLE32 (drop (length buf) (putLE32 buf v @ rest)) = v"
    using le32.dec_at [of buf] putLE32_append [of buf v] by simp
  moreover have "getLE64 (drop (length buf) (putLE64 buf x @ rest)) = x"
    using le64.dec_at [of buf] putLE64_append [of buf x] by simp
  ultimately show ?thesis by (simp add: le32.enc_dec le64.enc_dec)
qed

section \<open>CRC-32\<close>

text \<open>C40. The table-driven checksum of the code is the CRC-32 of IEEE 802.3 of every byte string, defined by a shift register
  and the exponents of the standard's generator polynomial, and it has the published check value for the digits 1 to 9.\<close>

theorem crc32_is_ieee:
  "CRC32_calculate data = ieee_crc32 data \<and>
   CRC32_calculate [0x31, 0x32, 0x33, 0x34, 0x35, 0x36, 0x37, 0x38, 0x39] = 0xCBF43926"
  by (simp only: CRC32_calculate_is_bitwise [of data] crc_bitwise_is_ieee crc_check_value simp_thms)

section \<open>SHA-256\<close>

text \<open>C39. However a message is cut into pieces and fed to \<open>update\<close>, empty pieces included, \<open>digest\<close> returns the
  SHA-256 of FIPS 180-4 of the whole message, 32 bytes long.\<close>

theorem sha256_incremental:
  "SHA256_digest (foldl SHA256_update SHA256_init parts) = fips_sha256 (concat parts) \<and>
   SHA256_hash (concat parts) = fips_sha256 (concat parts) \<and> length (SHA256_hash (concat parts)) = 32"
  by (simp add: SHA256_incremental_is_fips SHA256_hash_fips)

text \<open>The model of the code returns the published digest of the message "abc".\<close>

theorem sha256_known_answer:
  "SHA256_hash [0x61, 0x62, 0x63] =
    [0xba, 0x78, 0x16, 0xbf, 0x8f, 0x01, 0xcf, 0xea, 0x41, 0x41, 0x40, 0xde, 0x5d, 0xae, 0x22, 0x23,
     0xb0, 0x03, 0x61, 0xa3, 0x96, 0x17, 0x7a, 0x9c, 0xb4, 0x10, 0xff, 0x61, 0xf2, 0x00, 0x15, 0xad]"
  by (rule abc_digest)

end
