(* ===== verification/Posix.thy ===== *)
theory Posix
  imports Prelude
begin

text \<open>
  The system calls the store makes, as a small model of a POSIX file system: names, inodes, open
  file descriptions with an offset, and for every inode both its current contents (\<open>cached\<close>) and
  the contents known to be on stable storage (\<open>stable\<close>); likewise for the directory's names.

  What the environment does is data: \<open>xfers\<close> lists the outcomes of the next \<open>read\<close> and \<open>write\<close>
  calls (a full or short transfer, \<open>EINTR\<close>, an error), \<open>ctls\<close> those of all other calls; where a list
  has run out the call succeeds in full. The lists are finite, so a signal does not interrupt
  transfers for ever. A crash is an outcome too: from then on the system is \<open>dead\<close>, no call has any
  effect, and the files stay as the crash left them. So a statement about all outcome lists covers
  every failure and every crash point between and inside the calls.
\<close>

section \<open>State\<close>

type_synonym path = string

datatype xfer = Full | Short nat | Intr | IoError | XferCrash

datatype ctl = Succeed | Refuse | CtlCrash

record inode =
  cached :: bytes
  stable :: bytes

record open_file =
  f_ino :: nat
  f_off :: nat
  f_append :: bool

record os =
  inodes :: "nat \<Rightarrow> inode"
  names :: "path \<Rightarrow> nat option"
  stable_names :: "path \<Rightarrow> nat option"
  fds :: "int \<Rightarrow> open_file option"
  next_ino :: nat
  next_fd :: int
  xfers :: "xfer list"
  ctls :: "ctl list"
  dead :: bool

text \<open>The result of a transfer: a byte count, \<open>-1\<close> with \<open>errno = EINTR\<close>, or \<open>-1\<close> otherwise.\<close>

datatype rc = Rc nat | Eintr | Err

definition next_xfer :: "os \<Rightarrow> xfer \<times> os" where
  "next_xfer s =
    (if dead s then (IoError, s)
     else case xfers s of
       [] \<Rightarrow> (Full, s)
     | x # xs \<Rightarrow> (if x = XferCrash then (IoError, s\<lparr>xfers := xs, dead := True\<rparr>) else (x, s\<lparr>xfers := xs\<rparr>)))"

definition next_ctl :: "os \<Rightarrow> bool \<times> os" where
  "next_ctl s =
    (if dead s then (False, s)
     else case ctls s of
       [] \<Rightarrow> (True, s)
     | c # cs \<Rightarrow> (if c = CtlCrash then (False, s\<lparr>ctls := cs, dead := True\<rparr>) else (c = Succeed, s\<lparr>ctls := cs\<rparr>)))"

section \<open>Calls\<close>

definition fcontent :: "os \<Rightarrow> int \<Rightarrow> bytes" where
  "fcontent s fd = (case fds s fd of None \<Rightarrow> [] | Some f \<Rightarrow> cached (inodes s (f_ino f)))"

definition fstable :: "os \<Rightarrow> int \<Rightarrow> bytes" where
  "fstable s fd = (case fds s fd of None \<Rightarrow> [] | Some f \<Rightarrow> stable (inodes s (f_ino f)))"

definition foffset :: "os \<Rightarrow> int \<Rightarrow> nat" where
  "foffset s fd = (case fds s fd of None \<Rightarrow> 0 | Some f \<Rightarrow> f_off f)"

definition set_content :: "os \<Rightarrow> nat \<Rightarrow> bytes \<Rightarrow> os" where
  "set_content s i c = s\<lparr>inodes := (inodes s)(i := (inodes s i)\<lparr>cached := c\<rparr>)\<rparr>"

definition set_offset :: "os \<Rightarrow> int \<Rightarrow> open_file \<Rightarrow> nat \<Rightarrow> os" where
  "set_offset s fd f n = s\<lparr>fds := (fds s)(fd \<mapsto> f\<lparr>f_off := n\<rparr>)\<rparr>"

text \<open>Bytes written at an offset; a gap past the end reads as zeros.\<close>

definition write_at :: "bytes \<Rightarrow> nat \<Rightarrow> bytes \<Rightarrow> bytes" where
  "write_at c n bs = take n (c @ replicate (n - length c) 0) @ bs @ drop (n + length bs) c"

definition do_write :: "os \<Rightarrow> int \<Rightarrow> open_file \<Rightarrow> bytes \<Rightarrow> rc \<times> os" where
  "do_write s fd f bs =
    (let c = cached (inodes s (f_ino f));
         n = (if f_append f then length c else f_off f)
     in (Rc (length bs), set_offset (set_content s (f_ino f) (write_at c n bs)) fd f (n + length bs)))"

definition sys_write :: "int \<Rightarrow> bytes \<Rightarrow> os \<Rightarrow> rc \<times> os" where
  "sys_write fd bs s0 =
    (case next_xfer s0 of (x, s) \<Rightarrow>
      case fds s fd of
        None \<Rightarrow> (Err, s)
      | Some f \<Rightarrow>
          (case x of
            Full \<Rightarrow> do_write s fd f bs
          | Short n \<Rightarrow> do_write s fd f (take n bs)
          | Intr \<Rightarrow> (Eintr, s)
          | IoError \<Rightarrow> (Err, s)
          | XferCrash \<Rightarrow> (Err, s)))"

definition do_read :: "os \<Rightarrow> int \<Rightarrow> open_file \<Rightarrow> nat \<Rightarrow> rc \<times> bytes \<times> os" where
  "do_read s fd f n =
    (let bs = take n (drop (f_off f) (cached (inodes s (f_ino f))))
     in (Rc (length bs), bs, set_offset s fd f (f_off f + length bs)))"

definition sys_read :: "int \<Rightarrow> nat \<Rightarrow> os \<Rightarrow> rc \<times> bytes \<times> os" where
  "sys_read fd n s0 =
    (case next_xfer s0 of (x, s) \<Rightarrow>
      case fds s fd of
        None \<Rightarrow> (Err, [], s)
      | Some f \<Rightarrow>
          (case x of
            Full \<Rightarrow> do_read s fd f n
          | Short k \<Rightarrow> do_read s fd f (min k n)
          | Intr \<Rightarrow> (Eintr, [], s)
          | IoError \<Rightarrow> (Err, [], s)
          | XferCrash \<Rightarrow> (Err, [], s)))"

definition sys_fsync :: "int \<Rightarrow> os \<Rightarrow> bool \<times> os" where
  "sys_fsync fd s0 =
    (case next_ctl s0 of (ok, s) \<Rightarrow>
      case fds s fd of
        Some f \<Rightarrow>
          if ok
          then (True, s\<lparr>inodes := (inodes s)(f_ino f := (inodes s (f_ino f))\<lparr>stable := cached (inodes s (f_ino f))\<rparr>)\<rparr>)
          else (False, s)
      | None \<Rightarrow> (False, s))"

definition sys_ftruncate :: "int \<Rightarrow> nat \<Rightarrow> os \<Rightarrow> bool \<times> os" where
  "sys_ftruncate fd n s0 =
    (case next_ctl s0 of (ok, s) \<Rightarrow>
      case fds s fd of
        Some f \<Rightarrow>
          if ok
          then (let c = cached (inodes s (f_ino f)) in (True, set_content s (f_ino f) (take n (c @ replicate (n - length c) 0))))
          else (False, s)
      | None \<Rightarrow> (False, s))"

datatype whence = SEEK_SET nat | SEEK_CUR | SEEK_END

definition sys_lseek :: "int \<Rightarrow> whence \<Rightarrow> os \<Rightarrow> nat option \<times> os" where
  "sys_lseek fd w s0 =
    (case next_ctl s0 of (ok, s) \<Rightarrow>
      case fds s fd of
        Some f \<Rightarrow>
          if ok
          then (let n = (case w of SEEK_SET k \<Rightarrow> k | SEEK_CUR \<Rightarrow> f_off f | SEEK_END \<Rightarrow> length (cached (inodes s (f_ino f))))
                in (Some n, set_offset s fd f n))
          else (None, s)
      | None \<Rightarrow> (None, s))"

definition sys_fstat_size :: "int \<Rightarrow> os \<Rightarrow> nat option \<times> os" where
  "sys_fstat_size fd s0 =
    (case next_ctl s0 of (ok, s) \<Rightarrow>
      if ok \<and> fds s fd \<noteq> None then (Some (length (fcontent s fd)), s) else (None, s))"

definition sys_close :: "int \<Rightarrow> os \<Rightarrow> bool \<times> os" where
  "sys_close fd s0 = (case next_ctl s0 of (ok, s) \<Rightarrow> (ok, if dead s then s else s\<lparr>fds := (fds s)(fd := None)\<rparr>))"

text \<open>\<open>open\<close> with \<open>O_CREAT\<close>: an existing name keeps its inode, a new one gets a fresh, empty inode.\<close>

definition fresh_inode :: "path \<Rightarrow> os \<Rightarrow> os" where
  "fresh_inode p s = s\<lparr>inodes := (inodes s)(next_ino s := \<lparr>cached = [], stable = []\<rparr>),
     names := (names s)(p \<mapsto> next_ino s), next_ino := next_ino s + 1\<rparr>"

definition new_fd :: "nat \<Rightarrow> bool \<Rightarrow> os \<Rightarrow> int \<times> os" where
  "new_fd i app s = (next_fd s, s\<lparr>fds := (fds s)(next_fd s \<mapsto> \<lparr>f_ino = i, f_off = 0, f_append = app\<rparr>),
     next_fd := next_fd s + 1\<rparr>)"

definition sys_open_creat :: "path \<Rightarrow> bool \<Rightarrow> bool \<Rightarrow> os \<Rightarrow> int \<times> os" where
  "sys_open_creat p app trunc s0 =
    (case next_ctl s0 of (ok, s) \<Rightarrow>
      if \<not> ok then (-1, s)
      else case names s p of
        None \<Rightarrow> new_fd (next_ino s) app (fresh_inode p s)
      | Some i \<Rightarrow> new_fd i app (if trunc then set_content s i [] else s))"

text \<open>
  \<open>std::filesystem::rename\<close>, and \<open>open\<close>, \<open>fsync\<close>, \<open>close\<close> on the parent directory: the names of that
  directory become stable.
\<close>

definition sys_rename :: "path \<Rightarrow> path \<Rightarrow> os \<Rightarrow> bool \<times> os" where
  "sys_rename a b s0 =
    (case next_ctl s0 of (ok, s) \<Rightarrow>
      case names s a of
        Some i \<Rightarrow> if ok then (True, s\<lparr>names := (names s)(a := None, b \<mapsto> i)\<rparr>) else (False, s)
      | None \<Rightarrow> (False, s))"

definition sys_open_dir :: "path \<Rightarrow> os \<Rightarrow> bool \<times> os" where
  "sys_open_dir d s0 = next_ctl s0"

definition parent_dir :: "path \<Rightarrow> path" where
  "parent_dir p = (let d = rev (dropWhile (\<lambda>c. c = CHR ''/'') (dropWhile (\<lambda>c. c \<noteq> CHR ''/'') (rev p))) in if d = [] then ''/'' else d)"

definition has_parent :: "path \<Rightarrow> bool" where
  "has_parent p \<longleftrightarrow> CHR ''/'' \<in> set p"

definition dir_of :: "path \<Rightarrow> path" where
  "dir_of p = (if has_parent p then parent_dir p else ''.'')"

definition sys_fsync_dir :: "path \<Rightarrow> os \<Rightarrow> bool \<times> os" where
  "sys_fsync_dir d s0 =
    (case next_ctl s0 of (ok, s) \<Rightarrow>
      if ok then (True, s\<lparr>stable_names := (\<lambda>p. if dir_of p = d then names s p else stable_names s p)\<rparr>) else (False, s))"

definition sys_close_dir :: "os \<Rightarrow> os" where
  "sys_close_dir s0 = snd (next_ctl s0)"

text \<open>\<open>open\<close> for reading of an existing file.\<close>

definition sys_open_read :: "path \<Rightarrow> os \<Rightarrow> int \<times> os" where
  "sys_open_read p s0 =
    (case next_ctl s0 of (ok, s) \<Rightarrow>
      case names s p of
        None \<Rightarrow> (-1, s)
      | Some i \<Rightarrow> if ok then new_fd i False s else (-1, s))"

section \<open>Environments\<close>

text \<open>
  An environment is \<open>kind\<close> when no call fails: transfers may still be short or interrupted.
\<close>

fun kind_xfer :: "xfer \<Rightarrow> bool" where
  "kind_xfer Full = True"
| "kind_xfer (Short n) = (0 < n)"
| "kind_xfer Intr = True"
| "kind_xfer IoError = False"
| "kind_xfer XferCrash = False"

definition kind :: "os \<Rightarrow> bool" where
  "kind s \<longleftrightarrow> \<not> dead s \<and> list_all kind_xfer (xfers s) \<and> list_all (\<lambda>c. c = Succeed) (ctls s)"

section \<open>What a call on one descriptor can change\<close>

text \<open>
  \<open>only_file fd s s'\<close>: between \<open>s\<close> and \<open>s'\<close> only the descriptor \<open>fd\<close>'s offset, the contents of its
  inode and the environment's future have changed.
\<close>

definition only_file :: "int \<Rightarrow> os \<Rightarrow> os \<Rightarrow> bool" where
  "only_file fd s s' \<longleftrightarrow>
     names s' = names s \<and> stable_names s' = stable_names s \<and> next_ino s' = next_ino s \<and> next_fd s' = next_fd s \<and>
     (\<forall>g. g \<noteq> fd \<longrightarrow> fds s' g = fds s g) \<and>
     (case fds s fd of
        None \<Rightarrow> fds s' fd = None \<and> inodes s' = inodes s
      | Some f \<Rightarrow> (\<exists>n. fds s' fd = Some (f\<lparr>f_off := n\<rparr>)) \<and> (\<forall>i. i \<noteq> f_ino f \<longrightarrow> inodes s' i = inodes s i))"

definition appending :: "os \<Rightarrow> int \<Rightarrow> bool" where
  "appending s fd \<longleftrightarrow> (\<exists>f. fds s fd = Some f \<and> f_append f)"

lemma f_off_self [simp]: "\<exists>n. f = (f :: open_file)\<lparr>f_off := n\<rparr>"
  by (rule exI [of _ "f_off f"]) simp

text \<open>A descriptor whose next write goes to the end of its file.\<close>

definition at_end :: "os \<Rightarrow> int \<Rightarrow> bool" where
  "at_end s fd \<longleftrightarrow> (\<exists>f. fds s fd = Some f \<and> (f_append f \<or> f_off f = length (cached (inodes s (f_ino f)))))"

lemma appending_at_end: "appending s fd \<Longrightarrow> at_end s fd"
  by (auto simp: appending_def at_end_def)

lemma only_file_refl [simp]: "only_file fd s s"
  by (auto simp: only_file_def split: option.splits)

lemma only_file_trans:
  assumes "only_file fd s t" and "only_file fd t u"
  shows "only_file fd s u"
proof (cases "fds s fd")
  case None
  with assms show ?thesis by (simp add: only_file_def)
next
  case (Some f)
  with assms(1) obtain n where "fds t fd = Some (f\<lparr>f_off := n\<rparr>)" by (auto simp: only_file_def)
  with assms Some show ?thesis by (simp add: only_file_def)
qed

lemma only_file_fds: "only_file fd s t \<Longrightarrow> fds s fd \<noteq> None \<longleftrightarrow> fds t fd \<noteq> None"
  by (cases "fds s fd") (auto simp: only_file_def)

lemma only_file_appending: "only_file fd s s' \<Longrightarrow> appending s' fd \<longleftrightarrow> appending s fd"
  unfolding only_file_def appending_def
  by (cases "fds s fd") auto

lemma only_file_env:
  "only_file fd s (t\<lparr>xfers := a\<rparr>) \<longleftrightarrow> only_file fd s t" "only_file fd s (t\<lparr>ctls := b\<rparr>) \<longleftrightarrow> only_file fd s t"
  "only_file fd s (t\<lparr>dead := d\<rparr>) \<longleftrightarrow> only_file fd s t"
  by (simp_all add: only_file_def cong: option.case_cong)

lemma only_file_set_offset:
  "only_file fd s t \<Longrightarrow> fds t fd = Some f \<Longrightarrow> only_file fd s (set_offset t fd f n)"
  unfolding only_file_def set_offset_def
  by (cases "fds s fd") auto

lemma only_file_set_content:
  "only_file fd s t \<Longrightarrow> fds t fd = Some f \<Longrightarrow> only_file fd s (set_content t (f_ino f) c)"
  unfolding only_file_def set_content_def
  by (cases "fds s fd") auto

lemma only_file_stable:
  "only_file fd s t \<Longrightarrow> fds t fd = Some f \<Longrightarrow> only_file fd s (t\<lparr>inodes := (inodes t)(f_ino f := x)\<rparr>)"
  unfolding only_file_def
  by (cases "fds s fd") auto

lemmas only_file_intros = only_file_env [THEN iffD2] only_file_set_offset only_file_set_content only_file_stable

section \<open>The environment's outcomes\<close>

definition same_files :: "os \<Rightarrow> os \<Rightarrow> bool" where
  "same_files s t \<longleftrightarrow> names t = names s \<and> stable_names t = stable_names s \<and> inodes t = inodes s \<and>
     fds t = fds s \<and> next_ino t = next_ino s \<and> next_fd t = next_fd s"

lemma same_files_refl [simp]: "same_files s s"
  by (simp add: same_files_def)

lemma same_files_trans: "same_files s t \<Longrightarrow> same_files t u \<Longrightarrow> same_files s u"
  by (simp add: same_files_def)

lemma same_files_simps:
  assumes "same_files s t"
  shows "names t = names s" "stable_names t = stable_names s" "inodes t = inodes s" "fds t = fds s"
    "next_ino t = next_ino s" "next_fd t = next_fd s" "fcontent t fd = fcontent s fd"
    "fstable t fd = fstable s fd" "foffset t fd = foffset s fd" "appending t fd = appending s fd"
proof -
  from assms show e: "names t = names s" "stable_names t = stable_names s" "inodes t = inodes s" "fds t = fds s"
    "next_ino t = next_ino s" "next_fd t = next_fd s"
    unfolding same_files_def by blast+
  show "fcontent t fd = fcontent s fd" "fstable t fd = fstable s fd" "foffset t fd = foffset s fd"
    "appending t fd = appending s fd"
    unfolding fcontent_def fstable_def foffset_def appending_def e by (rule refl)+
qed

lemma same_files_only_file: "same_files s t \<Longrightarrow> only_file fd s t"
  by (auto simp: same_files_def only_file_def split: option.splits)

lemma next_xfer_same: "next_xfer s = (x, t) \<Longrightarrow> same_files s t \<and> length (xfers t) \<le> length (xfers s) \<and> ctls t = ctls s"
  by (auto simp: next_xfer_def same_files_def split: list.splits if_splits)

lemma next_ctl_same: "next_ctl s = (ok, t) \<Longrightarrow> same_files s t \<and> xfers t = xfers s"
  by (auto simp: next_ctl_def same_files_def split: list.splits if_splits)

lemma next_xfer_Intr: "next_xfer s = (Intr, t) \<Longrightarrow> length (xfers t) < length (xfers s)"
  by (auto simp: next_xfer_def split: list.splits if_splits)

lemma next_xfer_kind: "next_xfer s = (x, t) \<Longrightarrow> kind s \<Longrightarrow> kind_xfer x \<and> kind t"
  by (auto simp: next_xfer_def kind_def split: list.splits if_splits)

lemma next_ctl_kind: "next_ctl s = (ok, t) \<Longrightarrow> kind s \<Longrightarrow> ok \<and> kind t"
  by (auto simp: next_ctl_def kind_def split: list.splits if_splits)

lemma dead_stays: "next_xfer s = (x, t) \<Longrightarrow> dead s \<Longrightarrow> dead t" "next_ctl s = (ok, t) \<Longrightarrow> dead s \<Longrightarrow> dead t"
  by (auto simp: next_xfer_def next_ctl_def)

lemma kind_simps [simp]:
  "kind (set_offset s fd f n) = kind s" "kind (set_content s i c) = kind s"
  "kind (s\<lparr>inodes := x\<rparr>) = kind s" "kind (s\<lparr>names := y\<rparr>) = kind s" "kind (s\<lparr>stable_names := y\<rparr>) = kind s"
  "kind (s\<lparr>fds := z\<rparr>) = kind s"
  by (simp_all add: kind_def set_offset_def set_content_def)

section \<open>One call\<close>

lemma write_at_end: "write_at c (length c) bs = c @ bs"
  by (simp add: write_at_def)

text \<open>Any environment: a write on an appending descriptor adds a prefix of its bytes, or nothing.\<close>

lemma sys_write_any:
  assumes "sys_write fd bs s = (r, t)" and "at_end s fd"
  shows "only_file fd s t \<and> fstable t fd = fstable s fd \<and>
    (case r of
       Rc n \<Rightarrow> at_end t fd \<and> n \<le> length bs \<and> fcontent t fd = fcontent s fd @ take n bs \<and> length (xfers t) \<le> length (xfers s)
     | Eintr \<Rightarrow> at_end t fd \<and> fcontent t fd = fcontent s fd \<and> length (xfers t) < length (xfers s)
     | Err \<Rightarrow> fcontent t fd = fcontent s fd)"
proof -
  obtain x u where n: "next_xfer s = (x, u)" by fastforce
  from next_xfer_same [OF n] have same: "same_files s u" "length (xfers u) \<le> length (xfers s)" by simp_all
  note eqs = same_files_simps [OF same(1)]
  from assms(2) obtain f where f: "fds s fd = Some f" "f_append f \<or> f_off f = length (cached (inodes s (f_ino f)))"
    by (auto simp: at_end_def)
  have fu: "fds u fd = Some f" using f eqs by simp
  have w: "at_end t' fd \<and> only_file fd s t' \<and> fstable t' fd = fstable s fd \<and> fcontent t' fd = fcontent s fd @ bs' \<and>
      length (xfers t') \<le> length (xfers s) \<and> r' = Rc (length bs')"
    if "do_write u fd f bs' = (r', t')" for bs' r' t'
  proof -
    let ?c = "cached (inodes u (f_ino f))"
    have t': "t' = set_offset (set_content u (f_ino f) (?c @ bs')) fd f (length ?c + length bs')"
      and r': "r' = Rc (length bs')"
      using that f eqs by (auto simp: do_write_def Let_def write_at_end)
    have "only_file fd s (set_content u (f_ino f) (?c @ bs'))"
      using same_files_only_file [OF same(1)] fu by (rule only_file_set_content)
    then have "only_file fd s t'"
      unfolding t' by (rule only_file_set_offset) (simp add: set_content_def fu)
    with t' r' same f eqs show ?thesis
      by (simp add: at_end_def fstable_def fcontent_def set_offset_def set_content_def)
  qed
  show ?thesis
  proof (cases x)
    case Full
    with assms(1) n fu have "do_write u fd f bs = (r, t)" by (simp add: sys_write_def)
    from w [OF this] show ?thesis by simp
  next
    case (Short k)
    with assms(1) n fu have "do_write u fd f (take k bs) = (r, t)" by (simp add: sys_write_def)
    from w [OF this] show ?thesis by (simp add: min_def)
  next
    case Intr
    with assms(1) n fu same eqs f show ?thesis
      by (auto simp: sys_write_def same_files_only_file at_end_def dest: next_xfer_Intr)
  qed (use assms(1) n fu same eqs in \<open>auto simp: sys_write_def same_files_only_file\<close>)
qed

lemma sys_write_kind:
  assumes "sys_write fd bs s = (r, t)" and "at_end s fd" and "kind s"
  shows "kind t \<and> r \<noteq> Err \<and> (bs \<noteq> [] \<longrightarrow> r \<noteq> Rc 0)"
proof -
  obtain x u where n: "next_xfer s = (x, u)" by fastforce
  from assms(2) obtain f where f: "fds u fd = Some f"
    using next_xfer_same [OF n] same_files_simps(4) [of s u] by (auto simp: at_end_def)
  from next_xfer_kind [OF n assms(3)] assms(1) n f show ?thesis
    by (cases x) (auto simp: sys_write_def do_write_def Let_def min_def split: if_splits)
qed

text \<open>Reads: at most the bytes asked for, from the current offset, and the offset moves past them.\<close>

lemma sys_read_any:
  assumes "sys_read fd n s = (r, bs, t)"
  shows "only_file fd s t \<and> fstable t fd = fstable s fd \<and> fcontent t fd = fcontent s fd \<and>
    (case r of
       Rc k \<Rightarrow> k \<le> n \<and> bs = take k (drop (foffset s fd) (fcontent s fd)) \<and> length bs = k \<and>
         foffset t fd = foffset s fd + k \<and> length (xfers t) \<le> length (xfers s)
     | Eintr \<Rightarrow> foffset t fd = foffset s fd \<and> length (xfers t) < length (xfers s)
     | Err \<Rightarrow> foffset t fd = foffset s fd)"
proof -
  obtain x u where nx: "next_xfer s = (x, u)" by fastforce
  from next_xfer_same [OF nx] have same: "same_files s u" "length (xfers u) \<le> length (xfers s)" by simp_all
  note eqs = same_files_simps [OF same(1)]
  show ?thesis
  proof (cases "fds u fd")
    case None
    with assms nx same eqs show ?thesis by (auto simp: sys_read_def same_files_only_file)
  next
    case (Some f)
    have w: "only_file fd s t' \<and> fstable t' fd = fstable s fd \<and> fcontent t' fd = fcontent s fd \<and>
        length (xfers t') \<le> length (xfers s) \<and> r' = Rc (length bs') \<and> length bs' \<le> k \<and>
        bs' = take k (drop (foffset s fd) (fcontent s fd)) \<and> foffset t' fd = foffset s fd + length bs'"
      if "do_read u fd f k = (r', bs', t')" for k r' bs' t'
    proof -
      have "only_file fd s (set_offset u fd f m)" for m
        using same_files_only_file [OF same(1)] Some by (rule only_file_set_offset)
      with that Some eqs same show ?thesis
        by (auto simp: do_read_def Let_def fstable_def fcontent_def foffset_def set_offset_def)
    qed
    show ?thesis
    proof (cases x)
      case Full
      with assms nx Some have "do_read u fd f n = (r, bs, t)" by (simp add: sys_read_def)
      from w [OF this] show ?thesis by (auto simp: min_def)
    next
      case (Short k)
      with assms nx Some have "do_read u fd f (min k n) = (r, bs, t)" by (simp add: sys_read_def)
      from w [OF this] show ?thesis by (auto simp: min_def)
    next
      case Intr
      with assms nx Some same eqs show ?thesis
        by (auto simp: sys_read_def same_files_only_file dest: next_xfer_Intr)
    qed (use assms nx Some same eqs in \<open>auto simp: sys_read_def same_files_only_file\<close>)
  qed
qed

lemma sys_read_kind:
  assumes "sys_read fd n s = (r, bs, t)" and "fds s fd \<noteq> None" and "kind s"
  shows "kind t \<and> r \<noteq> Err \<and> (0 < n \<and> foffset s fd < length (fcontent s fd) \<longrightarrow> r \<noteq> Rc 0)"
proof -
  obtain x u where nx: "next_xfer s = (x, u)" by fastforce
  from next_xfer_same [OF nx] have "same_files s u" by simp
  note eqs = same_files_simps [OF this]
  from assms(2) eqs obtain f where f: "fds u fd = Some f" by auto
  from next_xfer_kind [OF nx assms(3)] assms(1) nx f eqs show ?thesis
    by (cases x) (auto simp: sys_read_def do_read_def Let_def fcontent_def foffset_def)
qed

text \<open>The control calls, in any environment and in a kind one.\<close>

lemma only_file_inode:
  "same_files s u \<Longrightarrow> fds u fd = Some f \<Longrightarrow> only_file fd s (u\<lparr>inodes := (inodes u)(f_ino f := x)\<rparr>)"
  by (auto intro: only_file_stable same_files_only_file)

lemma sys_fsync_any:
  assumes "sys_fsync fd s = (ok, t)"
  shows "only_file fd s t \<and> fcontent t fd = fcontent s fd \<and> foffset t fd = foffset s fd \<and>
    fstable t fd = (if ok then fcontent s fd else fstable s fd) \<and> (kind s \<and> fds s fd \<noteq> None \<longrightarrow> ok \<and> kind t)"
proof -
  obtain b u where n: "next_ctl s = (b, u)" by fastforce
  from next_ctl_same [OF n] have same: "same_files s u" by simp
  note eqs = same_files_simps [OF same] and k = next_ctl_kind [OF n]
  show ?thesis
  proof (cases "b \<and> fds u fd \<noteq> None")
    case True
    then obtain f where f: "fds u fd = Some f" by blast
    have t: "t = u\<lparr>inodes := (inodes u)(f_ino f := (inodes u (f_ino f))\<lparr>stable := cached (inodes u (f_ino f))\<rparr>)\<rparr>" and ok
      using assms n f True by (auto simp: sys_fsync_def)
    with only_file_inode [OF same f] f k eqs show ?thesis
      unfolding t by (auto simp: fcontent_def fstable_def foffset_def)
  next
    case False
    with assms n have "t = u" and "\<not> ok" by (auto simp: sys_fsync_def split: option.splits if_splits)
    with False k eqs same show ?thesis by (auto simp: same_files_only_file)
  qed
qed

lemma sys_ftruncate_any:
  assumes "sys_ftruncate fd n s = (ok, t)"
  shows "only_file fd s t \<and> fstable t fd = fstable s fd \<and> foffset t fd = foffset s fd \<and>
    fcontent t fd = (if ok then take n (fcontent s fd @ replicate (n - length (fcontent s fd)) 0) else fcontent s fd) \<and>
    (kind s \<and> fds s fd \<noteq> None \<longrightarrow> ok \<and> kind t)"
proof -
  obtain b u where nx: "next_ctl s = (b, u)" by fastforce
  from next_ctl_same [OF nx] have same: "same_files s u" by simp
  note eqs = same_files_simps [OF same] and k = next_ctl_kind [OF nx]
  show ?thesis
  proof (cases "b \<and> fds u fd \<noteq> None")
    case True
    then obtain f where f: "fds u fd = Some f" by blast
    let ?c = "cached (inodes u (f_ino f))"
    have t: "t = set_content u (f_ino f) (take n (?c @ replicate (n - length ?c) 0))" and ok
      using assms nx f True by (auto simp: sys_ftruncate_def Let_def)
    with only_file_inode [OF same f] f k eqs show ?thesis
      unfolding t set_content_def by (auto simp: fcontent_def fstable_def foffset_def)
  next
    case False
    with assms nx have "t = u" and "\<not> ok" by (auto simp: sys_ftruncate_def Let_def split: option.splits if_splits)
    with False k eqs same show ?thesis by (auto simp: same_files_only_file)
  qed
qed

lemma sys_lseek_any:
  assumes "sys_lseek fd w s = (p, t)"
  shows "only_file fd s t \<and> fstable t fd = fstable s fd \<and> fcontent t fd = fcontent s fd \<and>
    (case p of None \<Rightarrow> foffset t fd = foffset s fd
     | Some n \<Rightarrow> foffset t fd = n \<and>
         n = (case w of SEEK_SET k \<Rightarrow> k | SEEK_CUR \<Rightarrow> foffset s fd | SEEK_END \<Rightarrow> length (fcontent s fd))) \<and>
    (kind s \<and> fds s fd \<noteq> None \<longrightarrow> p \<noteq> None \<and> kind t)"
proof -
  obtain b u where nx: "next_ctl s = (b, u)" by fastforce
  from next_ctl_same [OF nx] have same: "same_files s u" by simp
  note eqs = same_files_simps [OF same] and k = next_ctl_kind [OF nx]
  show ?thesis
  proof (cases "b \<and> fds u fd \<noteq> None")
    case True
    then obtain f where f: "fds u fd = Some f" by blast
    let ?n = "case w of SEEK_SET k \<Rightarrow> k | SEEK_CUR \<Rightarrow> f_off f | SEEK_END \<Rightarrow> length (cached (inodes u (f_ino f)))"
    have t: "t = set_offset u fd f ?n" and p: "p = Some ?n"
      using assms nx f True by (auto simp: sys_lseek_def Let_def)
    have "only_file fd s (set_offset u fd f ?n)"
      using same_files_only_file [OF same] f by (rule only_file_set_offset)
    moreover have "?n = (case w of SEEK_SET k \<Rightarrow> k | SEEK_CUR \<Rightarrow> foffset s fd | SEEK_END \<Rightarrow> length (fcontent s fd))"
      using f eqs by (cases w) (simp_all add: fcontent_def foffset_def)
    ultimately show ?thesis
      using f k eqs unfolding t p by (auto simp: fcontent_def fstable_def foffset_def set_offset_def)
  next
    case False
    with assms nx have "t = u" and "p = None" by (auto simp: sys_lseek_def Let_def split: option.splits if_splits)
    with False k eqs same show ?thesis by (auto simp: same_files_only_file)
  qed
qed

lemma sys_fstat_size_any:
  assumes "sys_fstat_size fd s = (n, t)"
  shows "same_files s t \<and> (n = None \<or> n = Some (length (fcontent s fd))) \<and>
    (kind s \<and> fds s fd \<noteq> None \<longrightarrow> n \<noteq> None \<and> kind t)"
proof -
  obtain b u where nx: "next_ctl s = (b, u)" by fastforce
  from next_ctl_same [OF nx] have same: "same_files s u" by simp
  from next_ctl_kind [OF nx] assms nx same_files_simps [OF same] same show ?thesis
    by (auto simp: sys_fstat_size_def split: if_splits)
qed

section \<open>Files by name\<close>

definition file_of :: "os \<Rightarrow> path \<Rightarrow> bytes option" where
  "file_of s p = map_option (\<lambda>i. cached (inodes s i)) (names s p)"

definition stable_file_of :: "os \<Rightarrow> path \<Rightarrow> bytes option" where
  "stable_file_of s p = map_option (\<lambda>i. stable (inodes s i)) (stable_names s p)"

text \<open>Descriptors and inode numbers are handed out in order.\<close>

definition os_wf :: "os \<Rightarrow> bool" where
  "os_wf s \<longleftrightarrow> 0 \<le> next_fd s \<and> (\<forall>fd f. fds s fd = Some f \<longrightarrow> 0 \<le> fd \<and> fd < next_fd s \<and> f_ino f < next_ino s) \<and>
     (\<forall>p i. names s p = Some i \<longrightarrow> i < next_ino s)"

lemma os_wf_fd: "os_wf s \<Longrightarrow> fds s fd = Some f \<Longrightarrow> 0 \<le> fd \<and> fd < next_fd s \<and> f_ino f < next_ino s"
  by (simp add: os_wf_def)

lemma os_wf_name: "os_wf s \<Longrightarrow> names s p = Some i \<Longrightarrow> i < next_ino s"
  by (simp add: os_wf_def)

lemma same_files_wf: "same_files s t \<Longrightarrow> os_wf t = os_wf s"
  unfolding os_wf_def by (simp add: same_files_simps)

lemma same_files_file_of: "same_files s t \<Longrightarrow> file_of t p = file_of s p"
  unfolding file_of_def by (simp add: same_files_simps)

lemma only_file_wf:
  assumes "only_file fd s t" and "os_wf s"
  shows "os_wf t"
proof (cases "fds s fd")
  case None
  with assms(1) have "fds t g = fds s g" for g by (cases "g = fd") (simp_all add: only_file_def)
  then have "fds t = fds s" ..
  with assms None show ?thesis by (simp add: os_wf_def only_file_def)
next
  case (Some f)
  with assms(1) obtain n where n: "fds t fd = Some (f\<lparr>f_off := n\<rparr>)" and e: "next_fd t = next_fd s"
      "next_ino t = next_ino s" "names t = names s" "\<And>g. g \<noteq> fd \<Longrightarrow> fds t g = fds s g"
    by (auto simp: only_file_def)
  have "0 \<le> g \<and> g < next_fd t \<and> f_ino h < next_ino t" if "fds t g = Some h" for g h
    using that n e os_wf_fd [OF assms(2), of g] os_wf_fd [OF assms(2) Some] by (cases "g = fd") auto
  moreover have "0 \<le> next_fd t" "names t p = Some i \<Longrightarrow> i < next_ino t" for p i
    using assms(2) e by (simp_all add: os_wf_def)
  ultimately show ?thesis unfolding os_wf_def by blast
qed

text \<open>A file under another inode keeps its contents.\<close>

lemma only_file_inodes: "only_file fd s t \<Longrightarrow> fds s fd = Some f \<Longrightarrow> i \<noteq> f_ino f \<Longrightarrow> inodes t i = inodes s i"
  by (simp add: only_file_def)

lemma only_file_ino: "only_file fd s t \<Longrightarrow> fds s fd = Some f \<Longrightarrow> \<exists>n. fds t fd = Some (f\<lparr>f_off := n\<rparr>)"
  by (simp add: only_file_def)

lemma sys_open_creat_any:
  assumes o: "sys_open_creat p app tr s = (fd, t)" and wf: "os_wf s"
  shows "os_wf t \<and> (kind s \<longrightarrow> kind t \<and> fd \<noteq> -1) \<and>
    (fd = -1 \<and> same_files s t \<or>
     fd \<noteq> -1 \<and> fds s fd = None \<and> (\<exists>i. (names s p = Some i \<or> names s p = None \<and> i = next_ino s) \<and>
       fds t fd = Some \<lparr>f_ino = i, f_off = 0, f_append = app\<rparr> \<and> names t = (names s)(p \<mapsto> i) \<and>
       stable_names t = stable_names s \<and> (\<forall>j. j \<noteq> i \<longrightarrow> inodes t j = inodes s j) \<and> (\<forall>g. g \<noteq> fd \<longrightarrow> fds t g = fds s g) \<and>
       (names s p = None \<longrightarrow> stable (inodes t i) = []) \<and> (names s p \<noteq> None \<longrightarrow> stable (inodes t i) = stable (inodes s i)) \<and>
       cached (inodes t i) = (if tr then [] else case file_of s p of None \<Rightarrow> [] | Some c \<Rightarrow> c)))"
proof -
  obtain b u where nx: "next_ctl s = (b, u)" by fastforce
  from next_ctl_same [OF nx] have same: "same_files s u" by simp
  note eqs = same_files_simps [OF same] and k = next_ctl_kind [OF nx]
  have nfd: "fds s (next_fd s) = None"
    using wf unfolding os_wf_def by (metis less_irrefl not_None_eq)
  have nn: "next_fd s \<noteq> -1" using wf by (auto simp: os_wf_def)
  show ?thesis
  proof (cases b)
    case False
    with o nx have "fd = -1" "t = u" by (simp_all add: sys_open_creat_def)
    with same same_files_wf [OF same] wf k False show ?thesis by auto
  next
    case True
    show ?thesis
    proof (cases "names s p")
      case None
      have *: "fd = next_fd s" "t = snd (new_fd (next_ino s) app (fresh_inode p u))"
        using o nx True None eqs by (auto simp: sys_open_creat_def new_fd_def fresh_inode_def)
      have "0 \<le> next_fd s" using wf by (simp add: os_wf_def)
      then have "os_wf t" using eqs unfolding * os_wf_def [of "snd _"]
        by (auto simp: new_fd_def fresh_inode_def less_Suc_eq dest: os_wf_fd [OF wf] os_wf_name [OF wf])
      moreover have "kind s \<longrightarrow> kind t" using k unfolding * by (auto simp: new_fd_def fresh_inode_def kind_def)
      ultimately show ?thesis using None nfd nn eqs
        unfolding * by (auto simp: new_fd_def fresh_inode_def file_of_def)
    next
      case (Some i)
      have *: "fd = next_fd s" "t = snd (new_fd i app (if tr then set_content u i [] else u))"
        using o nx True Some eqs by (auto simp: sys_open_creat_def new_fd_def set_content_def)
      have "0 \<le> next_fd s" using wf by (simp add: os_wf_def)
      then have "os_wf t" using eqs Some unfolding * os_wf_def [of "snd _"]
        by (auto simp: new_fd_def set_content_def dest: os_wf_fd [OF wf] os_wf_name [OF wf])
      moreover have "kind s \<longrightarrow> kind t" using k unfolding * by (auto simp: new_fd_def set_content_def kind_def)
      ultimately show ?thesis using Some nfd nn eqs
        unfolding * by (auto simp: new_fd_def set_content_def file_of_def)
    qed
  qed
qed

lemma sys_close_any:
  assumes "sys_close fd s = (ok, t)"
  shows "names t = names s \<and> stable_names t = stable_names s \<and> inodes t = inodes s \<and>
    (\<forall>g. g \<noteq> fd \<longrightarrow> fds t g = fds s g) \<and> (os_wf s \<longrightarrow> os_wf t) \<and> (kind s \<longrightarrow> ok \<and> kind t)"
proof -
  obtain b u where nx: "next_ctl s = (b, u)" by fastforce
  from next_ctl_same [OF nx] have same: "same_files s u" by simp
  with assms nx next_ctl_kind [OF nx] same_files_simps(1-6) [OF same] show ?thesis
    unfolding os_wf_def by (auto simp: sys_close_def split: if_splits)
qed

lemma sys_open_read_any:
  assumes o: "sys_open_read p s = (fd, t)" and wf: "os_wf s"
  shows "os_wf t \<and> (kind s \<longrightarrow> kind t \<and> (names s p \<noteq> None \<longrightarrow> fd \<noteq> -1)) \<and>
    (fd = -1 \<and> same_files s t \<or>
     fd \<noteq> -1 \<and> fds s fd = None \<and> names t = names s \<and> stable_names t = stable_names s \<and> inodes t = inodes s \<and>
       next_ino t = next_ino s \<and> fds t fd \<noteq> None \<and> (\<forall>g. g \<noteq> fd \<longrightarrow> fds t g = fds s g) \<and> foffset t fd = 0 \<and>
       file_of s p = Some (fcontent t fd))"
proof -
  obtain b u where nx: "next_ctl s = (b, u)" by fastforce
  from next_ctl_same [OF nx] have same: "same_files s u" by simp
  note eqs = same_files_simps [OF same] and k = next_ctl_kind [OF nx]
  have nfd: "fds s (next_fd s) = None" and nn: "next_fd s \<noteq> -1" and "0 \<le> next_fd s"
    using wf unfolding os_wf_def by (metis less_irrefl not_None_eq, auto)
  show ?thesis
  proof (cases "b \<and> names s p \<noteq> None")
    case False
    with o nx eqs have "fd = -1" "t = u" by (auto simp: sys_open_read_def split: option.splits if_splits)
    with same same_files_wf [OF same] wf k False show ?thesis by auto
  next
    case True
    then obtain i where i: "names s p = Some i" by auto
    have *: "fd = next_fd s" "t = snd (new_fd i False u)"
      using o nx True i eqs by (auto simp: sys_open_read_def new_fd_def)
    have "os_wf t" using eqs i \<open>0 \<le> next_fd s\<close> unfolding * os_wf_def [of "snd _"]
      by (auto simp: new_fd_def dest: os_wf_fd [OF wf] os_wf_name [OF wf])
    moreover have "kind s \<longrightarrow> kind t" using k unfolding * by (auto simp: new_fd_def kind_def)
    ultimately show ?thesis using i nfd nn eqs
      unfolding * by (auto simp: new_fd_def file_of_def fcontent_def foffset_def)
  qed
qed

lemma sys_read_inodes: "sys_read fd n s = (r, bs, t) \<Longrightarrow> inodes t = inodes s"
  using next_xfer_same [of s "fst (next_xfer s)" "snd (next_xfer s)"]
  by (auto simp: sys_read_def do_read_def Let_def set_offset_def same_files_def split: prod.splits option.splits xfer.splits)

lemma sys_close_next_ino: "sys_close fd s = (ok, t) \<Longrightarrow> next_ino t = next_ino s"
  using next_ctl_same [of s "fst (next_ctl s)" "snd (next_ctl s)"]
  by (auto simp: sys_close_def same_files_def split: prod.splits if_splits)

end
