(* ===== verification/ExactIO.thy ===== *)
theory ExactIO
  imports Posix
begin

text \<open>
  The transfer loops \<open>writeExact\<close> and \<open>readExact\<close> of \<^verbatim>\<open>src/WAL.cpp\<close> (\<^verbatim>\<open>src/Snapshot.cpp\<close> has a copy
  of the first). They retry on \<open>EINTR\<close>, continue after a short transfer, and give up on an error or
  an empty transfer. Each loop terminates because every retry uses up an outcome of the environment
  and every other iteration makes progress.
\<close>

lemma sys_write_progress:
  assumes "sys_write fd bs s = (r, t)"
  shows "(case r of Rc n \<Rightarrow> n \<le> length bs \<and> length (xfers t) \<le> length (xfers s)
          | Eintr \<Rightarrow> length (xfers t) < length (xfers s) | Err \<Rightarrow> True)"
proof -
  obtain x u where n: "next_xfer s = (x, u)" by fastforce
  from next_xfer_same [OF n] assms n show ?thesis
    by (cases x) (auto simp: sys_write_def do_write_def Let_def set_offset_def set_content_def
        dest: next_xfer_Intr split: option.splits)
qed

function writeExact_loop :: "int \<Rightarrow> bytes \<Rightarrow> nat \<Rightarrow> os \<Rightarrow> bool \<times> os" where
  "writeExact_loop fd data written s =
    (if written < length data
     then (case sys_write fd (drop written data) s of (r, t) \<Rightarrow>
       (case r of
          Eintr \<Rightarrow> writeExact_loop fd data written t
        | Err \<Rightarrow> (False, t)
        | Rc n \<Rightarrow> if n = 0 then (False, t) else writeExact_loop fd data (written + n) t))
     else (True, s))"
  by pat_completeness auto
termination
  by (relation "measure (\<lambda>(fd, data, written, s). (length data - written) + length (xfers s))")
    (auto dest!: sys_write_progress [OF sym])

declare writeExact_loop.simps [simp del]

definition writeExact :: "int \<Rightarrow> bytes \<Rightarrow> os \<Rightarrow> bool \<times> os" where
  "writeExact fd data s = writeExact_loop fd data 0 s"

text \<open>\<open>acc\<close> is the part of the caller's buffer filled so far.\<close>

function readExact_loop :: "int \<Rightarrow> nat \<Rightarrow> bytes \<Rightarrow> os \<Rightarrow> bool \<times> bytes \<times> os" where
  "readExact_loop fd sz acc s =
    (if length acc < sz
     then (case sys_read fd (sz - length acc) s of (r, bs, t) \<Rightarrow>
       (case r of
          Eintr \<Rightarrow> readExact_loop fd sz acc t
        | Err \<Rightarrow> (False, acc, t)
        | Rc n \<Rightarrow> if n = 0 then (False, acc, t) else readExact_loop fd sz (acc @ bs) t))
     else (True, acc, s))"
  by pat_completeness auto
termination
  by (relation "measure (\<lambda>(fd, sz, acc, s). (sz - length acc) + length (xfers s))")
    (auto dest!: sys_read_any [OF sym])

declare readExact_loop.simps [simp del]

definition readExact :: "int \<Rightarrow> nat \<Rightarrow> os \<Rightarrow> bool \<times> bytes \<times> os" where
  "readExact fd sz s = readExact_loop fd sz [] s"

section \<open>Laws\<close>

lemma writeExact_loop_any:
  assumes "writeExact_loop fd data written s = (ok, t)" and "at_end s fd" and "written \<le> length data"
  shows "only_file fd s t \<and> fstable t fd = fstable s fd \<and>
    (\<exists>k \<le> length data - written. fcontent t fd = fcontent s fd @ take k (drop written data) \<and>
       (ok \<longrightarrow> k = length data - written \<and> at_end t fd))"
  using assms
proof (induction fd data written s arbitrary: ok t rule: writeExact_loop.induct)
  case (1 fd data written s)
  show ?case
  proof (cases "written < length data")
    case False
    with "1.prems" show ?thesis by (auto simp: writeExact_loop.simps [of fd data written s])
  next
    case True
    obtain r u where w: "sys_write fd (drop written data) s = (r, u)" by fastforce
    note step = sys_write_any [OF w "1.prems"(2)]
    show ?thesis
    proof (cases r)
      case Err
      with "1.prems"(1) True w have "t = u" "\<not> ok" by (auto simp: writeExact_loop.simps [of fd data written s])
      with step Err show ?thesis by (auto intro: exI [of _ 0])
    next
      case Eintr
      with "1.prems"(1) True w have "writeExact_loop fd data written u = (ok, t)"
        by (auto simp: writeExact_loop.simps [of fd data written s])
      from "1.IH"(2) [OF True w [symmetric] Eintr this _ "1.prems"(3)] step Eintr
      show ?thesis by (auto intro: only_file_trans)
    next
      case (Rc n)
      show ?thesis
      proof (cases "n = 0")
        case z: True
        with Rc "1.prems"(1) True w have "t = u" "\<not> ok"
          by (auto simp: writeExact_loop.simps [of fd data written s])
        with step Rc z show ?thesis by (auto intro: exI [of _ 0])
      next
        case nz: False
        with Rc "1.prems"(1) True w have rec: "writeExact_loop fd data (written + n) u = (ok, t)"
          by (auto simp: writeExact_loop.simps [of fd data written s])
        have le: "written + n \<le> length data" and ae: "at_end u fd" using step Rc True by auto
        from "1.IH"(1) [OF True w [symmetric] Rc nz rec ae le]
        obtain k where k: "k \<le> length data - (written + n)"
            "fcontent t fd = fcontent u fd @ take k (drop (written + n) data)"
            "ok \<longrightarrow> k = length data - (written + n) \<and> at_end t fd"
          and o: "only_file fd u t" "fstable t fd = fstable u fd" by blast
        have "take n (drop written data) @ take k (drop (written + n) data) = take (n + k) (drop written data)"
          by (simp only: take_add drop_drop add.commute [of written n])
        with step Rc k have "fcontent t fd = fcontent s fd @ take (n + k) (drop written data)" by simp
        with k le step Rc o show ?thesis
          by (auto intro!: exI [of _ "n + k"] intro: only_file_trans)
      qed
    qed
  qed
qed

theorem writeExact_any:
  assumes "writeExact fd data s = (ok, t)" and "at_end s fd"
  shows "only_file fd s t \<and> fstable t fd = fstable s fd \<and>
    (\<exists>k \<le> length data. fcontent t fd = fcontent s fd @ take k data \<and> (ok \<longrightarrow> k = length data \<and> at_end t fd))"
  using writeExact_loop_any [of fd data 0 s ok t] assms by (simp add: writeExact_def)

lemma writeExact_loop_kind:
  "writeExact_loop fd data written s = (ok, t) \<Longrightarrow> at_end s fd \<Longrightarrow> kind s \<Longrightarrow> ok \<and> kind t"
proof (induction fd data written s arbitrary: ok t rule: writeExact_loop.induct)
  case (1 fd data written s)
  show ?case
  proof (cases "written < length data")
    case False
    with "1.prems" show ?thesis by (auto simp: writeExact_loop.simps [of fd data written s])
  next
    case True
    obtain r u where w: "sys_write fd (drop written data) s = (r, u)" by fastforce
    note step = sys_write_any [OF w "1.prems"(2)] sys_write_kind [OF w "1.prems"(2,3)]
    with True have nz: "r \<noteq> Err" "r \<noteq> Rc 0" "kind u" by auto
    with "1.prems"(1) True w "1.IH"(2) [OF True w [symmetric]] "1.IH"(1) [OF True w [symmetric]] step
    show ?thesis
      by (cases r) (auto simp: writeExact_loop.simps [of fd data written s])
  qed
qed

theorem writeExact_kind:
  assumes "writeExact fd data s = (ok, t)" and "at_end s fd" and "kind s"
  shows "ok \<and> kind t \<and> only_file fd s t \<and> fstable t fd = fstable s fd \<and>
    fcontent t fd = fcontent s fd @ data \<and> at_end t fd"
  using writeExact_loop_kind [of fd data 0 s ok t] writeExact_any [OF assms(1,2)] assms
  by (auto simp: writeExact_def)

lemma readExact_loop_any:
  assumes "readExact_loop fd sz acc s = (ok, bs, t)" and "length acc \<le> sz"
  shows "only_file fd s t \<and> fstable t fd = fstable s fd \<and> fcontent t fd = fcontent s fd \<and>
    (ok \<longrightarrow> (\<exists>d. bs = acc @ d \<and> length d = sz - length acc \<and>
        d = take (sz - length acc) (drop (foffset s fd) (fcontent s fd))) \<and>
      foffset t fd = foffset s fd + (sz - length acc)) \<and> foffset s fd \<le> foffset t fd"
  using assms
proof (induction fd sz acc s arbitrary: ok bs t rule: readExact_loop.induct)
  case (1 fd sz acc s)
  show ?case
  proof (cases "length acc < sz")
    case False
    with "1.prems" show ?thesis by (auto simp: readExact_loop.simps [of fd sz acc s])
  next
    case True
    obtain r b u where w: "sys_read fd (sz - length acc) s = (r, b, u)" by (metis prod_cases3)
    note step = sys_read_any [OF w]
    show ?thesis
    proof (cases r)
      case Err
      with "1.prems"(1) True w step show ?thesis by (auto simp: readExact_loop.simps [of fd sz acc s])
    next
      case Eintr
      with "1.prems"(1) True w have "readExact_loop fd sz acc u = (ok, bs, t)"
        by (auto simp: readExact_loop.simps [of fd sz acc s])
      from "1.IH"(2) [OF True w [symmetric] refl Eintr this "1.prems"(2)] step Eintr
      show ?thesis by (auto intro: only_file_trans)
    next
      case (Rc n)
      show ?thesis
      proof (cases "n = 0")
        case z: True
        with Rc "1.prems"(1) True w step show ?thesis
          by (auto simp: readExact_loop.simps [of fd sz acc s])
      next
        case nz: False
        with Rc "1.prems"(1) True w have rec: "readExact_loop fd sz (acc @ b) u = (ok, bs, t)"
          by (auto simp: readExact_loop.simps [of fd sz acc s])
        have b: "length b = n" "n \<le> sz - length acc" "b = take n (drop (foffset s fd) (fcontent s fd))"
          using step Rc by auto
        then have le: "length (acc @ b) \<le> sz" using True by simp
        note ih = "1.IH"(1) [OF True w [symmetric] refl Rc nz rec le]
        show ?thesis
        proof (cases ok)
          case False
          with ih step Rc show ?thesis by (auto intro: only_file_trans)
        next
          case ok: True
          with ih obtain d where d: "bs = (acc @ b) @ d" "length d = sz - length (acc @ b)"
              "d = take (sz - length (acc @ b)) (drop (foffset u fd) (fcontent u fd))"
            by blast
          have "sz - length acc = n + (sz - length (acc @ b))" using b True by simp
          then have "b @ d = take (sz - length acc) (drop (foffset s fd) (fcontent s fd))"
            using d(3) b(3) step Rc by (simp only: take_add drop_drop add.commute rc.case)
          moreover have "length (b @ d) = sz - length acc" using d(2) b by simp
          moreover have "bs = acc @ (b @ d)" using d(1) by simp
          ultimately have "\<exists>d. bs = acc @ d \<and> length d = sz - length acc \<and>
              d = take (sz - length acc) (drop (foffset s fd) (fcontent s fd))"
            by blast
          moreover have "foffset t fd = foffset s fd + (sz - length acc)"
            using ih ok step Rc b True by simp
          ultimately show ?thesis using ih step Rc by (auto intro: only_file_trans)
        qed
      qed
    qed
  qed
qed

theorem readExact_any:
  assumes "readExact fd sz s = (ok, bs, t)"
  shows "only_file fd s t \<and> fstable t fd = fstable s fd \<and> fcontent t fd = fcontent s fd \<and>
    (ok \<longrightarrow> length bs = sz \<and> bs = take sz (drop (foffset s fd) (fcontent s fd)) \<and>
      foffset t fd = foffset s fd + sz)"
  using readExact_loop_any [OF assms [unfolded readExact_def]] by (metis append_Nil diff_zero le0 list.size(3))

lemma readExact_loop_kind:
  "readExact_loop fd sz acc s = (ok, bs, t) \<Longrightarrow> fds s fd \<noteq> None \<Longrightarrow> kind s \<Longrightarrow>
    foffset s fd + (sz - length acc) \<le> length (fcontent s fd) \<Longrightarrow> ok \<and> kind t"
proof (induction fd sz acc s arbitrary: ok bs t rule: readExact_loop.induct)
  case (1 fd sz acc s)
  show ?case
  proof (cases "length acc < sz")
    case False
    with "1.prems" show ?thesis by (auto simp: readExact_loop.simps [of fd sz acc s])
  next
    case True
    obtain r b u where w: "sys_read fd (sz - length acc) s = (r, b, u)" by (metis prod_cases3)
    note step = sys_read_any [OF w] sys_read_kind [OF w "1.prems"(2,3)]
    then have open_u: "fds u fd \<noteq> None" using "1.prems"(2) by (auto simp: only_file_def)
    from step True "1.prems"(4) have nz: "r \<noteq> Err" "r \<noteq> Rc 0" "kind u" by auto
    show ?thesis
    proof (cases r)
      case Err
      with nz show ?thesis by simp
    next
      case Eintr
      with "1.prems"(1) True w have "readExact_loop fd sz acc u = (ok, bs, t)"
        by (auto simp: readExact_loop.simps [of fd sz acc s])
      with "1.IH"(2) [OF True w [symmetric] refl Eintr this open_u nz(3)] step Eintr "1.prems"(4)
      show ?thesis by simp
    next
      case (Rc n)
      with nz have n: "n \<noteq> 0" by auto
      with Rc "1.prems"(1) True w have rec: "readExact_loop fd sz (acc @ b) u = (ok, bs, t)"
        by (auto simp: readExact_loop.simps [of fd sz acc s])
      have "length b = n" "n \<le> sz - length acc" "foffset u fd = foffset s fd + n" "fcontent u fd = fcontent s fd"
        using step Rc by auto
      then have "foffset u fd + (sz - length (acc @ b)) \<le> length (fcontent u fd)"
        using "1.prems"(4) True by simp
      with "1.IH"(1) [OF True w [symmetric] refl Rc n rec open_u nz(3)]
      show ?thesis by blast
    qed
  qed
qed

text \<open>
  In a kind environment the loop succeeds exactly when the bytes are there; a failing read leaves
  the environment kind as well.
\<close>

lemma readExact_loop_kind_kept:
  "readExact_loop fd sz acc s = (ok, bs, t) \<Longrightarrow> fds s fd \<noteq> None \<Longrightarrow> kind s \<Longrightarrow> kind t"
proof (induction fd sz acc s arbitrary: ok bs t rule: readExact_loop.induct)
  case (1 fd sz acc s)
  show ?case
  proof (cases "length acc < sz")
    case False
    with "1.prems" show ?thesis by (auto simp: readExact_loop.simps [of fd sz acc s])
  next
    case True
    obtain r b u where w: "sys_read fd (sz - length acc) s = (r, b, u)" by (metis prod_cases3)
    note step = sys_read_any [OF w] sys_read_kind [OF w "1.prems"(2,3)]
    then have open_u: "fds u fd \<noteq> None" "kind u" using "1.prems"(2) by (auto simp: only_file_def)
    with "1.prems"(1) True w "1.IH"(2) [OF True w [symmetric] refl] "1.IH"(1) [OF True w [symmetric] refl]
    show ?thesis
      by (cases r) (auto simp: readExact_loop.simps [of fd sz acc s] split: if_splits)
  qed
qed

theorem readExact_kind:
  assumes "readExact fd sz s = (ok, bs, t)" and "fds s fd \<noteq> None" and "kind s" and "0 < sz"
  shows "kind t \<and> (ok \<longleftrightarrow> foffset s fd + sz \<le> length (fcontent s fd))"
proof -
  have "kind t"
    using assms readExact_loop_kind_kept [of fd sz "[]" s ok bs t] by (simp add: readExact_def)
  moreover have "foffset s fd + sz \<le> length (fcontent s fd)" if ok
  proof -
    from that readExact_any [OF assms(1)] have "length (take sz (drop (foffset s fd) (fcontent s fd))) = sz" by metis
    with assms(4) show ?thesis by (auto simp: min_def split: if_splits)
  qed
  moreover have "ok" if "foffset s fd + sz \<le> length (fcontent s fd)"
    using that assms readExact_loop_kind [of fd sz "[]" s ok bs t] by (simp add: readExact_def)
  ultimately show ?thesis by blast
qed

section \<open>Reading a whole stream\<close>

text \<open>
  A \<open>std::ifstream\<close> opened in binary mode and consumed to its end: the stream buffer reads block by
  block, retries on \<open>EINTR\<close>, and ends the stream at end of file or at an error. \<open>None\<close> when the open
  fails.
\<close>

definition stream_block :: nat where
  "stream_block = 8191"

function slurp :: "int \<Rightarrow> bytes \<Rightarrow> os \<Rightarrow> bytes \<times> os" where
  "slurp fd acc s =
    (case sys_read fd stream_block s of (r, bs, t) \<Rightarrow>
      (case r of
         Eintr \<Rightarrow> slurp fd acc t
       | Err \<Rightarrow> (acc, t)
       | Rc n \<Rightarrow> if n = 0 then (acc, t) else slurp fd (acc @ bs) t))"
  by pat_completeness auto
termination
proof (relation "measure (\<lambda>(fd, acc, s). (length (fcontent s fd) - foffset s fd) + length (xfers s))")
  fix fd and acc :: bytes and s r bs t n and x :: "bytes \<times> os"
  assume a: "(r, x) = sys_read fd stream_block s" "(bs, t) = x" "r = Rc n" "n \<noteq> 0"
  then have "sys_read fd stream_block s = (Rc n, bs, t)" by simp
  note st = sys_read_any [OF this]
  then have "length bs = n" "bs = take n (drop (foffset s fd) (fcontent s fd))" unfolding rc.case by blast+
  with a(4) have "foffset s fd < length (fcontent s fd)" by auto
  with st a(4) show "((fd, acc @ bs, t), (fd, acc, s)) \<in> measure (\<lambda>(fd, acc, s). (length (fcontent s fd) - foffset s fd) + length (xfers s))"
    by auto
qed (auto dest!: sys_read_any [OF sym])

declare slurp.simps [simp del]

definition ifstream_read :: "path \<Rightarrow> os \<Rightarrow> bytes option \<times> os" where
  "ifstream_read p s =
    (case sys_open_read p s of (fd, s1) \<Rightarrow>
      if fd = -1 then (None, s1)
      else case slurp fd [] s1 of (bs, s2) \<Rightarrow> (Some bs, snd (sys_close fd s2)))"

lemma slurp_any:
  "slurp fd acc s = (out, t) \<Longrightarrow>
    only_file fd s t \<and> inodes t = inodes s \<and>
    (\<exists>k. out = acc @ take k (drop (foffset s fd) (fcontent s fd))) \<and>
    (kind s \<and> fds s fd \<noteq> None \<longrightarrow> kind t \<and> out = acc @ drop (foffset s fd) (fcontent s fd))"
proof (induction fd acc s arbitrary: out t rule: slurp.induct)
  case (1 fd acc s)
  obtain r bs u where rd: "sys_read fd stream_block s = (r, bs, u)" by (metis prod_cases3)
  note st = sys_read_any [OF rd] and kd = sys_read_kind [OF rd]
  have in_u: "inodes u = inodes s" by (rule sys_read_inodes [OF rd])
  have op: "fds u fd \<noteq> None \<longleftrightarrow> fds s fd \<noteq> None" using st only_file_fds by blast
  show ?case
  proof (cases r)
    case Err
    with "1.prems" rd have "out = acc" "t = u" by (simp_all add: slurp.simps [of fd acc s])
    with Err st kd in_u show ?thesis by (auto intro: exI [of _ 0])
  next
    case Eintr
    with "1.prems" rd have "slurp fd acc u = (out, t)" by (simp add: slurp.simps [of fd acc s])
    from "1.IH"(2) [OF rd [symmetric] refl Eintr this] Eintr st kd in_u op show ?thesis
      by (auto intro: only_file_trans)
  next
    case (Rc n)
    show ?thesis
    proof (cases "n = 0")
      case True
      with Rc "1.prems" rd have "out = acc" "t = u" by (simp_all add: slurp.simps [of fd acc s])
      moreover have "length (fcontent s fd) \<le> foffset s fd" if "kind s" "fds s fd \<noteq> None"
        using kd [OF that(2,1)] Rc True by (simp add: stream_block_def)
      ultimately show ?thesis using Rc True st kd in_u by (auto intro: exI [of _ 0])
    next
      case False
      with Rc "1.prems" rd have "slurp fd (acc @ bs) u = (out, t)" by (simp add: slurp.simps [of fd acc s])
      note ih = "1.IH"(1) [OF rd [symmetric] refl Rc False this]
      let ?d = "drop (foffset s fd) (fcontent s fd)"
      have b: "bs = take n ?d" and o: "foffset u fd = foffset s fd + n" "fcontent u fd = fcontent s fd"
        using st Rc by auto
      from ih obtain k where "out = acc @ bs @ take k (drop n ?d)" by (auto simp: o add.commute)
      then have "out = acc @ take (n + k) ?d" unfolding b by (simp add: take_add)
      moreover have "out = acc @ ?d" if "kind s" "fds s fd \<noteq> None"
        using ih kd [OF that(2,1)] op that by (auto simp: o b add.commute drop_drop [symmetric] simp del: drop_drop)
      ultimately show ?thesis using ih st kd in_u op by (auto intro: only_file_trans)
    qed
  qed
qed

text \<open>Reading changes nothing but the environment; in a kind one the whole file is read.\<close>

lemma ifstream_read_any:
  assumes rd: "ifstream_read p s = (res, t)" and wf: "os_wf s"
  shows "os_wf t \<and> names t = names s \<and> stable_names t = stable_names s \<and> inodes t = inodes s \<and> next_ino t = next_ino s \<and>
    (\<forall>g. fds s g \<noteq> None \<longrightarrow> fds t g = fds s g) \<and>
    (case res of None \<Rightarrow> True | Some bs \<Rightarrow> \<exists>c k. file_of s p = Some c \<and> bs = take k c) \<and>
    (kind s \<longrightarrow> kind t \<and> res = file_of s p)"
proof -
  obtain fd s1 where o: "sys_open_read p s = (fd, s1)" by fastforce
  note op = sys_open_read_any [OF o wf]
  show ?thesis
  proof (cases "fd = -1")
    case True
    with rd o have "res = None" "t = s1" by (simp_all add: ifstream_read_def)
    with True op same_files_simps(1-5) [of s s1] show ?thesis by (auto simp: file_of_def)
  next
    case False
    obtain bs s2 where sl: "slurp fd [] s1 = (bs, s2)" by fastforce
    obtain x s3 where cl: "sys_close fd s2 = (x, s3)" by fastforce
    note a = slurp_any [OF sl] and c = sys_close_any [OF cl]
    have r: "res = Some bs" "t = s3" using rd o sl cl False by (simp_all add: ifstream_read_def)
    have w: "os_wf s2" using only_file_wf a op by blast
    have n: "names s2 = names s" "stable_names s2 = stable_names s" "next_ino s2 = next_ino s"
      using a op False by (auto simp: only_file_def)
    have "next_ino s3 = next_ino s2" by (rule sys_close_next_ino [OF cl])
    moreover have "fds s3 g = fds s g" if "fds s g \<noteq> None" for g
    proof -
      have "g \<noteq> fd" using that op False by auto
      with c a op False show ?thesis by (simp add: only_file_def)
    qed
    ultimately show ?thesis using r w n a c op False by auto
  qed
qed

end
