(* ===== verification/WAL.thy ===== *)
theory WAL
  imports ExactIO Endian CRC32 SHA256
begin

text \<open>
  \<^verbatim>\<open>include/persistence/WAL.hpp\<close> and \<^verbatim>\<open>src/WAL.cpp\<close>: the hash-chained write-ahead log. The object's
  fields are the record \<open>WAL\<close>; a method takes the object and the operating system and returns both
  updated. A throwing method returns \<open>Inl\<close> of the exception next to the state it leaves behind.
  The mutex makes every method atomic, so a method is one step here.

  \<open>walk_entry\<close> is one iteration of \<open>walkChain\<close>'s loop up to the point where the entry has verified,
  \<open>walk_loop\<close> the loop with the visitor call and the \<open>lseek\<close>, \<open>walkChain\<close> the whole method. The
  visitor is a state transformer; \<open>None\<close> is the empty \<open>std::function\<close>. Positions are integers
  because \<open>lseek\<close> can leave \<open>-1\<close> in \<open>current_pos\<close>. Messages on \<open>std::cerr\<close> are not modelled.
\<close>

section \<open>Data\<close>

text \<open>
  \<open>RecordType\<close> has a fixed underlying type, so a cast of any byte is a value of it; bytes without
  an enumerator are \<open>Unnamed\<close>.
\<close>

datatype RecordType = PUT | DELETE | Unnamed byte

definition type_byte :: "RecordType \<Rightarrow> byte" where
  "type_byte t = (case t of PUT \<Rightarrow> 1 | DELETE \<Rightarrow> 2 | Unnamed b \<Rightarrow> b)"

definition as_RecordType :: "byte \<Rightarrow> RecordType" where
  "as_RecordType b = (if b = 1 then PUT else if b = 2 then DELETE else Unnamed b)"

datatype RecoveryStatus = Ok | TruncatedTail | Malformed | Tampered

record RecoveryResult =
  status :: RecoveryStatus
  entriesVerified :: u64
  tamperOffset :: u64
  tamperSeq :: u64
  headHash :: Sha256Digest

record Checkpoint =
  cp_seq :: u64
  cp_head :: Sha256Digest

definition zero_hash :: Sha256Digest where
  "zero_hash = replicate 32 0"

definition RecoveryResult_default :: RecoveryResult where
  "RecoveryResult_default =
    \<lparr>status = Ok, entriesVerified = 0, tamperOffset = 0, tamperSeq = 0, headHash = zero_hash\<rparr>"

record WAL =
  m_path :: path
  m_fd :: int
  m_epoch :: u64
  m_seq :: u64
  m_headHash :: Sha256Digest
  m_syncEveryN :: nat
  m_pendingWrites :: nat

datatype exn = runtime_error string | length_error string

text \<open>\<open>std::to_string\<close> of an unsigned integer.\<close>

fun to_string :: "nat \<Rightarrow> string" where
  "to_string n = (if n < 10 then [char_of (48 + n)] else to_string (n div 10) @ [char_of (48 + n mod 10)])"

declare to_string.simps [simp del]

section \<open>Layout\<close>

definition WAL_MAGIC :: u32 where "WAL_MAGIC = 0x314C5357"
definition WAL_VERSION :: u32 where "WAL_VERSION = 2"
definition kHeaderSize :: nat where "kHeaderSize = 16"
definition kMaxFieldSize :: nat where "kMaxFieldSize = 2 ^ 20"
definition HDR_OFF_MAGIC :: nat where "HDR_OFF_MAGIC = 0"
definition HDR_OFF_VERSION :: nat where "HDR_OFF_VERSION = HDR_OFF_MAGIC + 4"
definition HDR_OFF_FLAGS :: nat where "HDR_OFF_FLAGS = HDR_OFF_VERSION + 4"
definition OFF_SEQ :: nat where "OFF_SEQ = 0"
definition OFF_TS_LOW :: nat where "OFF_TS_LOW = OFF_SEQ + 8"
definition OFF_TS_HIGH :: nat where "OFF_TS_HIGH = OFF_TS_LOW + 4"
definition OFF_EPOCH :: nat where "OFF_EPOCH = OFF_TS_HIGH + 4"
definition OFF_KEY_LEN :: nat where "OFF_KEY_LEN = OFF_EPOCH + 8"
definition OFF_VALUE_LEN :: nat where "OFF_VALUE_LEN = OFF_KEY_LEN + 4"
definition OFF_TYPE :: nat where "OFF_TYPE = OFF_VALUE_LEN + 4"
definition ENTRY_FIXED_SIZE :: nat where "ENTRY_FIXED_SIZE = OFF_TYPE + 1"
definition HASH_SIZE :: nat where "HASH_SIZE = 32"

lemmas layout_values [layout] = kHeaderSize_def HDR_OFF_MAGIC_def HDR_OFF_VERSION_def HDR_OFF_FLAGS_def
  OFF_SEQ_def OFF_TS_LOW_def OFF_TS_HIGH_def OFF_EPOCH_def OFF_KEY_LEN_def OFF_VALUE_LEN_def OFF_TYPE_def
  ENTRY_FIXED_SIZE_def HASH_SIZE_def

section \<open>Opening and closing\<close>

definition WAL_writeHeader :: "WAL \<Rightarrow> os \<Rightarrow> bool \<times> os" where
  "WAL_writeHeader w s =
    (let header = putLE64 (putLE32 (putLE32 [] WAL_MAGIC) WAL_VERSION) 0
     in case writeExact (m_fd w) header s of (ok, s1) \<Rightarrow>
       if \<not> ok then (False, s1) else sys_fsync (m_fd w) s1)"

definition WAL_validateHeader :: "WAL \<Rightarrow> os \<Rightarrow> bool \<times> os" where
  "WAL_validateHeader w s =
    (case sys_lseek (m_fd w) (SEEK_SET 0) s of (p, s1) \<Rightarrow>
      if p = None then (False, s1)
      else case readExact (m_fd w) kHeaderSize s1 of (ok, header, s2) \<Rightarrow>
        if \<not> ok then (False, s2)
        else if getLE32 (drop HDR_OFF_MAGIC header) \<noteq> WAL_MAGIC then (False, s2)
        else if getLE32 (drop HDR_OFF_VERSION header) \<noteq> WAL_VERSION then (False, s2)
        else (True, s2))"

definition WAL_open :: "path \<Rightarrow> nat \<Rightarrow> os \<Rightarrow> (exn + WAL) \<times> os" where
  "WAL_open path syncEveryN s =
    (case sys_open_creat path True False s of (fd, s1) \<Rightarrow>
      let w = \<lparr>m_path = path, m_fd = fd, m_epoch = 0, m_seq = 0, m_headHash = zero_hash,
               m_syncEveryN = (if syncEveryN < 1 then 1 else syncEveryN), m_pendingWrites = 0\<rparr>
      in if fd = -1 then (Inl (runtime_error (''Failed to open WAL file: '' @ path)), s1)
         else case sys_fstat_size fd s1 of (st_size, s2) \<Rightarrow>
           case st_size of
             None \<Rightarrow> (Inl (runtime_error (''Failed to stat WAL file: '' @ path)), snd (sys_close fd s2))
           | Some n \<Rightarrow>
               if n = 0
               then (case WAL_writeHeader w s2 of (ok, s3) \<Rightarrow>
                 if \<not> ok then (Inl (runtime_error (''Failed to write WAL header: '' @ path)), snd (sys_close fd s3))
                 else (Inr w, s3))
               else (case WAL_validateHeader w s2 of (ok, s3) \<Rightarrow>
                 if \<not> ok then (Inl (runtime_error (''Invalid or corrupt WAL header: '' @ path)), snd (sys_close fd s3))
                 else (Inr w, s3)))"

definition WAL_setEpoch :: "u64 \<Rightarrow> WAL \<Rightarrow> WAL" where
  "WAL_setEpoch epoch w = w\<lparr>m_epoch := epoch\<rparr>"

definition WAL_head :: "WAL \<Rightarrow> Checkpoint" where
  "WAL_head w = \<lparr>cp_seq = m_seq w, cp_head = m_headHash w\<rparr>"

definition WAL_reset :: "WAL \<Rightarrow> os \<Rightarrow> bool \<times> WAL \<times> os" where
  "WAL_reset w s =
    (if m_fd w = -1 then (False, w, s)
     else case sys_fsync (m_fd w) s of (_, s1) \<Rightarrow>
       case sys_ftruncate (m_fd w) 0 s1 of (ok, s2) \<Rightarrow>
         if \<not> ok then (False, w, s2)
         else case sys_lseek (m_fd w) (SEEK_SET 0) s2 of (p, s3) \<Rightarrow>
           if p = None then (False, w, s3)
           else case WAL_writeHeader w s3 of (okh, s4) \<Rightarrow>
             if \<not> okh then (False, w, s4)
             else (True, w\<lparr>m_seq := 0, m_headHash := zero_hash, m_pendingWrites := 0\<rparr>, s4))"

definition WAL_close :: "WAL \<Rightarrow> os \<Rightarrow> WAL \<times> os" where
  "WAL_close w s =
    (if m_fd w \<noteq> -1
     then (let (w1, s1) = (if m_pendingWrites w > 0
                           then (w\<lparr>m_pendingWrites := 0\<rparr>, snd (sys_fsync (m_fd w) s)) else (w, s))
           in (w1\<lparr>m_fd := -1\<rparr>, snd (sys_close (m_fd w1) s1)))
     else (w, s))"

section \<open>Appending\<close>

definition fixed_part :: "u64 \<Rightarrow> i64 \<Rightarrow> u64 \<Rightarrow> bytes \<Rightarrow> bytes \<Rightarrow> RecordType \<Rightarrow> bytes" where
  "fixed_part seq timestamp epoch key value type =
    (let ts = timestamp;
         timestamp_low = ucast (ts AND 0xFFFFFFFF);
         timestamp_high = ucast (drop_bit 32 ts AND 0xFFFFFFFF);
         key_len = of_nat (length key);
         value_len = of_nat (length value);
         fixed = putLE64 [] seq;
         fixed = putLE32 fixed timestamp_low;
         fixed = putLE32 fixed timestamp_high;
         fixed = putLE64 fixed epoch;
         fixed = putLE32 fixed key_len;
         fixed = putLE32 fixed value_len
     in fixed @ [type_byte type])"

definition chain_digest :: "Sha256Digest \<Rightarrow> bytes \<Rightarrow> bytes \<Rightarrow> bytes \<Rightarrow> Sha256Digest" where
  "chain_digest prev fixed key value =
    SHA256_digest (SHA256_update (SHA256_update (SHA256_update (SHA256_update SHA256_init prev) fixed) key) value)"

definition WAL_append :: "RecordType \<Rightarrow> bytes \<Rightarrow> bytes \<Rightarrow> i64 \<Rightarrow> WAL \<Rightarrow> os \<Rightarrow> (exn + unit) \<times> WAL \<times> os" where
  "WAL_append type key value timestamp w s =
    (if length key > kMaxFieldSize \<or> length value > kMaxFieldSize
     then (Inl (length_error (''WAL field exceeds '' @ to_string kMaxFieldSize @ '' bytes'')), w, s)
     else if m_fd w = -1 then (Inr (), w, s)
     else
       let fixed = fixed_part (m_seq w) timestamp (m_epoch w) key value type;
           chainHash = chain_digest (m_headHash w) fixed key value;
           entry = fixed @ key @ value @ chainHash;
           computed_crc = CRC32_calculate entry;
           out = putLE32 [] computed_crc @ entry
       in case writeExact (m_fd w) out s of (ok, s1) \<Rightarrow>
         if \<not> ok then (Inl (runtime_error ''Failed to write entry to WAL''), w, s1)
         else
           let w1 = w\<lparr>m_headHash := chainHash, m_seq := m_seq w + 1, m_pendingWrites := m_pendingWrites w + 1\<rparr>
           in if m_pendingWrites w1 \<ge> m_syncEveryN w1
              then (case sys_fsync (m_fd w1) s1 of (okf, s2) \<Rightarrow>
                if \<not> okf then (Inl (runtime_error ''fsync failed''), w1, s2)
                else (Inr (), w1\<lparr>m_pendingWrites := 0\<rparr>, s2))
              else (Inr (), w1, s1))"

section \<open>Walking the chain\<close>

record verified =
  v_seq :: u64
  v_type :: RecordType
  v_key :: bytes
  v_value :: bytes
  v_ts :: i64
  v_epoch :: u64
  v_hash :: Sha256Digest

datatype iteration = Torn | Bad RecoveryStatus | Verified verified

text \<open>\<open>if (len > 0 && !readExact(...))\<close>: an empty field reads nothing.\<close>

definition read_field :: "int \<Rightarrow> nat \<Rightarrow> os \<Rightarrow> bool \<times> bytes \<times> os" where
  "read_field fd len s = (if len > 0 then readExact fd len s else (True, [], s))"

definition walk_entry :: "int \<Rightarrow> nat \<Rightarrow> int \<Rightarrow> Sha256Digest \<Rightarrow> u64 \<Rightarrow> os \<Rightarrow> iteration \<times> os" where
  "walk_entry fd st_size current_pos prevHash expectedSeq s =
    (case readExact fd 4 s of (ok1, crc_bytes, s1) \<Rightarrow>
     if \<not> ok1 then (Torn, s1) else
     let stored_crc = getLE32 crc_bytes in
     case readExact fd ENTRY_FIXED_SIZE s1 of (ok2, fixed, s2) \<Rightarrow>
     if \<not> ok2 then (Torn, s2) else
     let seq = getLE64 (drop OFF_SEQ fixed);
         key_len = getLE32 (drop OFF_KEY_LEN fixed);
         value_len = getLE32 (drop OFF_VALUE_LEN fixed);
         tbyte = fixed ! OFF_TYPE
     in
     if unat key_len > kMaxFieldSize \<or> unat value_len > kMaxFieldSize then (Bad Malformed, s2) else
     let remaining = int st_size - current_pos;
         needed = 4 + ENTRY_FIXED_SIZE + HASH_SIZE + unat key_len + unat value_len
     in
     if int needed > remaining then (Torn, s2) else
     case read_field fd (unat key_len) s2 of (ok3, key, s3) \<Rightarrow>
     if \<not> ok3 then (Torn, s3) else
     case read_field fd (unat value_len) s3 of (ok4, value, s4) \<Rightarrow>
     if \<not> ok4 then (Torn, s4) else
     case readExact fd HASH_SIZE s4 of (ok5, hash_bytes, s5) \<Rightarrow>
     if \<not> ok5 then (Torn, s5) else
     let entry = fixed @ key @ value @ hash_bytes in
     if CRC32_calculate entry \<noteq> stored_crc then (Bad Tampered, s5) else
     let computed = chain_digest prevHash fixed key value in
     if computed \<noteq> hash_bytes then (Bad Tampered, s5) else
     if seq \<noteq> expectedSeq then (Bad Tampered, s5) else
     let epoch = getLE64 (drop OFF_EPOCH fixed);
         timestamp_low = getLE32 (drop OFF_TS_LOW fixed);
         timestamp_high = getLE32 (drop OFF_TS_HIGH fixed);
         entryTs = push_bit 32 (ucast timestamp_high) OR ucast timestamp_low
     in (Verified \<lparr>v_seq = seq, v_type = as_RecordType tbyte, v_key = key, v_value = value, v_ts = entryTs,
                   v_epoch = epoch, v_hash = computed\<rparr>, s5))"

datatype walk_exit = WalkFail RecoveryResult | WalkEnd bool int Sha256Digest u64

type_synonym 's visitor = "'s \<Rightarrow> RecordType \<Rightarrow> bytes \<Rightarrow> bytes \<Rightarrow> i64 \<Rightarrow> 's"

definition visit :: "'s visitor option \<Rightarrow> u64 option \<Rightarrow> verified \<Rightarrow> 's \<Rightarrow> 's" where
  "visit visitor minEpochExclusive v st =
    (case visitor of
       None \<Rightarrow> st
     | Some f \<Rightarrow>
         if (case minEpochExclusive of None \<Rightarrow> True | Some m \<Rightarrow> v_epoch v > m)
         then f st (v_type v) (v_key v) (v_value v) (v_ts v) else st)"

lemma walk_entry_progress:
  assumes "walk_entry fd st_size pos prev seq s = (Verified v, t)"
  shows "fcontent t fd = fcontent s fd \<and> foffset s fd < foffset t fd \<and> foffset t fd \<le> length (fcontent s fd)"
proof -
  have field: "fcontent t fd = fcontent s fd \<and> foffset s fd \<le> foffset t fd"
    if "read_field fd n s = (True, bs, t)" for n s bs t
    using that readExact_any [of fd n s True bs t] by (auto simp: read_field_def split: if_splits)
  obtain ok1 b1 s1 where r1: "readExact fd 4 s = (ok1, b1, s1)" by (metis prod_cases3)
  obtain ok2 b2 s2 where r2: "readExact fd ENTRY_FIXED_SIZE s1 = (ok2, b2, s2)" by (metis prod_cases3)
  define kl where "kl = unat (getLE32 (drop OFF_KEY_LEN b2))"
  define vl where "vl = unat (getLE32 (drop OFF_VALUE_LEN b2))"
  obtain ok3 b3 s3 where r3: "read_field fd kl s2 = (ok3, b3, s3)" by (metis prod_cases3)
  obtain ok4 b4 s4 where r4: "read_field fd vl s3 = (ok4, b4, s4)" by (metis prod_cases3)
  obtain ok5 b5 s5 where r5: "readExact fd HASH_SIZE s4 = (ok5, b5, s5)" by (metis prod_cases3)
  from assms have ok: "ok1" "ok2" "ok3" "ok4" "ok5" and t: "t = s5"
    using r1 r2 r3 r4 r5 unfolding walk_entry_def Let_def kl_def vl_def
    by (auto split: if_splits)
  have h: "length b5 = HASH_SIZE" "b5 = take HASH_SIZE (drop (foffset s4 fd) (fcontent s4 fd))"
      "foffset s5 fd = foffset s4 fd + HASH_SIZE" "fcontent s5 fd = fcontent s4 fd"
    using readExact_any [OF r5] ok by auto
  then have "length (take HASH_SIZE (drop (foffset s4 fd) (fcontent s4 fd))) = HASH_SIZE" by metis
  then have "foffset s4 fd + HASH_SIZE \<le> length (fcontent s4 fd)"
    by (auto simp: HASH_SIZE_def min_def split: if_splits)
  then show ?thesis
    using readExact_any [OF r1] readExact_any [OF r2] field [of kl s2 b3 s3] field [of vl s3 b4 s4] r3 r4 ok h t
    by (auto simp: HASH_SIZE_def)
qed

function walk_loop :: "int \<Rightarrow> 's visitor option \<Rightarrow> u64 option \<Rightarrow> nat \<Rightarrow> int \<Rightarrow> Sha256Digest \<Rightarrow> u64 \<Rightarrow> 's \<Rightarrow> os \<Rightarrow>
    walk_exit \<times> 's \<times> os" where
  "walk_loop fd visitor minEpochExclusive st_size current_pos prevHash expectedSeq st s =
    (if current_pos < int st_size
     then (case walk_entry fd st_size current_pos prevHash expectedSeq s of (it, s1) \<Rightarrow>
       (case it of
          Torn \<Rightarrow> (WalkEnd True current_pos prevHash expectedSeq, st, s1)
        | Bad why \<Rightarrow>
            (WalkFail \<lparr>status = why, entriesVerified = expectedSeq, tamperOffset = of_int current_pos,
                       tamperSeq = expectedSeq, headHash = prevHash\<rparr>, st, s1)
        | Verified v \<Rightarrow>
            let st1 = visit visitor minEpochExclusive v st
            in case sys_lseek fd SEEK_CUR s1 of (p, s2) \<Rightarrow>
              (case p of
                 None \<Rightarrow> (WalkEnd True (-1) (v_hash v) (v_seq v + 1), st1, s2)
               | Some pos \<Rightarrow>
                   walk_loop fd visitor minEpochExclusive st_size (int pos) (v_hash v) (v_seq v + 1) st1 s2)))
     else (WalkEnd False current_pos prevHash expectedSeq, st, s))"
  by pat_completeness auto
termination
  by (relation "measure (\<lambda>(fd, visitor, m, st_size, pos, prev, seq, st, s). length (fcontent s fd) - foffset s fd)")
    (auto dest!: walk_entry_progress [OF sym] sys_lseek_any [OF sym])

declare walk_loop.simps [simp del]

definition walkChain :: "WAL \<Rightarrow> 's visitor option \<Rightarrow> u64 option \<Rightarrow> bool \<Rightarrow> 's \<Rightarrow> os \<Rightarrow> RecoveryResult \<times> 's \<times> os" where
  "walkChain w visitor minEpochExclusive allowTruncate st s =
    (if m_fd w = -1 then (RecoveryResult_default, st, s)
     else case sys_fstat_size (m_fd w) s of (sz, s1) \<Rightarrow>
       (case sz of
          None \<Rightarrow> (RecoveryResult_default, st, s1)
        | Some st_size \<Rightarrow>
            case sys_lseek (m_fd w) (SEEK_SET kHeaderSize) s1 of (p, s2) \<Rightarrow>
              if p = None then (RecoveryResult_default, st, s2)
              else case walk_loop (m_fd w) visitor minEpochExclusive st_size (int kHeaderSize) zero_hash 0 st s2 of
                (ex, st1, s3) \<Rightarrow>
                (case ex of
                   WalkFail r \<Rightarrow> (r, st1, s3)
                 | WalkEnd torn current_pos prevHash expectedSeq \<Rightarrow>
                     let result = RecoveryResult_default\<lparr>entriesVerified := expectedSeq, headHash := prevHash\<rparr>
                     in if torn
                        then (result\<lparr>status := TruncatedTail\<rparr>, st1,
                              if allowTruncate
                              then snd (sys_lseek (m_fd w) SEEK_END
                                     (if current_pos < 0 then snd (next_ctl s3) else snd (sys_ftruncate (m_fd w) (nat current_pos) s3)))
                              else s3)
                        else (result, st1, s3))))"

definition WAL_recover :: "'s visitor \<Rightarrow> u64 option \<Rightarrow> 's \<Rightarrow> WAL \<Rightarrow> os \<Rightarrow> RecoveryResult \<times> 's \<times> WAL \<times> os" where
  "WAL_recover visitor minEpochExclusive st w s =
    (case walkChain w (Some visitor) minEpochExclusive True st s of (result, st1, s1) \<Rightarrow>
      (result, st1,
       (if status result = Ok \<or> status result = TruncatedTail
        then w\<lparr>m_seq := entriesVerified result, m_headHash := headHash result\<rparr> else w),
       s1))"

definition WAL_verify :: "WAL \<Rightarrow> os \<Rightarrow> RecoveryResult \<times> os" where
  "WAL_verify w s = (case walkChain w None None False () s of (r, _, s1) \<Rightarrow> (r, s1))"

end
