(* ===== verification/WAL_Format.thy ===== *)
theory WAL_Format
  imports WAL
begin

text \<open>
  The log format as a pure function of the file's bytes, and the proof that \<open>walk_entry\<close> and
  \<open>walk_loop\<close> compute it in every environment whose calls succeed, however the kernel splits the
  reads.

  \<open>entry_bytes\<close> and \<open>log_bytes\<close> are the canonical encoding of a record and of a list of records,
  \<open>scan_entry\<close> and \<open>scan_log\<close> the reader. The reader accepts exactly the canonical encodings.
\<close>

section \<open>The encoding\<close>

record log_record =
  r_type :: RecordType
  r_key :: bytes
  r_value :: bytes
  r_ts :: i64
  r_epoch :: u64

definition entry_fixed :: "u64 \<Rightarrow> log_record \<Rightarrow> bytes" where
  "entry_fixed seq r = fixed_part seq (r_ts r) (r_epoch r) (r_key r) (r_value r) (r_type r)"

definition entry_hash :: "Sha256Digest \<Rightarrow> u64 \<Rightarrow> log_record \<Rightarrow> Sha256Digest" where
  "entry_hash prev seq r = chain_digest prev (entry_fixed seq r) (r_key r) (r_value r)"

definition entry_body :: "Sha256Digest \<Rightarrow> u64 \<Rightarrow> log_record \<Rightarrow> bytes" where
  "entry_body prev seq r = entry_fixed seq r @ r_key r @ r_value r @ entry_hash prev seq r"

definition entry_bytes :: "Sha256Digest \<Rightarrow> u64 \<Rightarrow> log_record \<Rightarrow> bytes" where
  "entry_bytes prev seq r = putLE32 [] (CRC32_calculate (entry_body prev seq r)) @ entry_body prev seq r"

fun log_bytes :: "Sha256Digest \<Rightarrow> u64 \<Rightarrow> log_record list \<Rightarrow> bytes" where
  "log_bytes prev seq [] = []"
| "log_bytes prev seq (r # rs) = entry_bytes prev seq r @ log_bytes (entry_hash prev seq r) (seq + 1) rs"

fun log_head :: "Sha256Digest \<Rightarrow> u64 \<Rightarrow> log_record list \<Rightarrow> Sha256Digest" where
  "log_head prev seq [] = prev"
| "log_head prev seq (r # rs) = log_head (entry_hash prev seq r) (seq + 1) rs"

definition header_bytes :: bytes where
  "header_bytes = putLE64 (putLE32 (putLE32 [] WAL_MAGIC) WAL_VERSION) 0"

text \<open>What \<open>append\<close> lets through: fields within the cap, a type byte that reads back as the type.\<close>

definition storable :: "log_record \<Rightarrow> bool" where
  "storable r \<longleftrightarrow> length (r_key r) \<le> kMaxFieldSize \<and> length (r_value r) \<le> kMaxFieldSize \<and>
     as_RecordType (type_byte (r_type r)) = r_type r"

definition verified_of :: "Sha256Digest \<Rightarrow> u64 \<Rightarrow> log_record \<Rightarrow> verified" where
  "verified_of prev seq r = \<lparr>v_seq = seq, v_type = r_type r, v_key = r_key r, v_value = r_value r, v_ts = r_ts r,
     v_epoch = r_epoch r, v_hash = entry_hash prev seq r\<rparr>"

definition record_of :: "verified \<Rightarrow> log_record" where
  "record_of v = \<lparr>r_type = v_type v, r_key = v_key v, r_value = v_value v, r_ts = v_ts v, r_epoch = v_epoch v\<rparr>"

fun verified_list :: "Sha256Digest \<Rightarrow> u64 \<Rightarrow> log_record list \<Rightarrow> verified list" where
  "verified_list prev seq [] = []"
| "verified_list prev seq (r # rs) = verified_of prev seq r # verified_list (entry_hash prev seq r) (seq + 1) rs"

definition entry_len :: "verified \<Rightarrow> nat" where
  "entry_len v = 69 + length (v_key v) + length (v_value v)"

section \<open>The reader\<close>

definition scan_entry :: "bytes \<Rightarrow> Sha256Digest \<Rightarrow> u64 \<Rightarrow> iteration" where
  "scan_entry rest prev expectedSeq =
    (if length rest < 37 then Torn else
     let fixed = take 33 (drop 4 rest);
         kl = unat (getLE32 (drop OFF_KEY_LEN fixed));
         vl = unat (getLE32 (drop OFF_VALUE_LEN fixed))
     in if kl > kMaxFieldSize \<or> vl > kMaxFieldSize then Bad Malformed
        else if 69 + kl + vl > length rest then Torn
        else
          let key = take kl (drop 37 rest);
              val = take vl (drop (37 + kl) rest);
              hash_bytes = take 32 (drop (37 + kl + vl) rest)
          in if CRC32_calculate (fixed @ key @ val @ hash_bytes) \<noteq> getLE32 (take 4 rest) then Bad Tampered
             else if chain_digest prev fixed key val \<noteq> hash_bytes then Bad Tampered
             else if getLE64 (drop OFF_SEQ fixed) \<noteq> expectedSeq then Bad Tampered
             else Verified \<lparr>v_seq = getLE64 (drop OFF_SEQ fixed), v_type = as_RecordType (fixed ! OFF_TYPE),
               v_key = key, v_value = val,
               v_ts = push_bit 32 (ucast (getLE32 (drop OFF_TS_HIGH fixed))) OR ucast (getLE32 (drop OFF_TS_LOW fixed)),
               v_epoch = getLE64 (drop OFF_EPOCH fixed), v_hash = chain_digest prev fixed key val\<rparr>)"

datatype scan_end = Clean | TornTail | BadAt RecoveryStatus

lemma scan_entry_len: "scan_entry rest prev seq = Verified v \<Longrightarrow> entry_len v \<le> length rest \<and> 69 \<le> length rest"
proof -
  define f where "f = take 33 (drop 4 rest)"
  define kl where "kl = unat (getLE32 (drop OFF_KEY_LEN f))"
  define vl where "vl = unat (getLE32 (drop OFF_VALUE_LEN f))"
  define key where "key = take kl (drop 37 rest)"
  define val where "val = take vl (drop (37 + kl) rest)"
  define hb where "hb = take 32 (drop (37 + kl + vl) rest)"
  note defs = f_def [symmetric] kl_def [symmetric] vl_def [symmetric] key_def [symmetric] val_def [symmetric]
    hb_def [symmetric]
  assume "scan_entry rest prev seq = Verified v"
  then have "69 + kl + vl \<le> length rest" and "v_key v = key" and "v_value v = val"
    unfolding scan_entry_def Let_def defs by (auto split: if_splits)
  then show ?thesis by (simp add: entry_len_def key_def val_def)
qed

function scan_log :: "bytes \<Rightarrow> Sha256Digest \<Rightarrow> u64 \<Rightarrow> verified list \<times> scan_end" where
  "scan_log rest prev seq =
    (if rest = [] then ([], Clean)
     else case scan_entry rest prev seq of
       Torn \<Rightarrow> ([], TornTail)
     | Bad w \<Rightarrow> ([], BadAt w)
     | Verified v \<Rightarrow> (case scan_log (drop (entry_len v) rest) (v_hash v) (v_seq v + 1) of (vs, e) \<Rightarrow> (v # vs, e)))"
  by pat_completeness auto
termination
  by (relation "measure (\<lambda>(rest, prev, seq). length rest)") (auto simp: entry_len_def)

declare scan_log.simps [simp del]

lemma scan_log_Nil [simp]: "scan_log [] prev seq = ([], Clean)"
  by (subst scan_log.simps) simp

definition end_hash :: "Sha256Digest \<Rightarrow> verified list \<Rightarrow> Sha256Digest" where
  "end_hash prev vs = foldl (\<lambda>_ v. v_hash v) prev vs"

definition end_seq :: "u64 \<Rightarrow> verified list \<Rightarrow> u64" where
  "end_seq seq vs = foldl (\<lambda>_ v. v_seq v + 1) seq vs"

definition total_len :: "verified list \<Rightarrow> nat" where
  "total_len vs = sum_list (map entry_len vs)"

section \<open>The walk computes the reader\<close>

lemma read_field_kind:
  assumes "read_field fd n s = (ok, bs, t)" and "fds s fd \<noteq> None" and "kind s"
    and "foffset s fd + n \<le> length (fcontent s fd)"
  shows "ok \<and> kind t \<and> only_file fd s t \<and> fstable t fd = fstable s fd \<and> fcontent t fd = fcontent s fd \<and>
    bs = take n (drop (foffset s fd) (fcontent s fd)) \<and> foffset t fd = foffset s fd + n"
proof (cases "n = 0")
  case True
  with assms show ?thesis by (simp add: read_field_def)
next
  case False
  with assms(1) have r: "readExact fd n s = (ok, bs, t)" by (simp add: read_field_def)
  with False assms have "ok" "kind t" using readExact_kind [OF r assms(2,3)] by auto
  with readExact_any [OF r] show ?thesis by blast
qed

lemma walk_entry_kind:
  assumes w: "walk_entry fd (length (fcontent s fd)) (int (foffset s fd)) prev seq s = (it, t)"
    and op: "fds s fd \<noteq> None" and k: "kind s" and le: "foffset s fd \<le> length (fcontent s fd)"
  shows "it = scan_entry (drop (foffset s fd) (fcontent s fd)) prev seq \<and> kind t \<and> only_file fd s t \<and>
    fstable t fd = fstable s fd \<and> fcontent t fd = fcontent s fd \<and>
    (\<forall>v. it = Verified v \<longrightarrow> foffset t fd = foffset s fd + entry_len v)"
proof -
  define c p rest where "c = fcontent s fd" and "p = foffset s fd" and "rest = drop p c"
  obtain ok1 b1 s1 where r1: "readExact fd 4 s = (ok1, b1, s1)" by (metis prod_cases3)
  note a1 = readExact_any [OF r1] and k1 = readExact_kind [OF r1 op k]
  have op1: "fds s1 fd \<noteq> None" using op a1 only_file_fds [of fd s s1] by blast
  have lenrest: "length rest = length c - p" by (simp add: rest_def)
  show ?thesis
  proof (cases ok1)
    case False
    then have "length rest < 37" using k1 by (simp add: lenrest c_def p_def)
    then have "scan_entry rest prev seq = Torn" by (simp add: scan_entry_def)
    moreover have "it = Torn" "t = s1" using w r1 False by (auto simp: walk_entry_def)
    ultimately show ?thesis using a1 k1 by (simp add: rest_def c_def p_def)
  next
    case ok1: True
    obtain ok2 fixed s2 where r2: "readExact fd ENTRY_FIXED_SIZE s1 = (ok2, fixed, s2)" by (metis prod_cases3)
    have ks1: "kind s1" and o1: "foffset s1 fd = p + 4" and c1: "fcontent s1 fd = c" and b1: "b1 = take 4 rest"
      and p4: "p + 4 \<le> length c"
      using a1 k1 ok1 by (auto simp: c_def p_def rest_def)
    note a2 = readExact_any [OF r2] and k2 = readExact_kind [OF r2 op1 ks1]
    have op2: "fds s2 fd \<noteq> None" using op1 a2 only_file_fds [of fd s1 s2] by blast
    have of2: "only_file fd s s2" using a1 a2 by (blast intro: only_file_trans)
    show ?thesis
    proof (cases ok2)
      case False
      then have "length rest < 37" using k2 o1 c1 by (simp add: lenrest layout)
      then have "scan_entry rest prev seq = Torn" by (simp add: scan_entry_def)
      moreover have "it = Torn" "t = s2" using w r1 r2 ok1 False by (auto simp: walk_entry_def)
      ultimately show ?thesis using a1 a2 k2 of2 by (simp add: layout rest_def c_def p_def)
    next
      case ok2: True
      have ks2: "kind s2" and o2: "foffset s2 fd = p + 37" and c2: "fcontent s2 fd = c"
        and fx: "fixed = take 33 (drop 4 rest)" and p37: "37 \<le> length rest"
        using a2 k2 ok2 o1 c1 by (auto simp: layout rest_def lenrest add.commute)
      define kl where "kl = unat (getLE32 (drop OFF_KEY_LEN fixed))"
      define vl where "vl = unat (getLE32 (drop OFF_VALUE_LEN fixed))"
      show ?thesis
      proof (cases "kl > kMaxFieldSize \<or> vl > kMaxFieldSize")
        case True
        then have "scan_entry rest prev seq = Bad Malformed"
          using p37 by (simp add: scan_entry_def Let_def kl_def vl_def fx)
        moreover have "it = Bad Malformed" "t = s2"
          using w r1 r2 ok1 ok2 True by (auto simp: walk_entry_def Let_def kl_def vl_def)
        ultimately show ?thesis using a1 a2 ks2 of2 by (simp add: rest_def c_def p_def)
      next
        case small: False
        have fit_iff: "int (4 + ENTRY_FIXED_SIZE + HASH_SIZE + kl + vl) > int (length (fcontent s fd)) - int (foffset s fd)
            \<longleftrightarrow> 69 + kl + vl > length rest"
          using le by (auto simp: layout lenrest c_def p_def)
        show ?thesis
        proof (cases "69 + kl + vl > length rest")
          case True
          then have "scan_entry rest prev seq = Torn"
            using p37 small by (simp add: scan_entry_def Let_def kl_def vl_def fx)
          moreover have "it = Torn" "t = s2"
            using w r1 r2 ok1 ok2 small fit_iff True
            by (auto simp: walk_entry_def Let_def kl_def vl_def split: if_splits)
          ultimately show ?thesis using a1 a2 ks2 of2 by (simp add: rest_def c_def p_def)
        next
          case fit: False
          obtain ok3 key s3 where r3: "read_field fd kl s2 = (ok3, key, s3)" by (metis prod_cases3)
          have f3: "ok3 \<and> kind s3 \<and> only_file fd s2 s3 \<and> fstable s3 fd = fstable s2 fd \<and> fcontent s3 fd = c \<and>
              key = take kl (drop 37 rest) \<and> foffset s3 fd = p + 37 + kl"
            using read_field_kind [OF r3 op2 ks2] fit p37 o2 c2 by (simp add: rest_def lenrest add.commute)
          have op3: "fds s3 fd \<noteq> None" using op2 f3 only_file_fds [of fd s2 s3] by blast
          obtain ok4 val s4 where r4: "read_field fd vl s3 = (ok4, val, s4)" by (metis prod_cases3)
          have f4: "ok4 \<and> kind s4 \<and> only_file fd s3 s4 \<and> fstable s4 fd = fstable s3 fd \<and> fcontent s4 fd = c \<and>
              val = take vl (drop (37 + kl) rest) \<and> foffset s4 fd = p + 37 + kl + vl"
            using read_field_kind [OF r4 op3] f3 fit p37 by (simp add: rest_def lenrest add.commute add.left_commute)
          have op4: "fds s4 fd \<noteq> None" using op3 f4 only_file_fds [of fd s3 s4] by blast
          obtain ok5 hb s5 where r5: "readExact fd HASH_SIZE s4 = (ok5, hb, s5)" by (metis prod_cases3)
          note a5 = readExact_any [OF r5]
          have k5: "kind s5 \<and> ok5"
            using readExact_kind [OF r5 op4] f4 fit p37 by (simp add: layout lenrest)
          have h5: "hb = take 32 (drop (37 + kl + vl) rest)" and o5: "foffset s5 fd = p + 69 + kl + vl"
            and c5: "fcontent s5 fd = c"
            using a5 k5 f4 by (simp_all add: layout rest_def add.commute add.left_commute)
          have of5: "only_file fd s s5" and st5: "fstable s5 fd = fstable s fd"
            using of2 f3 f4 a5 a1 a2 by (auto intro: only_file_trans)
          have kl_len: "length key = kl" and vl_len: "length val = vl"
            using f3 f4 fit by auto
          have ti: "t = s5 \<and> it = scan_entry rest prev seq"
            using w r1 r2 r3 r4 r5 ok1 ok2 small fit_iff fit f3 f4 k5 p37
            unfolding walk_entry_def scan_entry_def Let_def kl_def [symmetric] vl_def [symmetric] fx [symmetric]
              h5 [symmetric] b1 [symmetric]
            by (simp add: kl_def [symmetric] vl_def [symmetric] h5 [symmetric] b1 [symmetric] fx [symmetric] split: if_splits)
          have "\<forall>v. it = Verified v \<longrightarrow> entry_len v = 69 + kl + vl"
            using ti p37 small fit kl_len vl_len f3 f4
            by (auto simp: scan_entry_def Let_def entry_len_def kl_def [symmetric] vl_def [symmetric] fx [symmetric] split: if_splits)
          with ti k5 of5 st5 c5 o5 show ?thesis by (simp add: rest_def c_def p_def)
        qed
      qed
    qed
  qed
qed

lemma walk_loop_kind:
  assumes "walk_loop fd visitor m (length (fcontent s fd)) (int (foffset s fd)) prev seq st s = (ex, st', t)"
    and "fds s fd \<noteq> None" and "kind s" and "foffset s fd \<le> length (fcontent s fd)"
    and "scan_log (drop (foffset s fd) (fcontent s fd)) prev seq = (vs, e)"
  shows "kind t \<and> only_file fd s t \<and> fstable t fd = fstable s fd \<and> fcontent t fd = fcontent s fd \<and>
    st' = foldl (\<lambda>x v. visit visitor m v x) st vs \<and>
    ex = (let pos = int (foffset s fd + total_len vs) in case e of
       Clean \<Rightarrow> WalkEnd False pos (end_hash prev vs) (end_seq seq vs)
     | TornTail \<Rightarrow> WalkEnd True pos (end_hash prev vs) (end_seq seq vs)
     | BadAt w \<Rightarrow> WalkFail \<lparr>status = w, entriesVerified = end_seq seq vs, tamperOffset = of_int pos,
         tamperSeq = end_seq seq vs, headHash = end_hash prev vs\<rparr>)"
  using assms
proof (induction "length (fcontent s fd) - foffset s fd" arbitrary: prev seq st s ex st' t vs e rule: less_induct)
  case less
  let ?c = "fcontent s fd" and ?p = "foffset s fd"
  show ?case
  proof (cases "?p < length ?c")
    case False
    then have "vs = []" "e = Clean" using less.prems(5) by (simp_all add: scan_log.simps [of "drop ?p ?c"])
    with False less.prems show ?thesis
      by (auto simp: walk_loop.simps [of fd visitor m "length ?c"] end_hash_def end_seq_def total_len_def Let_def)
  next
    case True
    then have ne: "drop ?p ?c \<noteq> []" by simp
    obtain it s1 where w: "walk_entry fd (length ?c) (int ?p) prev seq s = (it, s1)" by fastforce
    note we = walk_entry_kind [OF w less.prems(2,3,4)]
    then have it: "scan_entry (drop ?p ?c) prev seq = it" by simp
    have op1: "fds s1 fd \<noteq> None" using we less.prems(2) only_file_fds [of fd s s1] by blast
    show ?thesis
    proof (cases it)
      case Torn
      then have "vs = []" "e = TornTail"
        using less.prems(5) ne it by (simp_all add: scan_log.simps [of "drop ?p ?c"])
      with Torn True less.prems(1) w we show ?thesis
        by (simp add: walk_loop.simps [of fd visitor m "length ?c"] end_hash_def end_seq_def total_len_def Let_def)
    next
      case (Bad why)
      then have "vs = []" "e = BadAt why"
        using less.prems(5) ne it by (simp_all add: scan_log.simps [of "drop ?p ?c"])
      with Bad True less.prems(1) w we show ?thesis
        by (simp add: walk_loop.simps [of fd visitor m "length ?c"] end_hash_def end_seq_def total_len_def Let_def)
    next
      case (Verified v)
      let ?q = "?p + entry_len v"
      obtain vs' where vs: "vs = v # vs'"
        and sl: "scan_log (drop (entry_len v) (drop ?p ?c)) (v_hash v) (v_seq v + 1) = (vs', e)"
        using less.prems(5) ne it Verified
        by (auto simp: scan_log.simps [of "drop ?p ?c"] split: prod.splits)
      have "entry_len v \<le> length ?c - ?p" using it Verified scan_entry_len [of "drop ?p ?c" prev seq v] by auto
      with less.prems(4) have qle: "?q \<le> length ?c" by arith
      obtain pp s2 where l: "sys_lseek fd SEEK_CUR s1 = (pp, s2)" by fastforce
      note sk = sys_lseek_any [OF l]
      have p2: "pp = Some ?q" and k2: "kind s2" and o2: "foffset s2 fd = ?q" and c2: "fcontent s2 fd = ?c"
        and of2: "only_file fd s s2" and st2: "fstable s2 fd = fstable s fd"
        using sk we op1 Verified by (auto split: option.splits intro: only_file_trans)
      have op2: "fds s2 fd \<noteq> None" using op1 sk only_file_fds [of fd s1 s2] by blast
      have rec: "walk_loop fd visitor m (length (fcontent s2 fd)) (int (foffset s2 fd)) (v_hash v) (v_seq v + 1)
          (visit visitor m v st) s2 = (ex, st', t)"
        using less.prems(1) True w Verified l p2 c2 o2
        by (simp add: walk_loop.simps [of fd visitor m "length ?c" "int ?p"] Let_def)
      have lt: "length (fcontent s2 fd) - foffset s2 fd < length ?c - ?p"
        using True by (simp add: c2 o2 entry_len_def)
      have sl2: "scan_log (drop (foffset s2 fd) (fcontent s2 fd)) (v_hash v) (v_seq v + 1) = (vs', e)"
        using sl by (simp add: c2 o2 add.commute)
      have le2: "foffset s2 fd \<le> length (fcontent s2 fd)" using qle by (simp add: c2 o2)
      note ih = less.hyps [OF lt rec op2 k2 le2 sl2]
      have "end_hash prev vs = end_hash (v_hash v) vs'" "end_seq seq vs = end_seq (v_seq v + 1) vs'"
          "total_len vs = entry_len v + total_len vs'"
        by (simp_all add: vs end_hash_def end_seq_def total_len_def)
      with ih of2 st2 c2 o2 show ?thesis
        by (cases e) (auto simp: Let_def add.assoc vs intro: only_file_trans)
    qed
  qed
qed

section \<open>The fixed part of an entry\<close>

lemma fixed_part_eq:
  "fixed_part seq ts epoch key val type =
    putLE64 [] seq @ putLE32 [] (ucast (ts AND 0xFFFFFFFF)) @ putLE32 [] (ucast (drop_bit 32 ts AND 0xFFFFFFFF)) @
    putLE64 [] epoch @ putLE32 [] (of_nat (length key)) @ putLE32 [] (of_nat (length val)) @ [type_byte type]"
  by (simp add: fixed_part_def Let_def putLE32_def putLE64_eq del: upt_rec_numeral)

lemma length_fixed_part [simp]: "length (fixed_part seq ts epoch key val type) = 33"
  by (simp add: fixed_part_eq)

lemma fixed_part_read:
  "getLE64 (drop OFF_SEQ (fixed_part seq ts epoch key val type)) = seq"
  "getLE32 (drop OFF_TS_LOW (fixed_part seq ts epoch key val type)) = ucast (ts AND 0xFFFFFFFF)"
  "getLE32 (drop OFF_TS_HIGH (fixed_part seq ts epoch key val type)) = ucast (drop_bit 32 ts AND 0xFFFFFFFF)"
  "getLE64 (drop OFF_EPOCH (fixed_part seq ts epoch key val type)) = epoch"
  "getLE32 (drop OFF_KEY_LEN (fixed_part seq ts epoch key val type)) = of_nat (length key)"
  "getLE32 (drop OFF_VALUE_LEN (fixed_part seq ts epoch key val type)) = of_nat (length val)"
  "fixed_part seq ts epoch key val type ! OFF_TYPE = type_byte type"
  by (simp_all add: fixed_part_eq layout nth_append le32.dec_enc le64.dec_enc)

lemma mask32: "(0xFFFFFFFF :: u64) = mask 32"
  by (simp add: mask_eq_exp_minus_1)

lemma timestamp_halves:
  "push_bit 32 (ucast (ucast (drop_bit 32 ts AND 0xFFFFFFFF) :: u32)) OR ucast (ucast (ts AND 0xFFFFFFFF) :: u32) = (ts :: u64)"
  unfolding mask32 by (rule bit_word_eqI) (auto simp: bit_simps)

lemma timestamp_low_high:
  fixes lo hi :: u32
  defines "ts \<equiv> push_bit 32 (ucast hi) OR ucast lo :: u64"
  shows "ucast (ts AND 0xFFFFFFFF) = lo" and "ucast (drop_bit 32 ts AND 0xFFFFFFFF) = hi"
  unfolding ts_def mask32
proof -
  have lo: "\<not> bit lo (32 + n)" for n
    using bit_imp_le_length [of lo "32 + n"] by auto
  show "ucast ((push_bit 32 (ucast hi) OR ucast lo :: u64) AND mask 32) = lo"
    by (rule bit_word_eqI) (auto simp: bit_simps)
  show "ucast (drop_bit 32 (push_bit 32 (ucast hi) OR ucast lo :: u64) AND mask 32) = hi"
    by (rule bit_word_eqI) (auto simp: bit_simps lo)
qed

lemma type_byte_as [simp]: "type_byte (as_RecordType b) = b"
  by (simp add: type_byte_def as_RecordType_def)

lemma of_nat_len_eq: "length xs = unat (v :: u32) \<Longrightarrow> of_nat (length xs) = v"
  by (metis of_nat_unat ucast_id)

text \<open>Any 33 bytes are the fixed part of the fields read from them.\<close>

lemma fixed_part_of_bytes:
  assumes len: "length f = 33"
    and kl: "length key = unat (getLE32 (drop OFF_KEY_LEN f))" and vl: "length val = unat (getLE32 (drop OFF_VALUE_LEN f))"
  shows "fixed_part (getLE64 (drop OFF_SEQ f))
     (push_bit 32 (ucast (getLE32 (drop OFF_TS_HIGH f))) OR ucast (getLE32 (drop OFF_TS_LOW f)))
     (getLE64 (drop OFF_EPOCH f)) key val (as_RecordType (f ! OFF_TYPE)) = f"
proof -
  have g64: "putLE64 [] (getLE64 (drop n f)) = take 8 (drop n f)" if "n + 8 \<le> 33" for n
    using le64.dec_prefix [of "drop n f"] le64.dec_take [of "drop n f"] len that by simp
  have g32: "putLE32 [] (getLE32 (drop n f)) = take 4 (drop n f)" if "n + 4 \<le> 33" for n
    using le32.dec_prefix [of "drop n f"] le32.dec_take [of "drop n f"] len that by simp
  have last: "[f ! 32] = drop 32 f"
    using len by (simp add: Cons_nth_drop_Suc [symmetric])
  have slice: "drop a f = take b (drop a f) @ drop (a + b) f" for a b
    by (metis append_take_drop_id drop_drop add.commute)
  have "f = take 8 f @ drop 8 f" by simp
  also have "drop 8 f = take 4 (drop 8 f) @ drop 12 f" using slice [of 8 4] by simp
  also have "drop 12 f = take 4 (drop 12 f) @ drop 16 f" using slice [of 12 4] by simp
  also have "drop 16 f = take 8 (drop 16 f) @ drop 24 f" using slice [of 16 8] by simp
  also have "drop 24 f = take 4 (drop 24 f) @ drop 28 f" using slice [of 24 4] by simp
  also have "drop 28 f = take 4 (drop 28 f) @ drop 32 f" using slice [of 28 4] by simp
  finally have f: "take 8 f @ take 4 (drop 8 f) @ take 4 (drop 12 f) @ take 8 (drop 16 f) @ take 4 (drop 24 f) @
      take 4 (drop 28 f) @ drop 32 f = f" ..
  have o: "OFF_SEQ = 0" "OFF_TS_LOW = 8" "OFF_TS_HIGH = 12" "OFF_EPOCH = 16" "OFF_KEY_LEN = 24" "OFF_VALUE_LEN = 28"
      "OFF_TYPE = 32"
    by (simp_all add: layout)
  have "putLE64 [] (getLE64 f) = take 8 f" using g64 [of 0] by simp
  moreover note g32 [of 8] g32 [of 12] g64 [of 16] g32 [of 24] g32 [of 28]
  ultimately show ?thesis
    unfolding fixed_part_eq timestamp_low_high
    using kl vl by (simp add: of_nat_len_eq o last f)
qed

section \<open>Entries\<close>

lemma length_chain_digest [simp]: "length (chain_digest prev fixed key val) = 32"
  using SHA256_incremental_is_fips [of "[prev, fixed, key, val]"] by (simp add: chain_digest_def)

lemma length_entry_hash [simp]: "length (entry_hash prev seq r) = 32"
  by (simp add: entry_hash_def)

lemma length_entry_fixed [simp]: "length (entry_fixed seq r) = 33"
  by (simp add: entry_fixed_def)

lemma length_entry_bytes: "length (entry_bytes prev seq r) = 69 + length (r_key r) + length (r_value r)"
  by (simp add: entry_bytes_def entry_body_def)

lemma storable_lens:
  assumes "storable r"
  shows "unat (of_nat (length (r_key r)) :: u32) = length (r_key r)"
    and "unat (of_nat (length (r_value r)) :: u32) = length (r_value r)"
  using assms by (simp_all add: storable_def kMaxFieldSize_def of_nat_u32_unat_le)

text \<open>The complete fields of an entry decide, whatever the reader expects in front of it.\<close>

lemma scan_entry_at:
  assumes "storable r"
  shows "scan_entry (entry_bytes prev seq r @ rest) prev' seq' =
    (if entry_hash prev' seq r \<noteq> entry_hash prev seq r then Bad Tampered
     else if seq \<noteq> seq' then Bad Tampered
     else Verified (verified_of prev' seq r))"
proof -
  let ?f = "entry_fixed seq r" and ?h = "entry_hash prev seq r"
  have e: "entry_bytes prev seq r @ rest =
      putLE32 [] (CRC32_calculate (entry_body prev seq r)) @ ?f @ r_key r @ r_value r @ ?h @ rest"
    by (simp add: entry_bytes_def entry_body_def)
  have cap: "length (r_key r) \<le> kMaxFieldSize" "length (r_value r) \<le> kMaxFieldSize"
      "as_RecordType (type_byte (r_type r)) = r_type r"
    using assms by (simp_all add: storable_def)
  have f: "take 33 (drop 4 (entry_bytes prev seq r @ rest)) = ?f" by (simp add: e)
  have crc: "getLE32 (take 4 (entry_bytes prev seq r @ rest)) = CRC32_calculate (entry_body prev seq r)"
    using le32.dec_enc [of _ "[]"] by (simp add: e)
  have k: "drop 37 (entry_bytes prev seq r @ rest) = r_key r @ r_value r @ ?h @ rest"
    by (simp add: e)
  have v: "drop (37 + length (r_key r)) (entry_bytes prev seq r @ rest) = r_value r @ ?h @ rest"
    using k by (metis add.commute append_eq_conv_conj drop_drop)
  have h: "drop (37 + length (r_key r) + length (r_value r)) (entry_bytes prev seq r @ rest) = ?h @ rest"
    using v by (metis add.commute append_eq_conv_conj drop_drop)
  have read: "getLE32 (drop OFF_KEY_LEN ?f) = of_nat (length (r_key r))"
      "getLE32 (drop OFF_VALUE_LEN ?f) = of_nat (length (r_value r))"
      "getLE64 (drop OFF_SEQ ?f) = seq" "getLE64 (drop OFF_EPOCH ?f) = r_epoch r" "?f ! OFF_TYPE = type_byte (r_type r)"
      "push_bit 32 (ucast (getLE32 (drop OFF_TS_HIGH ?f))) OR ucast (getLE32 (drop OFF_TS_LOW ?f)) = r_ts r"
    by (simp_all only: entry_fixed_def fixed_part_read timestamp_halves)
  have len: "length (entry_bytes prev seq r @ rest) = 69 + length (r_key r) + length (r_value r) + length rest"
    by (simp add: length_entry_bytes)
  show ?thesis
    unfolding scan_entry_def Let_def f crc read storable_lens [OF assms] k v h len
    using cap by (simp add: verified_of_def entry_hash_def entry_body_def)
qed

text \<open>The reader recognises an encoded entry, whatever follows it.\<close>

lemma scan_entry_bytes:
  "storable r \<Longrightarrow> scan_entry (entry_bytes prev seq r @ rest) prev seq = Verified (verified_of prev seq r)"
  by (simp add: scan_entry_at)

text \<open>And only those: what the reader accepts is the encoding of what it returns.\<close>

lemma scan_entry_sound:
  assumes "scan_entry rest prev seq = Verified v"
  shows "storable (record_of v)" and "v = verified_of prev seq (record_of v)"
    and "rest = entry_bytes prev seq (record_of v) @ drop (entry_len v) rest"
proof -
  define f where "f = take 33 (drop 4 rest)"
  define kl where "kl = unat (getLE32 (drop OFF_KEY_LEN f))"
  define vl where "vl = unat (getLE32 (drop OFF_VALUE_LEN f))"
  define key where "key = take kl (drop 37 rest)"
  define val where "val = take vl (drop (37 + kl) rest)"
  define hb where "hb = take 32 (drop (37 + kl + vl) rest)"
  define ts where "ts = (push_bit 32 (ucast (getLE32 (drop OFF_TS_HIGH f))) OR ucast (getLE32 (drop OFF_TS_LOW f)) :: u64)"
  note defs = f_def [symmetric] kl_def [symmetric] vl_def [symmetric] key_def [symmetric] val_def [symmetric]
    hb_def [symmetric] ts_def [symmetric]
  have big: "37 \<le> length rest" and cap: "kl \<le> kMaxFieldSize" "vl \<le> kMaxFieldSize"
    and fit: "69 + kl + vl \<le> length rest"
    and crc: "CRC32_calculate (f @ key @ val @ hb) = getLE32 (take 4 rest)"
    and hash: "chain_digest prev f key val = hb" and sq: "getLE64 (drop OFF_SEQ f) = seq"
    and v: "v = \<lparr>v_seq = seq, v_type = as_RecordType (f ! OFF_TYPE), v_key = key, v_value = val, v_ts = ts,
      v_epoch = getLE64 (drop OFF_EPOCH f), v_hash = hb\<rparr>"
    using assms unfolding scan_entry_def Let_def defs by (auto split: if_splits)
  have lens: "length f = 33" "length key = kl" "length val = vl" "length hb = 32"
    using big fit by (simp_all add: f_def key_def val_def hb_def)
  have ff: "entry_fixed seq (record_of v) = f"
    using fixed_part_of_bytes [OF lens(1), of key val] lens sq
    by (simp add: entry_fixed_def record_of_def v kl_def vl_def ts_def)
  have hh: "entry_hash prev seq (record_of v) = hb"
    using hash by (simp add: entry_hash_def ff) (simp add: record_of_def v)
  show "storable (record_of v)"
    using cap lens by (simp add: storable_def record_of_def v)
  show "v = verified_of prev seq (record_of v)"
    unfolding verified_of_def hh by (simp add: record_of_def v)
  have c4: "putLE32 [] (CRC32_calculate (f @ key @ val @ hb)) = take 4 rest"
    using crc le32.enc_dec [of "take 4 rest"] big by simp
  have slice: "drop a rest = take b (drop a rest) @ drop (b + a) rest" for a b
    by (metis append_take_drop_id drop_drop)
  have "rest = take 4 rest @ drop 4 rest" by simp
  also have "drop 4 rest = f @ drop 37 rest" using slice [of 4 33] by (simp add: f_def)
  also have "drop 37 rest = key @ drop (37 + kl) rest" using slice [of 37 kl] by (simp add: key_def add.commute)
  also have "drop (37 + kl) rest = val @ drop (37 + kl + vl) rest"
    using slice [of "37 + kl" vl] by (simp add: val_def add.commute add.left_commute)
  also have "drop (37 + kl + vl) rest = hb @ drop (69 + kl + vl) rest"
    using slice [of "37 + kl + vl" 32] by (simp add: hb_def add.assoc)
  finally have "rest = take 4 rest @ f @ key @ val @ hb @ drop (69 + kl + vl) rest" .
  moreover have "entry_bytes prev seq (record_of v) = take 4 rest @ f @ key @ val @ hb"
    by (simp add: entry_bytes_def entry_body_def ff hh) (simp add: record_of_def v c4)
  moreover have "entry_len v = 69 + kl + vl"
    using lens by (simp add: entry_len_def v)
  ultimately show "rest = entry_bytes prev seq (record_of v) @ drop (entry_len v) rest"
    by simp
qed

end
