(* ===== verification/WAL_Chain.thy ===== *)
theory WAL_Chain
  imports WAL_Format
begin

text \<open>
  What the format of \<open>WAL_Format\<close> promises about files: the reader inverts the writer, a file cut
  anywhere reads as the complete entries before the cut, an accepted file is the encoding of what
  was read, an entry out of place or damaged is reported at its position, and two files with the
  same checkpoint are the same file unless they exhibit a collision of SHA-256.
\<close>

section \<open>Reading back what was written\<close>

lemma v_fields_of [simp]:
  "v_hash (verified_of prev seq r) = entry_hash prev seq r" "v_seq (verified_of prev seq r) = seq"
  "v_epoch (verified_of prev seq r) = r_epoch r" "v_type (verified_of prev seq r) = r_type r"
  "v_key (verified_of prev seq r) = r_key r" "v_value (verified_of prev seq r) = r_value r"
  "v_ts (verified_of prev seq r) = r_ts r"
  by (simp_all add: verified_of_def)

lemma record_of_verified_of [simp]: "record_of (verified_of prev seq r) = r"
  by (simp add: record_of_def verified_of_def)

lemma record_of_verified_list [simp]: "map record_of (verified_list prev seq rs) = rs"
  by (induction prev seq rs rule: verified_list.induct) auto

lemma length_verified_list [simp]: "length (verified_list prev seq rs) = length rs"
  by (induction prev seq rs rule: verified_list.induct) auto

lemma entry_len_of [simp]: "entry_len (verified_of prev seq r) = length (entry_bytes prev seq r)"
  by (simp add: entry_len_def length_entry_bytes)

lemma entry_bytes_nonempty [simp]: "entry_bytes prev seq r \<noteq> []"
  using length_entry_bytes [of prev seq r] by auto

lemma total_len_Nil [simp]: "total_len [] = 0"
  by (simp add: total_len_def)

lemma total_len_Cons [simp]: "total_len (v # vs) = entry_len v + total_len vs"
  by (simp add: total_len_def)

lemma total_len_verified_list [simp]: "total_len (verified_list prev seq rs) = length (log_bytes prev seq rs)"
  by (induction prev seq rs rule: verified_list.induct) auto

lemma end_hash_simps [simp]: "end_hash prev [] = prev" "end_hash prev (v # vs) = end_hash (v_hash v) vs"
  by (simp_all add: end_hash_def)

lemma end_seq_simps [simp]: "end_seq seq [] = seq" "end_seq seq (v # vs) = end_seq (v_seq v + 1) vs"
  by (simp_all add: end_seq_def)

lemma end_hash_verified_list [simp]: "end_hash prev (verified_list prev seq rs) = log_head prev seq rs"
  by (induction prev seq rs rule: verified_list.induct) auto

lemma end_seq_verified_list [simp]: "end_seq seq (verified_list prev seq rs) = seq + of_nat (length rs)"
  by (induction prev seq rs rule: verified_list.induct) auto

lemma log_bytes_append:
  "log_bytes prev seq (rs @ qs) = log_bytes prev seq rs @ log_bytes (log_head prev seq rs) (seq + of_nat (length rs)) qs"
  by (induction prev seq rs rule: log_bytes.induct) (auto simp: ac_simps)

lemma log_head_append:
  "log_head prev seq (rs @ qs) = log_head (log_head prev seq rs) (seq + of_nat (length rs)) qs"
  by (induction prev seq rs rule: log_bytes.induct) (auto simp: ac_simps)

lemma verified_list_append:
  "verified_list prev seq (rs @ qs) =
    verified_list prev seq rs @ verified_list (log_head prev seq rs) (seq + of_nat (length rs)) qs"
  by (induction prev seq rs rule: log_bytes.induct) (auto simp: ac_simps)

lemma length_log_head: "length prev = 32 \<Longrightarrow> length (log_head prev seq rs) = 32"
  by (induction prev seq rs rule: log_head.induct) auto

lemma scan_log_Cons:
  assumes "storable r"
  shows "scan_log (entry_bytes prev seq r @ rest) prev seq =
    (case scan_log rest (entry_hash prev seq r) (seq + 1) of (vs, e) \<Rightarrow> (verified_of prev seq r # vs, e))"
  by (subst scan_log.simps) (simp add: scan_entry_bytes [OF assms])

lemma scan_log_bytes:
  assumes "list_all storable rs"
  shows "scan_log (log_bytes prev seq rs @ rest) prev seq =
    (case scan_log rest (log_head prev seq rs) (seq + of_nat (length rs)) of
       (vs, e) \<Rightarrow> (verified_list prev seq rs @ vs, e))"
  using assms
proof (induction prev seq rs rule: log_bytes.induct)
  case (2 prev seq r rs)
  then show ?case by (simp add: scan_log_Cons ac_simps split: prod.splits)
qed simp

lemma scan_log_complete:
  "list_all storable rs \<Longrightarrow> scan_log (log_bytes prev seq rs) prev seq = (verified_list prev seq rs, Clean)"
  using scan_log_bytes [of rs prev seq "[]"] by simp

section \<open>Accepted bytes are an encoding\<close>

lemma scan_entry_Bad: "scan_entry rest prev seq = Bad w \<Longrightarrow> w = Malformed \<or> w = Tampered"
  unfolding scan_entry_def Let_def
  by (auto simp only: iteration.distinct iteration.inject split: if_split_asm)

lemma scan_log_sound:
  "scan_log bs prev seq = (vs, e) \<Longrightarrow>
    list_all storable (map record_of vs) \<and> vs = verified_list prev seq (map record_of vs) \<and>
    bs = log_bytes prev seq (map record_of vs) @ drop (total_len vs) bs \<and>
    (e = Clean \<longrightarrow> bs = log_bytes prev seq (map record_of vs)) \<and>
    (\<forall>w. e = BadAt w \<longrightarrow> w \<noteq> Ok \<and> w \<noteq> TruncatedTail)"
proof (induction bs prev seq arbitrary: vs e rule: scan_log.induct)
  case (1 bs prev seq)
  show ?case
  proof (cases "bs = []")
    case True
    with "1.prems" show ?thesis by simp
  next
    case ne: False
    show ?thesis
    proof (cases "scan_entry bs prev seq")
      case Torn
      with "1.prems" ne show ?thesis by (simp add: scan_log.simps [of bs])
    next
      case (Bad w)
      then have "w \<noteq> Ok \<and> w \<noteq> TruncatedTail" by (auto dest: scan_entry_Bad)
      with "1.prems" ne Bad show ?thesis by (auto simp: scan_log.simps [of bs])
    next
      case (Verified v)
      note s = scan_entry_sound [OF this]
      obtain vs' where vs: "vs = v # vs'"
        and rec: "scan_log (drop (entry_len v) bs) (v_hash v) (v_seq v + 1) = (vs', e)"
        using "1.prems" ne Verified by (auto simp: scan_log.simps [of bs] split: prod.splits)
      have v: "v_hash v = entry_hash prev seq (record_of v)" "v_seq v = seq"
        using s(2) by (metis v_fields_of(1,2))+
      note ih = "1.IH" [OF ne Verified rec, unfolded v]
      from ih have "drop (entry_len v) bs =
          log_bytes (entry_hash prev seq (record_of v)) (seq + 1) (map record_of vs') @ drop (total_len vs) bs"
        by (simp add: vs add.commute)
      with s(3) have bs: "bs = log_bytes prev seq (map record_of vs) @ drop (total_len vs) bs"
        by (simp add: vs)
      have "bs = log_bytes prev seq (map record_of vs)" if "e = Clean"
      proof -
        have "drop (entry_len v) bs = log_bytes (entry_hash prev seq (record_of v)) (seq + 1) (map record_of vs')"
          using ih that by blast
        then have "entry_bytes prev seq (record_of v) @ drop (entry_len v) bs = log_bytes prev seq (map record_of vs)"
          unfolding vs list.map log_bytes.simps by (rule arg_cong)
        then show ?thesis by (rule trans [OF s(3)])
      qed
      with ih s(1,2) bs show ?thesis by (simp add: vs)
    qed
  qed
qed

section \<open>A file cut short\<close>

lemma scan_entry_cut:
  assumes "storable r" and "n < length (entry_bytes prev seq r)"
  shows "scan_entry (take n (entry_bytes prev seq r)) prev' seq' = Torn"
proof (cases "n < 37")
  case True
  then have "length (take n (entry_bytes prev seq r)) < 37" by simp
  then show ?thesis by (simp add: scan_entry_def)
next
  case False
  let ?f = "entry_fixed seq r"
  have e: "entry_bytes prev seq r =
      putLE32 [] (CRC32_calculate (entry_body prev seq r)) @ ?f @ r_key r @ r_value r @ entry_hash prev seq r"
    by (simp add: entry_bytes_def entry_body_def)
  have len: "length (take n (entry_bytes prev seq r)) = n" using assms(2) by simp
  have f: "take 33 (drop 4 (take n (entry_bytes prev seq r))) = ?f"
    using False by (simp add: e drop_take min_def)
  have read: "getLE32 (drop OFF_KEY_LEN ?f) = of_nat (length (r_key r))"
      "getLE32 (drop OFF_VALUE_LEN ?f) = of_nat (length (r_value r))"
    by (simp_all only: entry_fixed_def fixed_part_read)
  have small: "length (r_key r) \<le> kMaxFieldSize" "length (r_value r) \<le> kMaxFieldSize"
    using assms(1) by (simp_all add: storable_def)
  have "n < 69 + length (r_key r) + length (r_value r)" using assms(2) by (simp add: length_entry_bytes)
  then show ?thesis
    unfolding scan_entry_def Let_def f len read storable_lens [OF assms(1)]
    using False small by simp
qed

text \<open>\<open>complete_count n rs\<close>: how many whole entries the first \<open>n\<close> bytes hold.\<close>

fun complete_count :: "nat \<Rightarrow> log_record list \<Rightarrow> nat" where
  "complete_count n [] = 0"
| "complete_count n (r # rs) =
    (let m = 69 + length (r_key r) + length (r_value r) in if m \<le> n then Suc (complete_count (n - m) rs) else 0)"

lemma complete_count_le: "complete_count n rs \<le> length rs"
  by (induction n rs rule: complete_count.induct) (auto simp: Let_def)

lemma complete_count_all: "length (log_bytes prev seq rs) \<le> n \<Longrightarrow> complete_count n rs = length rs"
  by (induction prev seq rs arbitrary: n rule: log_bytes.induct) (auto simp: Let_def length_entry_bytes)

lemma complete_count_ge:
  "k \<le> length rs \<Longrightarrow> length (log_bytes prev seq (take k rs)) \<le> n \<Longrightarrow> k \<le> complete_count n rs"
proof (induction prev seq rs arbitrary: n k rule: log_bytes.induct)
  case (2 prev seq r rs)
  then show ?case by (cases k) (auto simp: Let_def length_entry_bytes)
qed simp

lemma scan_log_cut:
  assumes "list_all storable rs"
  shows "scan_log (take n (log_bytes prev seq rs)) prev seq =
    (verified_list prev seq (take (complete_count n rs) rs),
     if n \<le> length (log_bytes prev seq (take (complete_count n rs) rs)) \<or> complete_count n rs = length rs
     then Clean else TornTail)"
  using assms
proof (induction prev seq rs arbitrary: n rule: log_bytes.induct)
  case (2 prev seq r rs)
  let ?e = "entry_bytes prev seq r"
  show ?case
  proof (cases "length ?e \<le> n")
    case True
    then have "take n (log_bytes prev seq (r # rs)) =
        ?e @ take (n - length ?e) (log_bytes (entry_hash prev seq r) (seq + 1) rs)"
      by simp
    with 2 True show ?thesis
      by (auto simp: scan_log_Cons Let_def length_entry_bytes)
  next
    case False
    then have c: "complete_count n (r # rs) = 0" by (simp add: Let_def length_entry_bytes)
    show ?thesis
    proof (cases "n = 0")
      case False
      with \<open>\<not> length ?e \<le> n\<close> 2(2) have "scan_entry (take n ?e) prev seq = Torn"
        by (intro scan_entry_cut) auto
      with False \<open>\<not> length ?e \<le> n\<close> show ?thesis unfolding c
        by (subst scan_log.simps) simp
    qed (simp add: c)
  qed
qed simp

section \<open>An entry out of place\<close>

lemma scan_entry_misplaced:
  "storable r \<Longrightarrow> seq \<noteq> seq' \<Longrightarrow> scan_entry (entry_bytes prev seq r @ rest) prev' seq' = Bad Tampered"
  by (simp add: scan_entry_at)

text \<open>So any entry that does not stand at its own index stops the reader where it stands.\<close>

lemma scan_log_misplaced:
  assumes "list_all storable rs" and "storable r" and "seq \<noteq> of_nat (length rs)"
  shows "scan_log (log_bytes zero_hash 0 rs @ entry_bytes prev seq r @ rest) zero_hash 0 =
    (verified_list zero_hash 0 rs, BadAt Tampered)"
proof -
  have "scan_log (entry_bytes prev seq r @ rest) (log_head zero_hash 0 rs) (of_nat (length rs)) = ([], BadAt Tampered)"
    using assms by (subst scan_log.simps) (simp add: scan_entry_misplaced)
  then show ?thesis using assms(1) by (simp add: scan_log_bytes)
qed

section \<open>A damaged byte\<close>

text \<open>
  The bytes of an entry that are not one of its two length fields: the stored CRC (0 to 3), the
  sequence number, timestamp and epoch (4 to 27), and everything from the type byte on.
\<close>

definition not_length_byte :: "nat \<Rightarrow> bool" where
  "not_length_byte i \<longleftrightarrow> i < 28 \<or> 36 \<le> i"

lemma getLE32_update:
  assumes "length p = 4" and "i < 4" and "x \<noteq> p ! i"
  shows "getLE32 (p[i := x]) \<noteq> getLE32 p"
proof
  assume "getLE32 (p[i := x]) = getLE32 p"
  then have "p[i := x] = p" using le32.enc_dec [of p] le32.enc_dec [of "p[i := x]"] assms by simp
  with assms show False by (metis nth_list_update_eq)
qed

lemma list_update_split: "i < length xs \<Longrightarrow> xs[i := x] = take i xs @ x # drop (Suc i) xs"
  by (rule upd_conv_take_nth_drop)

lemma CRC32_calculate_update:
  assumes "i < length body" and "x \<noteq> body ! i"
  shows "CRC32_calculate (body[i := x]) \<noteq> CRC32_calculate body"
  using CRC32_detects_byte_change [OF assms(2), of "take i body" "drop (Suc i) body"] assms(1)
  by (simp add: upd_conv_take_nth_drop id_take_nth_drop [symmetric])

lemma getLE32_drop_update:
  assumes "i < k \<or> k + 4 \<le> i" and "k + 4 \<le> length f"
  shows "getLE32 (drop k (f[i := x])) = getLE32 (drop k f)"
proof -
  have "take 4 (drop k (f[i := x])) = take 4 (drop k f)"
    using assms by (intro nth_equalityI) auto
  moreover have "4 \<le> length (drop k f)" "4 \<le> length (drop k (f[i := x]))" using assms(2) by auto
  ultimately show ?thesis by (metis le32.dec_take)
qed

text \<open>A body whose checksum is not the stored one is refused before its hash is looked at.\<close>

lemma scan_entry_crc_mismatch:
  assumes len: "length c = 4" "length body = 65 + kl + vl"
    and kl: "unat (getLE32 (drop 24 body)) = kl" "kl \<le> kMaxFieldSize"
    and vl: "unat (getLE32 (drop 28 body)) = vl" "vl \<le> kMaxFieldSize"
    and crc: "CRC32_calculate body \<noteq> getLE32 c"
  shows "scan_entry (c @ body @ tail) prev seq = Bad Tampered"
proof -
  let ?rest = "c @ body @ tail" and ?f = "take 33 body"
  have f: "take 33 (drop 4 ?rest) = ?f" using len by simp
  have c: "take 4 ?rest = c" using len by simp
  have k: "unat (getLE32 (drop OFF_KEY_LEN ?f)) = kl"
    using kl(1) len le32.dec_take [of "drop 24 body"] le32.dec_take [of "drop 24 ?f"]
    by (simp add: layout drop_take)
  have v: "unat (getLE32 (drop OFF_VALUE_LEN ?f)) = vl"
    using vl(1) len le32.dec_take [of "drop 28 body"] le32.dec_take [of "drop 28 ?f"]
    by (simp add: layout drop_take)
  have slice: "drop a body = take b (drop a body) @ drop (a + b) body" for a b
    by (metis append_take_drop_id drop_drop add.commute)
  have whole: "?f @ take kl (drop 37 ?rest) @ take vl (drop (37 + kl) ?rest) @ take 32 (drop (37 + kl + vl) ?rest) = body"
  proof -
    have "body = ?f @ take kl (drop 33 body) @ take vl (drop (33 + kl) body) @ drop (33 + kl + vl) body"
      using slice [of 0 33] slice [of 33 kl] slice [of "33 + kl" vl] by (metis add_0 drop_0)
    with len show ?thesis by (simp add: add.assoc)
  qed
  show ?thesis
    unfolding scan_entry_def Let_def f c k v whole
    using len kl(2) vl(2) crc by simp
qed

theorem damaged_entry_tampered:
  assumes st: "storable r" and i: "i < length (entry_bytes prev seq r)" "not_length_byte i"
    and x: "x \<noteq> entry_bytes prev seq r ! i"
  shows "scan_entry ((entry_bytes prev seq r)[i := x] @ rest) prev' seq' = Bad Tampered"
proof -
  let ?c = "putLE32 [] (CRC32_calculate (entry_body prev seq r))" and ?b = "entry_body prev seq r"
  let ?kl = "length (r_key r)" and ?vl = "length (r_value r)"
  have len: "length ?b = 65 + ?kl + ?vl" by (simp add: entry_body_def)
  have cap: "?kl \<le> kMaxFieldSize" "?vl \<le> kMaxFieldSize" using st by (simp_all add: storable_def)
  have read: "unat (getLE32 (drop 24 ?b)) = ?kl" "unat (getLE32 (drop 28 ?b)) = ?vl"
  proof -
    have "getLE32 (drop n ?b) = getLE32 (drop n (entry_fixed seq r))" if "n + 4 \<le> 33" for n
      using that le32.dec_take [of "drop n ?b"] le32.dec_take [of "drop n (entry_fixed seq r)"]
      by (simp add: entry_body_def)
    from this [of 24] this [of 28] show "unat (getLE32 (drop 24 ?b)) = ?kl" "unat (getLE32 (drop 28 ?b)) = ?vl"
      using fixed_part_read(5,6) [of seq "r_ts r" "r_epoch r" "r_key r" "r_value r" "r_type r"] storable_lens [OF st]
      by (simp_all add: entry_fixed_def layout)
  qed
  show ?thesis
  proof (cases "i < 4")
    case True
    then have e: "(entry_bytes prev seq r)[i := x] @ rest = ?c[i := x] @ ?b @ rest"
      by (simp add: entry_bytes_def list_update_append1)
    have "x \<noteq> ?c ! i" using x True by (simp add: entry_bytes_def nth_append)
    then have "getLE32 (?c[i := x]) \<noteq> CRC32_calculate ?b"
      using getLE32_update [of ?c i x] True le32.dec_enc [of "CRC32_calculate ?b" "[]"] by simp
    then show ?thesis
      unfolding e using len read cap by (intro scan_entry_crc_mismatch [where kl = ?kl and vl = ?vl]) auto
  next
    case False
    then have e: "(entry_bytes prev seq r)[i := x] @ rest = ?c @ ?b[i - 4 := x] @ rest"
      by (simp add: entry_bytes_def list_update_append)
    have j: "i - 4 < length ?b" "x \<noteq> ?b ! (i - 4)"
      using i x False by (auto simp: entry_bytes_def nth_append)
    have "getLE32 (drop 24 (?b[i - 4 := x])) = getLE32 (drop 24 ?b)"
      "getLE32 (drop 28 (?b[i - 4 := x])) = getLE32 (drop 28 ?b)"
      using i(2) False len by (intro getLE32_drop_update; auto simp: not_length_byte_def)+
    moreover have "CRC32_calculate (?b[i - 4 := x]) \<noteq> getLE32 ?c"
      using CRC32_calculate_update [OF j] le32.dec_enc [of "CRC32_calculate ?b" "[]"] by simp
    ultimately show ?thesis
      unfolding e using len read cap by (intro scan_entry_crc_mismatch [where kl = ?kl and vl = ?vl]) auto
  qed
qed

section \<open>The checkpoint\<close>

text \<open>The messages the chain hashes, oldest first.\<close>

fun chain_messages :: "Sha256Digest \<Rightarrow> u64 \<Rightarrow> log_record list \<Rightarrow> bytes list" where
  "chain_messages prev seq [] = []"
| "chain_messages prev seq (r # rs) =
    (prev @ entry_fixed seq r @ r_key r @ r_value r) # chain_messages (entry_hash prev seq r) (seq + 1) rs"

definition sha256_collision :: "bytes \<Rightarrow> bytes \<Rightarrow> bool" where
  "sha256_collision m m' \<longleftrightarrow> m \<noteq> m' \<and> SHA256_hash m = SHA256_hash m'"

lemma entry_hash_message: "entry_hash prev seq r = SHA256_hash (prev @ entry_fixed seq r @ r_key r @ r_value r)"
  using SHA256_incremental_is_fips [of "[prev, entry_fixed seq r, r_key r, r_value r]"]
  by (simp add: entry_hash_def chain_digest_def SHA256_hash_fips)

lemma message_determines:
  assumes "storable r" "storable q" "length p = 32" "length p' = 32"
    and m: "p @ entry_fixed seq r @ r_key r @ r_value r = p' @ entry_fixed seq' q @ r_key q @ r_value q"
  shows "p = p' \<and> seq = seq' \<and> r = q"
proof -
  have p: "p = p'" and f: "entry_fixed seq r = entry_fixed seq' q" and kv: "r_key r @ r_value r = r_key q @ r_value q"
    using m assms(3,4) by simp_all
  note read = fixed_part_read [of seq "r_ts r" "r_epoch r" "r_key r" "r_value r" "r_type r"]
    and read' = fixed_part_read [of seq' "r_ts q" "r_epoch q" "r_key q" "r_value q" "r_type q"]
  note f = f [unfolded entry_fixed_def]
  have s: "seq = seq'" "r_epoch r = r_epoch q" "type_byte (r_type r) = type_byte (r_type q)"
    using read read' f by simp_all
  have ts: "r_ts r = r_ts q" using read(2,3) read'(2,3) f timestamp_halves by metis
  have "length (r_key r) = length (r_key q)"
    using read(5) read'(5) f storable_lens(1) [OF assms(1)] storable_lens(1) [OF assms(2)] by simp
  with kv have "r_key r = r_key q" "r_value r = r_value q" by simp_all
  moreover have "r_type r = r_type q"
    using s(3) assms(1,2) unfolding storable_def by metis
  ultimately show ?thesis using p s ts by (cases r, cases q) simp
qed

theorem log_head_binds:
  assumes "list_all storable rs" "list_all storable qs" "length rs = length qs" "length p = 32" "length p' = 32"
    and "log_head p seq rs = log_head p' seq' qs"
  shows "(rs = qs \<and> p = p') \<or>
    (\<exists>m \<in> set (chain_messages p seq rs). \<exists>m' \<in> set (chain_messages p' seq' qs). sha256_collision m m')"
  using assms
proof (induction rs arbitrary: qs p p' seq seq')
  case Nil
  then show ?case by simp
next
  case (Cons r rs)
  then obtain q qs' where qs: "qs = q # qs'" by (cases qs) auto
  let ?m = "p @ entry_fixed seq r @ r_key r @ r_value r" and ?m' = "p' @ entry_fixed seq' q @ r_key q @ r_value q"
  from Cons.IH [of qs' "entry_hash p seq r" "entry_hash p' seq' q" "seq + 1" "seq' + 1"] Cons.prems
  consider (same) "rs = qs'" "entry_hash p seq r = entry_hash p' seq' q"
    | (coll) "\<exists>m \<in> set (chain_messages (entry_hash p seq r) (seq + 1) rs).
        \<exists>m' \<in> set (chain_messages (entry_hash p' seq' q) (seq' + 1) qs'). sha256_collision m m'"
    by (auto simp: qs)
  then show ?case
  proof cases
    case same
    show ?thesis
    proof (cases "?m = ?m'")
      case True
      with message_determines [OF _ _ Cons.prems(4,5) True] Cons.prems(1,2) same show ?thesis by (simp add: qs)
    next
      case False
      with same have "sha256_collision ?m ?m'" by (simp add: sha256_collision_def entry_hash_message)
      then show ?thesis by (auto simp: qs)
    qed
  next
    case coll
    then show ?thesis by (auto simp: qs)
  qed
qed

end
