(* ===== verification/WAL_Walk.thy ===== *)
theory WAL_Walk
  imports WAL_Chain
begin

text \<open>
  \<open>walkChain\<close> in any environment. Reads may fail, files may be cut off from the process by a crash
  between two calls: what the walk delivers to the visitor is still a prefix of what the reader of
  \<open>WAL_Format\<close> finds in the file, and a verdict of damage is the reader's verdict. In an environment
  without failures the walk is the reader (\<open>chain_result\<close>).
\<close>

section \<open>One iteration\<close>

lemma read_field_any:
  assumes "read_field fd n s = (ok, bs, t)"
  shows "only_file fd s t \<and> fstable t fd = fstable s fd \<and> fcontent t fd = fcontent s fd \<and>
    (ok \<longrightarrow> bs = take n (drop (foffset s fd) (fcontent s fd)) \<and> foffset t fd = foffset s fd + n)"
  using assms readExact_any [of fd n s ok bs t] by (auto simp: read_field_def split: if_splits)

lemma walk_entry_any:
  assumes w: "walk_entry fd (length (fcontent s fd)) (int (foffset s fd)) prev seq s = (it, t)"
    and le: "foffset s fd \<le> length (fcontent s fd)"
  shows "(it = Torn \<or> it = scan_entry (drop (foffset s fd) (fcontent s fd)) prev seq) \<and> only_file fd s t \<and>
    fstable t fd = fstable s fd \<and> fcontent t fd = fcontent s fd \<and>
    (\<forall>v. it = Verified v \<longrightarrow> foffset t fd = foffset s fd + entry_len v)"
proof -
  define c p rest where "c = fcontent s fd" and "p = foffset s fd" and "rest = drop p c"
  have lenrest: "length rest = length c - p" by (simp add: rest_def)
  obtain ok1 b1 s1 where r1: "readExact fd 4 s = (ok1, b1, s1)" by (metis prod_cases3)
  obtain ok2 fixed s2 where r2: "readExact fd ENTRY_FIXED_SIZE s1 = (ok2, fixed, s2)" by (metis prod_cases3)
  define kl where "kl = unat (getLE32 (drop OFF_KEY_LEN fixed))"
  define vl where "vl = unat (getLE32 (drop OFF_VALUE_LEN fixed))"
  obtain ok3 key s3 where r3: "read_field fd kl s2 = (ok3, key, s3)" by (metis prod_cases3)
  obtain ok4 val s4 where r4: "read_field fd vl s3 = (ok4, val, s4)" by (metis prod_cases3)
  obtain ok5 hb s5 where r5: "readExact fd HASH_SIZE s4 = (ok5, hb, s5)" by (metis prod_cases3)
  note a1 = readExact_any [OF r1] and a2 = readExact_any [OF r2] and a3 = read_field_any [OF r3]
    and a4 = read_field_any [OF r4] and a5 = readExact_any [OF r5]
  have only: "only_file fd s s1" "only_file fd s s2" "only_file fd s s3" "only_file fd s s4" "only_file fd s s5"
    using a1 a2 a3 a4 a5 by (blast intro: only_file_trans)+
  have content: "fcontent s1 fd = c" "fcontent s2 fd = c" "fcontent s3 fd = c" "fcontent s4 fd = c" "fcontent s5 fd = c"
    and stable: "fstable s1 fd = fstable s fd" "fstable s2 fd = fstable s fd" "fstable s3 fd = fstable s fd"
      "fstable s4 fd = fstable s fd" "fstable s5 fd = fstable s fd"
    using a1 a2 a3 a4 a5 by (auto simp: c_def)
  let ?full = "ok1 \<and> ok2 \<and> kl \<le> kMaxFieldSize \<and> vl \<le> kMaxFieldSize \<and> 69 + kl + vl \<le> length rest \<and> ok3 \<and> ok4 \<and> ok5"
  have fit_iff: "int (4 + ENTRY_FIXED_SIZE + HASH_SIZE + kl + vl) > int (length (fcontent s fd)) - int (foffset s fd)
      \<longleftrightarrow> 69 + kl + vl > length rest"
    using le by (auto simp: layout lenrest c_def p_def)
  show ?thesis
  proof (cases ?full)
    case False
    let ?big = "kl > kMaxFieldSize \<or> vl > kMaxFieldSize"
    have w': "walk_entry fd (length (fcontent s fd)) (int (foffset s fd)) prev seq s = (it, t)" by (rule w)
    note unf = w' [unfolded walk_entry_def r1 prod.case]
    have c1: "it = Torn \<and> t = s1" if "\<not> ok1" using unf that by simp
    have c2: "it = Torn \<and> t = s2" if "ok1" "\<not> ok2" using unf that r2 by simp
    have c3: "it = Bad Malformed \<and> t = s2" if "ok1" "ok2" ?big
      using unf that r2 by (auto simp: Let_def kl_def vl_def)
    have c4: "it = Torn \<and> t \<in> {s2, s3, s4, s5}" if "ok1" "ok2" "\<not> ?big"
      using unf that r2 r3 r4 r5 fit_iff False
      unfolding Let_def kl_def [symmetric] vl_def [symmetric] by (simp add: kl_def vl_def split: if_splits)
    from c1 c2 c3 c4 have "it = Torn \<and> t \<in> {s1, s2, s3, s4, s5} \<or>
        it = Bad Malformed \<and> t = s2 \<and> ok1 \<and> ok2 \<and> ?big"
      by blast
    moreover have "scan_entry rest prev seq = Bad Malformed"
      if "ok1" "ok2" "kl > kMaxFieldSize \<or> vl > kMaxFieldSize"
    proof -
      have fx: "fixed = take 33 (drop 4 rest)" and "length fixed = 33"
        using that a1 a2 by (auto simp: layout rest_def c_def p_def add.commute)
      then have "37 \<le> length rest" by auto
      with that(3) show ?thesis by (simp add: scan_entry_def Let_def kl_def vl_def fx)
    qed
    ultimately show ?thesis using only content stable by (auto simp: rest_def c_def p_def)
  next
    case full: True
    then have off: "foffset s1 fd = p + 4" "foffset s2 fd = p + 37" "foffset s3 fd = p + 37 + kl"
        "foffset s4 fd = p + 37 + kl + vl" "foffset s5 fd = p + 69 + kl + vl"
      using a1 a2 a3 a4 a5 by (simp_all add: layout p_def)
    have fx: "fixed = take 33 (drop 4 rest)" and b1: "b1 = take 4 rest"
      and k: "key = take kl (drop 37 rest)" and v: "val = take vl (drop (37 + kl) rest)"
      and h: "hb = take 32 (drop (37 + kl + vl) rest)"
      using full a1 a2 a3 a4 a5 off content
      by (simp_all add: layout rest_def c_def p_def add.commute add.left_commute)
    have lens: "length key = kl" "length val = vl" using full k v by auto
    have "69 + kl + vl \<le> length rest" and p37: "37 \<le> length rest" using full by auto
    with full w r1 r2 r3 r4 r5 fit_iff have ti: "t = s5 \<and> it = scan_entry rest prev seq"
      unfolding walk_entry_def scan_entry_def Let_def kl_def [symmetric] vl_def [symmetric] fx [symmetric]
        h [symmetric] b1 [symmetric] k [symmetric] v [symmetric]
      by (simp add: kl_def [symmetric] vl_def [symmetric] h [symmetric] b1 [symmetric] fx [symmetric]
        k [symmetric] v [symmetric] split: if_splits)
    moreover have "entry_len x = 69 + kl + vl" if "it = Verified x" for x
    proof -
      from that ti have "scan_entry rest prev seq = Verified x" by simp
      then have "v_key x = key" "v_value x = val"
        unfolding scan_entry_def Let_def kl_def [symmetric] vl_def [symmetric] fx [symmetric]
          h [symmetric] b1 [symmetric] k [symmetric] v [symmetric]
        by (auto split: if_splits)
      with lens show ?thesis by (simp add: entry_len_def)
    qed
    ultimately show ?thesis using only content stable off by (auto simp: rest_def c_def p_def)
  qed
qed

section \<open>The loop\<close>

text \<open>What the loop may end with, given what the reader finds from its start.\<close>

definition exit_of :: "Sha256Digest \<Rightarrow> u64 \<Rightarrow> int \<Rightarrow> verified list \<Rightarrow> scan_end \<Rightarrow> walk_exit" where
  "exit_of prev seq pos vs e = (case e of
     Clean \<Rightarrow> WalkEnd False pos (end_hash prev vs) (end_seq seq vs)
   | TornTail \<Rightarrow> WalkEnd True pos (end_hash prev vs) (end_seq seq vs)
   | BadAt w \<Rightarrow> WalkFail \<lparr>status = w, entriesVerified = end_seq seq vs, tamperOffset = of_int pos,
       tamperSeq = end_seq seq vs, headHash = end_hash prev vs\<rparr>)"

definition exit_allowed :: "Sha256Digest \<Rightarrow> u64 \<Rightarrow> nat \<Rightarrow> verified list \<Rightarrow> scan_end \<Rightarrow> verified list \<Rightarrow> walk_exit \<Rightarrow> bool" where
  "exit_allowed prev seq p vs e us ex \<longleftrightarrow>
     us = vs \<and> ex = exit_of prev seq (int (p + total_len vs)) vs e \<or>
     us = take (length us) vs \<and>
       (\<exists>pos. ex = WalkEnd True pos (end_hash prev us) (end_seq seq us) \<and> (pos = -1 \<or> pos = int (p + total_len us)))"

lemma exit_allowed_Cons:
  assumes "exit_allowed (v_hash v) (v_seq v + 1) (p + entry_len v) vs e us ex"
  shows "exit_allowed prev seq p (v # vs) e (v # us) ex"
  using assms by (cases e) (auto simp: exit_allowed_def exit_of_def ac_simps)

lemma walk_loop_any:
  assumes "walk_loop fd visitor m (length (fcontent s fd)) (int (foffset s fd)) prev seq st s = (ex, st', t)"
    and "foffset s fd \<le> length (fcontent s fd)"
    and "scan_log (drop (foffset s fd) (fcontent s fd)) prev seq = (vs, e)"
  shows "only_file fd s t \<and> fstable t fd = fstable s fd \<and> fcontent t fd = fcontent s fd \<and>
    (\<exists>us. st' = foldl (\<lambda>x v. visit visitor m v x) st us \<and> exit_allowed prev seq (foffset s fd) vs e us ex)"
  using assms
proof (induction "length (fcontent s fd) - foffset s fd" arbitrary: prev seq st s ex st' t vs e rule: less_induct)
  case less
  let ?c = "fcontent s fd" and ?p = "foffset s fd"
  let ?loop = "walk_loop fd visitor m (length ?c) (int ?p) prev seq st s"
  show ?case
  proof (cases "?p < length ?c")
    case False
    then have "vs = []" "e = Clean" using less.prems(3) by simp_all
    moreover have "ex = WalkEnd False (int ?p) prev seq" "st' = st" "t = s"
      using less.prems(1) False by (auto simp: walk_loop.simps [of fd visitor m "length ?c"])
    ultimately show ?thesis by (auto simp: exit_allowed_def exit_of_def)
  next
    case True
    then have ne: "drop ?p ?c \<noteq> []" by simp
    obtain it s1 where w: "walk_entry fd (length ?c) (int ?p) prev seq s = (it, s1)" by fastforce
    note we = walk_entry_any [OF w less.prems(2)]
    show ?thesis
    proof (cases it)
      case Torn
      then have "ex = WalkEnd True (int ?p) prev seq" "st' = st" "t = s1"
        using less.prems(1) True w by (simp_all add: walk_loop.simps [of fd visitor m "length ?c"])
      with we show ?thesis by (auto simp: exit_allowed_def intro!: exI [of _ "[]"])
    next
      case (Bad why)
      with we have "scan_entry (drop ?p ?c) prev seq = Bad why" by simp
      then have "vs = []" "e = BadAt why" using less.prems(3) ne by (simp_all add: scan_log.simps [of "drop ?p ?c"])
      moreover have "ex = WalkFail \<lparr>status = why, entriesVerified = seq, tamperOffset = of_int (int ?p),
          tamperSeq = seq, headHash = prev\<rparr>" "st' = st" "t = s1"
        using less.prems(1) True w Bad by (simp_all add: walk_loop.simps [of fd visitor m "length ?c"])
      ultimately show ?thesis using we by (auto simp: exit_allowed_def exit_of_def)
    next
      case (Verified v)
      with we have sc: "scan_entry (drop ?p ?c) prev seq = Verified v" by simp
      obtain vs' where vs: "vs = v # vs'"
        and sl: "scan_log (drop (entry_len v) (drop ?p ?c)) (v_hash v) (v_seq v + 1) = (vs', e)"
        using less.prems(3) ne sc by (auto simp: scan_log.simps [of "drop ?p ?c"] split: prod.splits)
      obtain pp s2 where l: "sys_lseek fd SEEK_CUR s1 = (pp, s2)" by fastforce
      note sk = sys_lseek_any [OF l]
      have of2: "only_file fd s s2" and st2: "fstable s2 fd = fstable s fd" and c2: "fcontent s2 fd = ?c"
        using sk we by (auto intro: only_file_trans)
      show ?thesis
      proof (cases pp)
        case None
        then have "ex = WalkEnd True (-1) (v_hash v) (v_seq v + 1)" "st' = visit visitor m v st" "t = s2"
          using less.prems(1) True w Verified l by (simp_all add: walk_loop.simps [of fd visitor m "length ?c"] Let_def)
        with of2 st2 c2 show ?thesis by (auto simp: exit_allowed_def vs intro!: exI [of _ "[v]"])
      next
        case (Some q)
        then have q: "q = ?p + entry_len v" and o2: "foffset s2 fd = ?p + entry_len v"
          using sk we Verified by auto
        have "entry_len v \<le> length ?c - ?p" using scan_entry_len [OF sc] by simp
        with less.prems(2) have le2: "foffset s2 fd \<le> length (fcontent s2 fd)" by (simp add: o2 c2)
        have rec: "walk_loop fd visitor m (length (fcontent s2 fd)) (int (foffset s2 fd)) (v_hash v) (v_seq v + 1)
            (visit visitor m v st) s2 = (ex, st', t)"
          using less.prems(1) True w Verified l Some q
          by (simp add: walk_loop.simps [of fd visitor m "length ?c" "int ?p"] Let_def c2 o2)
        have lt: "length (fcontent s2 fd) - foffset s2 fd < length ?c - ?p"
          using True by (simp add: c2 o2 entry_len_def)
        have sl2: "scan_log (drop (foffset s2 fd) (fcontent s2 fd)) (v_hash v) (v_seq v + 1) = (vs', e)"
          using sl by (simp add: c2 o2 add.commute)
        from less.hyps [OF lt rec le2 sl2] obtain us where
          ih: "only_file fd s2 t" "fstable t fd = fstable s2 fd" "fcontent t fd = fcontent s2 fd"
            "st' = foldl (\<lambda>x v. visit visitor m v x) (visit visitor m v st) us"
            "exit_allowed (v_hash v) (v_seq v + 1) (?p + entry_len v) vs' e us ex"
          by (auto simp: o2)
        have "st' = foldl (\<lambda>x v. visit visitor m v x) st (v # us)" using ih(4) by simp
        moreover have "exit_allowed prev seq ?p vs e (v # us) ex" unfolding vs using ih(5) by (rule exit_allowed_Cons)
        ultimately show ?thesis using ih(1-3) of2 st2 c2 by (metis only_file_trans)
      qed
    qed
  qed
qed

section \<open>The whole walk\<close>

text \<open>The reader's verdict on a file, as the result record \<open>walkChain\<close> builds.\<close>

definition result_of :: "verified list \<Rightarrow> scan_end \<Rightarrow> RecoveryResult" where
  "result_of vs e =
    \<lparr>status = (case e of Clean \<Rightarrow> Ok | TornTail \<Rightarrow> TruncatedTail | BadAt w \<Rightarrow> w),
     entriesVerified = end_seq 0 vs,
     tamperOffset = (case e of BadAt w \<Rightarrow> of_nat (16 + total_len vs) | _ \<Rightarrow> 0),
     tamperSeq = (case e of BadAt w \<Rightarrow> end_seq 0 vs | _ \<Rightarrow> 0),
     headHash = end_hash zero_hash vs\<rparr>"

definition file_scan :: "bytes \<Rightarrow> verified list \<times> scan_end" where
  "file_scan c = scan_log (drop 16 c) zero_hash 0"

definition chain_result :: "bytes \<Rightarrow> RecoveryResult" where
  "chain_result c = (case file_scan c of (vs, e) \<Rightarrow> result_of vs e)"

definition torn_cut :: "bytes \<Rightarrow> bytes" where
  "torn_cut c = (case file_scan c of (vs, e) \<Rightarrow> if e = TornTail then take (16 + total_len vs) c else c)"

lemma file_scan_fits: "file_scan c = (vs, e) \<Longrightarrow> vs \<noteq> [] \<or> e \<noteq> Clean \<Longrightarrow> 16 + total_len vs \<le> length c"
proof -
  assume a: "file_scan c = (vs, e)" and b: "vs \<noteq> [] \<or> e \<noteq> Clean"
  have "drop 16 c \<noteq> []" using a b by (auto simp: file_scan_def)
  moreover have "drop 16 c = log_bytes zero_hash 0 (map record_of vs) @ drop (total_len vs) (drop 16 c)"
    and "vs = verified_list zero_hash 0 (map record_of vs)"
    using scan_log_sound [OF a [unfolded file_scan_def]] by blast+
  then have "total_len vs \<le> length (drop 16 c)"
    by (metis total_len_verified_list le_add1 length_append)
  ultimately show ?thesis by auto
qed

lemma no_room_scan: "length c \<le> 16 \<Longrightarrow> file_scan c = ([], Clean)"
  by (simp add: file_scan_def)

theorem walkChain_kind:
  assumes wc: "walkChain w visitor m allow st s = (r, st', t)"
    and op: "fds s (m_fd w) \<noteq> None" and nn: "m_fd w \<noteq> -1" and k: "kind s"
    and sc: "file_scan (fcontent s (m_fd w)) = (vs, e)"
  shows "r = result_of vs e \<and> st' = foldl (\<lambda>x v. visit visitor m v x) st vs \<and> kind t \<and>
    only_file (m_fd w) s t \<and> fstable t (m_fd w) = fstable s (m_fd w) \<and>
    fcontent t (m_fd w) =
      (if e = TornTail \<and> allow then take (16 + total_len vs) (fcontent s (m_fd w)) else fcontent s (m_fd w))"
proof -
  let ?fd = "m_fd w" and ?c = "fcontent s (m_fd w)"
  obtain z s1 where st: "sys_fstat_size ?fd s = (z, s1)" by fastforce
  from sys_fstat_size_any [OF st] op k have z: "z = Some (length ?c)" and k1: "kind s1" and same: "same_files s s1" by auto
  note eqs = same_files_simps [OF same]
  obtain p s2 where l: "sys_lseek ?fd (SEEK_SET kHeaderSize) s1 = (p, s2)" by fastforce
  from sys_lseek_any [OF l] k1 op eqs have p: "p = Some 16" and k2: "kind s2" and o2: "foffset s2 ?fd = 16"
    and c2: "fcontent s2 ?fd = ?c" and st2: "fstable s2 ?fd = fstable s ?fd" and "only_file ?fd s1 s2"
    by (auto simp: layout split: option.splits)
  then have of2: "only_file ?fd s s2" using only_file_trans same_files_only_file [OF same] by blast
  have op2: "fds s2 ?fd \<noteq> None" using op of2 only_file_fds [of ?fd s s2] by blast
  obtain ex st1 s3 where wl: "walk_loop ?fd visitor m (length ?c) (int kHeaderSize) zero_hash 0 st s2 = (ex, st1, s3)"
    by (metis prod_cases3)
  have wl': "kind s3 \<and> only_file ?fd s2 s3 \<and> fstable s3 ?fd = fstable s2 ?fd \<and> fcontent s3 ?fd = ?c \<and>
      st1 = foldl (\<lambda>x v. visit visitor m v x) st vs \<and> ex = exit_of zero_hash 0 (int (16 + total_len vs)) vs e"
  proof (cases "16 \<le> length ?c")
    case True
    have "walk_loop ?fd visitor m (length (fcontent s2 ?fd)) (int (foffset s2 ?fd)) zero_hash 0 st s2 = (ex, st1, s3)"
      using wl by (simp add: c2 o2 layout)
    from walk_loop_kind [OF this op2 k2 _ sc [unfolded file_scan_def, folded c2 o2]] True
    show ?thesis by (simp add: c2 o2 exit_of_def Let_def)
  next
    case False
    then have "ex = WalkEnd False 16 zero_hash 0" "st1 = st" "s3 = s2"
      using wl by (simp_all add: walk_loop.simps [of ?fd visitor m "length ?c"] layout)
    moreover have "vs = []" "e = Clean" using sc no_room_scan [of ?c] False by simp_all
    ultimately show ?thesis using k2 c2 by (simp add: exit_of_def)
  qed
  have of3: "only_file ?fd s s3" using wl' of2 by (blast intro: only_file_trans)
  have st3: "fstable s3 ?fd = fstable s ?fd" using wl' st2 by simp
  have op3: "fds s3 ?fd \<noteq> None" using op only_file_fds [OF of3] by blast
  note wc' = wc [unfolded walkChain_def st z prod.case option.case l p wl]
  show ?thesis
  proof (cases e)
    case TornTail
    obtain okt s4 where ft: "sys_ftruncate ?fd (16 + total_len vs) s3 = (okt, s4)" by fastforce
    obtain q s5 where ls: "sys_lseek ?fd SEEK_END s4 = (q, s5)" by fastforce
    have fit: "16 + total_len vs \<le> length ?c" using file_scan_fits [OF sc] TornTail by simp
    have ft': "only_file ?fd s s4 \<and> kind s4 \<and> fstable s4 ?fd = fstable s ?fd \<and>
        fcontent s4 ?fd = take (16 + total_len vs) ?c \<and> fds s4 ?fd \<noteq> None"
      using sys_ftruncate_any [OF ft] wl' op3 fit of3 st3 only_file_fds [of ?fd s3 s4]
      by (auto intro: only_file_trans)
    have ls': "only_file ?fd s s5 \<and> kind s5 \<and> fstable s5 ?fd = fstable s ?fd \<and>
        fcontent s5 ?fd = take (16 + total_len vs) ?c"
      using sys_lseek_any [OF ls] ft' by (auto intro: only_file_trans)
    have n: "nat (int (16 + total_len vs)) = 16 + total_len vs" "\<not> int (16 + total_len vs) < 0" by simp_all
    have "r = result_of vs e" "st' = st1" "t = (if allow then s5 else s3)"
      using wc' TornTail wl' nn unfolding exit_of_def
      by (auto simp del: of_nat_add simp: n ft ls result_of_def RecoveryResult_default_def Let_def split: if_splits)
    with wl' ls' of3 st3 TornTail show ?thesis by auto
  qed (use wc' wl' nn of3 st3 in \<open>auto simp: exit_of_def result_of_def RecoveryResult_default_def Let_def\<close>)
qed

lemma total_len_take: "total_len (take n vs) \<le> total_len vs"
  by (metis append_take_drop_id le_add1 map_append sum_list_append total_len_def)

lemma walk_from_header:
  assumes wl: "walk_loop fd visitor m (length (fcontent s fd)) (int kHeaderSize) zero_hash 0 st s = (ex, st', t)"
    and o: "foffset s fd = 16" and sc: "file_scan (fcontent s fd) = (vs, e)"
  shows "only_file fd s t \<and> fstable t fd = fstable s fd \<and> fcontent t fd = fcontent s fd \<and>
    (\<exists>us. us = take (length us) vs \<and> st' = foldl (\<lambda>x v. visit visitor m v x) st us \<and>
      (us = vs \<and> e \<noteq> TornTail \<and> ex = exit_of zero_hash 0 (int (16 + total_len vs)) vs e \<or>
       16 + total_len us \<le> length (fcontent s fd) \<and>
         (\<exists>pos. ex = WalkEnd True pos (end_hash zero_hash us) (end_seq 0 us) \<and>
            (pos = -1 \<or> pos = int (16 + total_len us)))))"
proof (cases "16 < length (fcontent s fd)")
  case False
  then have "\<not> 16 < int (length (fcontent s fd))" by simp
  with wl have "ex = WalkEnd False 16 zero_hash 0" "st' = st" "t = s"
    by (simp_all add: walk_loop.simps [of fd visitor m] layout)
  moreover have "vs = []" "e = Clean" using sc no_room_scan [of "fcontent s fd"] False by simp_all
  ultimately show ?thesis by (simp add: exit_of_def)
next
  case True
  then have fit: "16 + total_len vs \<le> length (fcontent s fd)"
    using file_scan_fits [OF sc] by (cases "vs = []") auto
  have "walk_loop fd visitor m (length (fcontent s fd)) (int (foffset s fd)) zero_hash 0 st s = (ex, st', t)"
    using wl by (simp add: o layout)
  from walk_loop_any [OF this _ sc [unfolded file_scan_def, folded o]] True o
  obtain us where us: "only_file fd s t" "fstable t fd = fstable s fd" "fcontent t fd = fcontent s fd"
      "st' = foldl (\<lambda>x v. visit visitor m v x) st us" "exit_allowed zero_hash 0 16 vs e us ex"
    by auto
  have pre: "us = take (length us) vs" using us(5) by (auto simp: exit_allowed_def)
  with total_len_take [of "length us" vs] fit have "16 + total_len us \<le> length (fcontent s fd)" by simp
  with us pre show ?thesis by (cases e) (auto simp: exit_allowed_def exit_of_def)
qed

text \<open>The truncation at the end of a torn walk, in any environment.\<close>

lemma cut_any:
  assumes cut: "(if pos < 0 then next_ctl s else sys_ftruncate fd (nat pos) s) = (ok, s1)"
    and sk: "sys_lseek fd SEEK_END s1 = (q, t)" and pos: "pos = -1 \<or> pos = int n" and n: "n \<le> length (fcontent s fd)"
  shows "only_file fd s t \<and> fstable t fd = fstable s fd \<and>
    (fcontent t fd = fcontent s fd \<or> fcontent t fd = take n (fcontent s fd))"
proof -
  have "only_file fd s s1 \<and> fstable s1 fd = fstable s fd \<and>
      (fcontent s1 fd = fcontent s fd \<or> fcontent s1 fd = take n (fcontent s fd))"
  proof (cases "pos < 0")
    case True
    with cut next_ctl_same [of s ok s1] have same: "same_files s s1" by simp
    then show ?thesis using same_files_only_file [OF same] same_files_simps(7,8) [OF same] by simp
  next
    case False
    with cut pos have "sys_ftruncate fd n s = (ok, s1)" by auto
    from sys_ftruncate_any [OF this] n show ?thesis by auto
  qed
  with sys_lseek_any [OF sk] show ?thesis by (auto intro: only_file_trans)
qed

text \<open>
  In any environment: the visitor has seen a prefix \<open>us\<close> of the entries the reader finds, the file is
  as before or, only when truncation is allowed and the walk reports a torn tail, cut after \<open>us\<close>; the
  verdict is the reader's, or a torn tail after \<open>us\<close>, or the default result when the file could not be
  looked at.
\<close>

theorem walkChain_any:
  assumes wc: "walkChain w visitor m allow st s = (r, st', t)"
    and sc: "file_scan (fcontent s (m_fd w)) = (vs, e)"
  shows "only_file (m_fd w) s t \<and> fstable t (m_fd w) = fstable s (m_fd w) \<and>
    (\<exists>us. us = take (length us) vs \<and> st' = foldl (\<lambda>x v. visit visitor m v x) st us \<and>
      (fcontent t (m_fd w) = fcontent s (m_fd w) \<or>
        allow \<and> r = result_of us TornTail \<and> fcontent t (m_fd w) = take (16 + total_len us) (fcontent s (m_fd w))) \<and>
      (r = RecoveryResult_default \<and> us = [] \<or> r = result_of vs e \<and> us = vs \<or> r = result_of us TornTail))"
proof -
  let ?fd = "m_fd w" and ?c = "fcontent s (m_fd w)"
  have default: ?thesis if "r = RecoveryResult_default" "st' = st" "only_file ?fd s t" "fstable t ?fd = fstable s ?fd"
      "fcontent t ?fd = ?c"
    using that by (auto intro!: exI [of _ "[]"])
  show ?thesis
  proof (cases "?fd = -1")
    case True
    with wc show ?thesis by (intro default) (simp_all add: walkChain_def)
  next
    case nn: False
    obtain z s1 where st: "sys_fstat_size ?fd s = (z, s1)" by fastforce
    note sz = sys_fstat_size_any [OF st]
    then have eqs: "only_file ?fd s s1" "fcontent s1 ?fd = ?c" "fstable s1 ?fd = fstable s ?fd"
      using same_files_only_file [of s s1] same_files_simps(7,8) [of s s1] by auto
    show ?thesis
    proof (cases z)
      case None
      with wc nn st eqs show ?thesis by (intro default) (auto simp: walkChain_def)
    next
      case (Some n)
      then have n: "n = length ?c" using sz by simp
      obtain p s2 where l: "sys_lseek ?fd (SEEK_SET kHeaderSize) s1 = (p, s2)" by fastforce
      note sk = sys_lseek_any [OF l]
      have of2: "only_file ?fd s s2" using sk eqs only_file_trans by blast
      have c2: "fcontent s2 ?fd = ?c" and st2: "fstable s2 ?fd = fstable s ?fd" using sk eqs by auto
      show ?thesis
      proof (cases p)
        case None
        with wc nn st Some l of2 c2 st2 show ?thesis by (intro default) (simp_all add: walkChain_def)
      next
        case p: (Some q)
        then have o2: "foffset s2 ?fd = 16" using sk by (auto simp: layout)
        obtain ex st1 s3 where wl: "walk_loop ?fd visitor m n (int kHeaderSize) zero_hash 0 st s2 = (ex, st1, s3)"
          by (metis prod_cases3)
        note wc' = wc [unfolded walkChain_def st Some prod.case option.case l p wl]
        from walk_from_header [OF wl [unfolded n, folded c2] o2 sc [folded c2]] obtain us where
          of23: "only_file ?fd s2 s3" and st3: "fstable s3 ?fd = fstable s ?fd" and c3: "fcontent s3 ?fd = ?c"
          and us: "us = take (length us) vs" and st1: "st1 = foldl (\<lambda>x v. visit visitor m v x) st us"
          and cases: "us = vs \<and> e \<noteq> TornTail \<and> ex = exit_of zero_hash 0 (int (16 + total_len vs)) vs e \<or>
            16 + total_len us \<le> length ?c \<and> (\<exists>pos. ex = WalkEnd True pos (end_hash zero_hash us) (end_seq 0 us) \<and>
              (pos = -1 \<or> pos = int (16 + total_len us)))"
          by (auto simp: c2 st2)
        have of3: "only_file ?fd s s3" using of23 of2 by (blast intro: only_file_trans)
        from cases consider
            (whole) "us = vs" "e \<noteq> TornTail" "ex = exit_of zero_hash 0 (int (16 + total_len vs)) vs e"
          | (cut) pos where "16 + total_len us \<le> length ?c"
              "ex = WalkEnd True pos (end_hash zero_hash us) (end_seq 0 us)" "pos = -1 \<or> pos = int (16 + total_len us)"
          by blast
        then show ?thesis
        proof cases
          case whole
          with wc' nn have "r = result_of vs e" "st' = st1" "t = s3"
            by (cases e; auto simp: exit_of_def result_of_def RecoveryResult_default_def)+
          with \<open>us = vs\<close> of3 st3 c3 st1 show ?thesis by (intro conjI exI [of _ us]) auto
        next
          case (cut pos)
          note fit = cut(1) and ex = cut(2) and pos = cut(3)
          obtain okt s4 where s4: "(if pos < 0 then next_ctl s3 else sys_ftruncate ?fd (nat pos) s3) = (okt, s4)"
            by fastforce
          obtain q' s5 where s5: "sys_lseek ?fd SEEK_END s4 = (q', s5)" by fastforce
          from s4 have s4': "(if pos < 0 then snd (next_ctl s3) else snd (sys_ftruncate ?fd (nat pos) s3)) = s4"
            by (auto split: if_splits)
          have r: "r = result_of us TornTail" and st': "st' = st1" and t: "t = (if allow then s5 else s3)"
            using wc' ex nn by (simp_all add: result_of_def RecoveryResult_default_def s4' s5 split: if_splits)
          from cut_any [OF s4 s5 pos] fit c3 have "only_file ?fd s3 s5" "fstable s5 ?fd = fstable s3 ?fd"
              "fcontent s5 ?fd = ?c \<or> fcontent s5 ?fd = take (16 + total_len us) ?c"
            by auto
          with of3 st3 c3 t have "only_file ?fd s t" "fstable t ?fd = fstable s ?fd"
              "fcontent t ?fd = ?c \<or> allow \<and> fcontent t ?fd = take (16 + total_len us) ?c"
            by (auto intro: only_file_trans)
          with r st' st1 us show ?thesis by (intro conjI exI [of _ us]) auto
        qed
      qed
    qed
  qed
qed

end
