(* ===== verification/Interfaces.thy ===== *)
theory Interfaces
  imports Prelude
begin

text \<open>
  The contracts between the engine and its two persistence components, as locales. \<open>journal\<close> is what
  the engine needs of a log, \<open>snapshot_store\<close> what it needs of the snapshot file. \<open>WAL_Log\<close> and
  \<open>Snapshot_Atomic\<close> interpret them on the models of \<^verbatim>\<open>WAL.cpp\<close> and \<^verbatim>\<open>Snapshot.cpp\<close>, \<open>Engine_Recovery\<close> uses
  the lemmas proved here.
\<close>

section \<open>A replayable log\<close>

text \<open>
  \<open>holds w s rs\<close>: the log object \<open>w\<close> in the system \<open>s\<close> holds the records \<open>rs\<close>. \<open>append\<close> and \<open>clear\<close> report
  success; \<open>replay v st\<close> runs a visitor \<open>v\<close> over the records, starting from \<open>st\<close>, and is only promised to
  reach the end in a \<open>calm\<close> system.
\<close>

locale journal =
  fixes holds :: "'w \<Rightarrow> 'o \<Rightarrow> 'r list \<Rightarrow> bool"
    and stamp :: "'w \<Rightarrow> 'a \<Rightarrow> 'r"
    and admissible :: "'r \<Rightarrow> bool"
    and append :: "'a \<Rightarrow> 'w \<Rightarrow> 'o \<Rightarrow> bool \<times> 'w \<times> 'o"
    and clear :: "'w \<Rightarrow> 'o \<Rightarrow> bool \<times> 'w \<times> 'o"
    and calm :: "'o \<Rightarrow> bool"
    and replay :: "'v \<Rightarrow> 's \<Rightarrow> 'w \<Rightarrow> 'o \<Rightarrow> 's \<times> 'w \<times> 'o"
    and step :: "'v \<Rightarrow> 's \<Rightarrow> 'r \<Rightarrow> 's"
  assumes append_holds:
      "holds w s rs \<Longrightarrow> admissible (stamp w a) \<Longrightarrow> append a w s = (True, w', t) \<Longrightarrow> holds w' t (rs @ [stamp w a])"
    and clear_holds: "holds w s rs \<Longrightarrow> clear w s = (True, w', t) \<Longrightarrow> holds w' t []"
    and replay_step: "holds w s rs \<Longrightarrow> calm s \<Longrightarrow> replay v st w s = (st', w', t) \<Longrightarrow>
      st' = foldl (step v) st rs \<and> holds w' t rs \<and> calm t"
begin

text \<open>Replaying after an append is one more step of the visitor.\<close>

lemma replay_after_append:
  assumes "holds w s rs" and "admissible (stamp w a)" and "append a w s = (True, w', t)"
    and "calm t" and "replay v st w' t = (st', w'', u)"
  shows "st' = step v (foldl (step v) st rs) (stamp w a) \<and> holds w'' u (rs @ [stamp w a])"
  using replay_step [OF append_holds [OF assms(1,2,3)] assms(4,5)] by simp

lemma replay_after_clear:
  assumes "holds w s rs" and "clear w s = (True, w', t)" and "calm t" and "replay v st w' t = (st', w'', u)"
  shows "st' = st \<and> holds w'' u []"
  using replay_step [OF clear_holds [OF assms(1,2)] assms(3,4)] by simp

text \<open>Replaying twice, with any visitors, sees the same records.\<close>

lemma replay_again:
  assumes "holds w s rs" and "calm s" and "replay v st w s = (st1, w1, s1)" and "replay v' st' w1 s1 = (st2, w2, s2)"
  shows "st2 = foldl (step v') st' rs \<and> holds w2 s2 rs"
proof -
  from replay_step [OF assms(1-3)] have "holds w1 s1 rs" "calm s1" by simp_all
  from replay_step [OF this assms(4)] show ?thesis by simp
qed

text \<open>A live state that takes the visitor's step on every append is the replayed state.\<close>

lemma live_is_replayed:
  assumes "holds w s rs" and "live = foldl (step v) st rs" and "admissible (stamp w a)" and "append a w s = (True, w', t)"
  shows "holds w' t (rs @ [stamp w a]) \<and> step v live (stamp w a) = foldl (step v) st (rs @ [stamp w a])"
  using append_holds [OF assms(1,3,4)] assms(2) by simp

end

section \<open>An atomically replaced image\<close>

text \<open>
  \<open>stored p s\<close> is the image that the name \<open>p\<close> refers to. \<open>save\<close> either installs the new image or leaves
  the old one, and reports success only in the first case; \<open>separate\<close> says that the names involved do
  not share a file.
\<close>

locale snapshot_store =
  fixes save :: "'p \<Rightarrow> 'i \<Rightarrow> 'o \<Rightarrow> bool \<times> 'o"
    and load :: "'p \<Rightarrow> 'o \<Rightarrow> 'i option \<times> 'o"
    and stored :: "'p \<Rightarrow> 'o \<Rightarrow> 'i option"
    and fits :: "'i \<Rightarrow> bool"
    and sane :: "'o \<Rightarrow> bool"
    and separate :: "'p \<Rightarrow> 'o \<Rightarrow> bool"
    and calm :: "'o \<Rightarrow> bool"
  assumes save_sane: "sane s \<Longrightarrow> save p i s = (ok, t) \<Longrightarrow> sane t"
    and save_stored: "sane s \<Longrightarrow> separate p s \<Longrightarrow> fits i \<Longrightarrow> save p i s = (ok, t) \<Longrightarrow>
      stored p t = Some i \<or> \<not> ok \<and> stored p t = stored p s"
    and load_stored: "sane s \<Longrightarrow> calm s \<Longrightarrow> load p s = (res, t) \<Longrightarrow> res = stored p s \<and> (\<forall>q. stored q t = stored q s)"
begin

lemma load_after_save:
  assumes "sane s" "separate p s" "fits i" "save p i s = (True, t)" "calm t" "load p t = (res, u)"
  shows "res = Some i \<and> stored p u = Some i"
proof -
  have "stored p t = Some i" using save_stored [OF assms(1-4)] by simp
  with load_stored [OF save_sane [OF assms(1,4)] assms(5,6)] show ?thesis by simp
qed

text \<open>A save that fails, or one cut off by a crash, leaves an image that loads: the old or the new one.\<close>

lemma load_after_failed_save:
  assumes "sane s" "separate p s" "fits i" "save p i s = (ok, t)" "calm t" "load p t = (res, u)"
  shows "res = stored p s \<or> res = Some i"
  using save_stored [OF assms(1-4)] load_stored [OF save_sane [OF assms(1,4)] assms(5,6)] by auto

end

end
