(* ===== verification/WAL_Log.thy ===== *)
theory WAL_Log
  imports WAL_Walk Interfaces
begin

text \<open>
  The methods of \<open>WAL\<close> against the log they maintain. \<open>wal_holds w s rs\<close> says that the object \<open>w\<close> is
  open on a file that holds exactly the records \<open>rs\<close>, and that its sequence number and head hash are
  those of \<open>rs\<close>; \<open>wal_synced\<close> adds what group commit promises about stable storage. The laws hold in
  every environment: a call that returns normally has done its work, one that fails leaves a state
  the lemma describes.
\<close>

section \<open>The abstract log\<close>

definition valid_header :: "bytes \<Rightarrow> bool" where
  "valid_header h \<longleftrightarrow> length h = 16 \<and> getLE32 (drop HDR_OFF_MAGIC h) = WAL_MAGIC \<and>
     getLE32 (drop HDR_OFF_VERSION h) = WAL_VERSION"

definition holds_bytes :: "bytes \<Rightarrow> log_record list \<Rightarrow> bool" where
  "holds_bytes c rs \<longleftrightarrow> valid_header (take 16 c) \<and> drop 16 c = log_bytes zero_hash 0 rs \<and> list_all storable rs"

definition wal_holds :: "WAL \<Rightarrow> os \<Rightarrow> log_record list \<Rightarrow> bool" where
  "wal_holds w s rs \<longleftrightarrow> m_fd w \<noteq> -1 \<and> appending s (m_fd w) \<and> holds_bytes (fcontent s (m_fd w)) rs \<and>
     m_seq w = of_nat (length rs) \<and> m_headHash w = log_head zero_hash 0 rs"

text \<open>
  Group commit: fewer than \<open>m_syncEveryN\<close> records are pending, and what is on stable storage is a
  prefix of the file that reaches at least to the last record that is not pending.
\<close>

definition wal_synced :: "WAL \<Rightarrow> os \<Rightarrow> log_record list \<Rightarrow> bool" where
  "wal_synced w s rs \<longleftrightarrow> m_pendingWrites w < m_syncEveryN w \<and> m_pendingWrites w \<le> length rs \<and>
     fstable s (m_fd w) = take (length (fstable s (m_fd w))) (fcontent s (m_fd w)) \<and>
     16 + length (log_bytes zero_hash 0 (take (length rs - m_pendingWrites w) rs)) \<le> length (fstable s (m_fd w))"

definition new_record :: "WAL \<Rightarrow> RecordType \<Rightarrow> bytes \<Rightarrow> bytes \<Rightarrow> i64 \<Rightarrow> log_record" where
  "new_record w type key val ts = \<lparr>r_type = type, r_key = key, r_value = val, r_ts = ts, r_epoch = m_epoch w\<rparr>"

lemma valid_header_bytes [simp]: "valid_header header_bytes"
proof -
  have e: "header_bytes = putLE32 [] WAL_MAGIC @ putLE32 [] WAL_VERSION @ putLE64 [] 0"
    unfolding header_bytes_def by (metis append.assoc putLE32_append putLE64_append)
  show ?thesis
    unfolding valid_header_def e layout_values
    by (simp add: le32.dec_enc)
qed

lemma length_header_bytes [simp]: "length header_bytes = 16"
  using valid_header_bytes by (simp add: valid_header_def del: valid_header_bytes)

lemma holds_bytes_len: "holds_bytes c rs \<Longrightarrow> length c = 16 + length (log_bytes zero_hash 0 rs) \<and> 16 \<le> length c"
proof -
  assume h: "holds_bytes c rs"
  then have "length (take 16 c) = 16" "length (drop 16 c) = length (log_bytes zero_hash 0 rs)"
    by (simp_all only: holds_bytes_def valid_header_def)
  then show ?thesis by auto
qed

lemma holds_bytes_header: "holds_bytes header_bytes []"
  by (simp add: holds_bytes_def)

lemma holds_bytes_snoc:
  assumes "holds_bytes c rs" and "storable r"
  shows "holds_bytes (c @ entry_bytes (log_head zero_hash 0 rs) (of_nat (length rs)) r) (rs @ [r])"
  using assms holds_bytes_len [OF assms(1)] by (simp add: holds_bytes_def log_bytes_append)

lemma file_scan_holds: "holds_bytes c rs \<Longrightarrow> file_scan c = (verified_list zero_hash 0 rs, Clean)"
  by (simp add: file_scan_def holds_bytes_def scan_log_complete)

lemma appending_open: "appending s fd \<Longrightarrow> fds s fd \<noteq> None"
  by (auto simp: appending_def)

section \<open>Header\<close>

lemma writeHeader_any:
  assumes "WAL_writeHeader w s = (ok, t)" and "at_end s (m_fd w)"
  shows "only_file (m_fd w) s t \<and>
    (\<exists>k \<le> 16. fcontent t (m_fd w) = fcontent s (m_fd w) @ take k header_bytes) \<and>
    (fstable t (m_fd w) = fstable s (m_fd w) \<or> fstable t (m_fd w) = fcontent t (m_fd w)) \<and>
    (ok \<longrightarrow> fcontent t (m_fd w) = fcontent s (m_fd w) @ header_bytes \<and> fstable t (m_fd w) = fcontent t (m_fd w)) \<and>
    (kind s \<longrightarrow> ok \<and> kind t)"
proof -
  let ?fd = "m_fd w"
  obtain ok1 s1 where w1: "writeExact ?fd header_bytes s = (ok1, s1)" by fastforce
  obtain ok2 s2 where f: "sys_fsync ?fd s1 = (ok2, s2)" by fastforce
  have t: "(ok, t) = (if ok1 then (ok2, s2) else (False, s1))"
    using assms(1) w1 f by (auto simp: WAL_writeHeader_def header_bytes_def)
  from writeExact_any [OF w1 assms(2)] obtain k where
    a: "only_file ?fd s s1" "fstable s1 ?fd = fstable s ?fd" "k \<le> 16"
      "fcontent s1 ?fd = fcontent s ?fd @ take k header_bytes" "ok1 \<Longrightarrow> k = 16"
    by auto
  note b = sys_fsync_any [OF f]
  have op: "fds s1 ?fd \<noteq> None" using assms(2) only_file_fds [OF a(1)] by (auto simp: at_end_def)
  have k: "kind s \<Longrightarrow> ok1 \<and> kind s1" using writeExact_kind [OF w1 assms(2)] by blast
  show ?thesis
  proof (cases ok1)
    case False
    with t a k show ?thesis by auto
  next
    case True
    with t have "t = s2" "ok = ok2" by simp_all
    with a b k op True show ?thesis by (auto intro: only_file_trans)
  qed
qed

lemma validateHeader_any:
  assumes "WAL_validateHeader w s = (ok, t)"
  shows "only_file (m_fd w) s t \<and> fstable t (m_fd w) = fstable s (m_fd w) \<and>
    fcontent t (m_fd w) = fcontent s (m_fd w) \<and> (ok \<longrightarrow> valid_header (take 16 (fcontent s (m_fd w)))) \<and>
    (kind s \<and> fds s (m_fd w) \<noteq> None \<longrightarrow> kind t \<and> ok = valid_header (take 16 (fcontent s (m_fd w))))"
proof -
  let ?fd = "m_fd w"
  obtain p s1 where l: "sys_lseek ?fd (SEEK_SET 0) s = (p, s1)" by fastforce
  obtain ok1 hd s2 where r: "readExact ?fd kHeaderSize s1 = (ok1, hd, s2)" by (metis prod_cases3)
  note a = sys_lseek_any [OF l] and b = readExact_any [OF r]
  have c: "kind s1 \<and> fds s1 ?fd \<noteq> None \<longrightarrow> kind s2 \<and> ok1 = (foffset s1 ?fd + 16 \<le> length (fcontent s1 ?fd))"
    using readExact_kind [OF r] by (simp add: layout)
  have op: "fds s1 ?fd \<noteq> None \<longleftrightarrow> fds s ?fd \<noteq> None" using a only_file_fds by blast
  show ?thesis
  proof (cases p)
    case None
    with assms l a show ?thesis by (auto simp: WAL_validateHeader_def)
  next
    case (Some q)
    with a have q: "foffset s1 ?fd = 0" by auto
    have of: "only_file ?fd s s2" using a b only_file_trans by blast
    let ?good = "ok1 \<and> getLE32 (drop HDR_OFF_MAGIC hd) = WAL_MAGIC \<and> getLE32 (drop HDR_OFF_VERSION hd) = WAL_VERSION"
    have t: "t = s2" "ok = ?good"
      using assms l r Some by (auto simp: WAL_validateHeader_def split: if_splits)
    have hd: "hd = take 16 (fcontent s ?fd) \<and> length hd = 16" if ok1 using a b q that by (auto simp: layout)
    then have v: "?good \<Longrightarrow> valid_header (take 16 (fcontent s ?fd))"
      unfolding valid_header_def by metis
    have "ok = valid_header (take 16 (fcontent s ?fd)) \<and> kind t" if "kind s" "fds s ?fd \<noteq> None"
    proof -
      have k: "kind s2" "ok1 = (16 \<le> length (fcontent s ?fd))" using a c op q that by auto
      have "ok1" if "valid_header (take 16 (fcontent s ?fd))" using that k(2) by (auto simp: valid_header_def)
      with k v hd t show ?thesis unfolding valid_header_def by metis
    qed
    with t of a b v show ?thesis by auto
  qed
qed

section \<open>Append\<close>

lemma storable_new_record:
  "storable (new_record w type key val ts) \<longleftrightarrow>
    length key \<le> kMaxFieldSize \<and> length val \<le> kMaxFieldSize \<and> as_RecordType (type_byte type) = type"
  by (simp add: storable_def new_record_def)

lemma append_writes_entry:
  fixes w :: WAL and type :: RecordType and key val :: bytes and ts :: i64
  defines "r \<equiv> new_record w type key val ts"
  defines "fixed \<equiv> fixed_part (m_seq w) ts (m_epoch w) key val type"
  shows "chain_digest (m_headHash w) fixed key val = entry_hash (m_headHash w) (m_seq w) r"
    and "putLE32 [] (CRC32_calculate (fixed @ key @ val @ entry_hash (m_headHash w) (m_seq w) r)) @
      fixed @ key @ val @ entry_hash (m_headHash w) (m_seq w) r = entry_bytes (m_headHash w) (m_seq w) r"
  by (simp_all add: entry_bytes_def entry_body_def entry_hash_def entry_fixed_def fixed_def r_def new_record_def)

lemma WAL_append_any:
  assumes ap: "WAL_append type key val ts w s = (res, w', t)"
    and inv: "wal_holds w s rs" and st: "storable (new_record w type key val ts)"
  defines "r \<equiv> new_record w type key val ts"
  shows "only_file (m_fd w) s t \<and> m_fd w' = m_fd w \<and> m_epoch w' = m_epoch w \<and> m_syncEveryN w' = m_syncEveryN w \<and>
    m_path w' = m_path w \<and>
    (wal_holds w' t (rs @ [r]) \<and> (res = Inr () \<or> res = Inl (runtime_error ''fsync failed'')) \<or>
     res = Inl (runtime_error ''Failed to write entry to WAL'') \<and> w' = w \<and>
       (\<exists>k \<le> length (entry_bytes (m_headHash w) (m_seq w) r).
          fcontent t (m_fd w) = fcontent s (m_fd w) @ take k (entry_bytes (m_headHash w) (m_seq w) r)) \<and>
       fstable t (m_fd w) = fstable s (m_fd w)) \<and>
    (res = Inr () \<and> wal_synced w s rs \<longrightarrow> wal_synced w' t (rs @ [r])) \<and> (kind s \<longrightarrow> res = Inr () \<and> kind t)"
proof -
  let ?fd = "m_fd w" and ?e = "entry_bytes (m_headHash w) (m_seq w) r" and ?c = "fcontent s (m_fd w)"
  have small: "\<not> (length key > kMaxFieldSize \<or> length val > kMaxFieldSize)" and nn: "?fd \<noteq> -1"
    using st inv by (simp_all add: storable_new_record wal_holds_def)
  have app: "appending s ?fd" and hold: "holds_bytes ?c rs"
    and sq: "m_seq w = of_nat (length rs)" and hh: "m_headHash w = log_head zero_hash 0 rs"
    using inv by (simp_all add: wal_holds_def)
  note entry = append_writes_entry [where w = w and type = type and key = key and val = val and ts = ts, folded r_def]
  obtain ok s1 where w1: "writeExact ?fd ?e s = (ok, s1)" by fastforce
  define w1' where "w1' = w\<lparr>m_headHash := entry_hash (m_headHash w) (m_seq w) r, m_seq := m_seq w + 1,
      m_pendingWrites := m_pendingWrites w + 1\<rparr>"
  obtain okf s2 where f: "sys_fsync ?fd s1 = (okf, s2)" by fastforce
  have eq: "(res, w', t) = (if \<not> ok then (Inl (runtime_error ''Failed to write entry to WAL''), w, s1)
      else if m_pendingWrites w + 1 \<ge> m_syncEveryN w
        then (if \<not> okf then (Inl (runtime_error ''fsync failed''), w1', s2) else (Inr (), w1'\<lparr>m_pendingWrites := 0\<rparr>, s2))
      else (Inr (), w1', s1))"
    using ap small nn w1 f unfolding WAL_append_def Let_def entry w1'_def [symmetric]
    by (simp add: w1'_def split: if_splits)
  note aw = writeExact_any [OF w1 appending_at_end [OF app]] and kw = writeExact_kind [OF w1 appending_at_end [OF app]]
  show ?thesis
  proof (cases ok)
    case False
    with eq aw kw show ?thesis by auto
  next
    case True
    then have of1: "only_file ?fd s s1" and st1: "fstable s1 ?fd = fstable s ?fd" and c1: "fcontent s1 ?fd = ?c @ ?e"
      using aw by auto
    have app1: "appending s1 ?fd" using app only_file_appending [OF of1] by simp
    note fs = sys_fsync_any [OF f]
    have of2: "only_file ?fd s s2" using of1 fs only_file_trans by blast
    have app2: "appending s2 ?fd" using app only_file_appending [OF of2] by simp
    have hold1: "holds_bytes (?c @ ?e) (rs @ [r])"
      using holds_bytes_snoc [OF hold] st by (simp add: r_def sq hh)
    have h1: "wal_holds w1' s1 (rs @ [r])" "wal_holds w1' s2 (rs @ [r])"
        "wal_holds (w1'\<lparr>m_pendingWrites := 0\<rparr>) s2 (rs @ [r])"
      using nn app1 app2 hold1 c1 fs sq hh by (simp_all add: wal_holds_def w1'_def log_head_append)
    have len: "length (?c @ ?e) = 16 + length (log_bytes zero_hash 0 (rs @ [r]))"
      using holds_bytes_len [OF hold1] by simp
    have kf: "kind s \<Longrightarrow> kind s1 \<and> okf \<and> kind s2" using kw fs appending_open [OF app1] by blast
    show ?thesis
    proof (cases "m_pendingWrites w + 1 \<ge> m_syncEveryN w")
      case full: True
      show ?thesis
      proof (cases okf)
        case True
        with eq \<open>ok\<close> full have e: "res = Inr ()" "w' = w1'\<lparr>m_pendingWrites := 0\<rparr>" "t = s2" by simp_all
        have "wal_synced w' t (rs @ [r])" if "wal_synced w s rs"
          using that fs True c1 len by (simp add: e wal_synced_def w1'_def)
        with e of2 h1 kf show ?thesis by (simp add: w1'_def)
      next
        case False
        with eq \<open>ok\<close> full have "res = Inl (runtime_error ''fsync failed'')" "w' = w1'" "t = s2" by simp_all
        with False of2 h1 kf show ?thesis by (auto simp: w1'_def)
      qed
    next
      case notfull: False
      with eq \<open>ok\<close> have e: "res = Inr ()" "w' = w1'" "t = s1" by simp_all
      have "wal_synced w' t (rs @ [r])" if sy: "wal_synced w s rs"
      proof -
        have "take (length (rs @ [r]) - (m_pendingWrites w + 1)) (rs @ [r]) = take (length rs - m_pendingWrites w) rs"
          by simp
        moreover have "fstable s ?fd = take (length (fstable s ?fd)) (?c @ ?e)"
          using sy unfolding wal_synced_def by (metis append_Nil2 length_take linorder_le_cases min.bounded_iff
            take_all_iff take_append diff_is_0_eq take_eq_Nil2 min.absorb_iff2 min.cobounded1)
        ultimately show ?thesis using sy notfull by (simp add: e wal_synced_def w1'_def c1 st1)
      qed
      with e of1 h1 kf show ?thesis by (simp add: w1'_def)
    qed
  qed
qed

text \<open>The bytes behind the laws: some prefix of the entry is appended, and syncing takes all or nothing.\<close>

lemma WAL_append_bytes:
  assumes ap: "WAL_append type key val ts w s = (res, w', t)" and nn: "m_fd w \<noteq> -1" and app: "appending s (m_fd w)"
    and st: "storable (new_record w type key val ts)"
  defines "r \<equiv> new_record w type key val ts"
  shows "(\<exists>k. fcontent t (m_fd w) = fcontent s (m_fd w) @ take k (entry_bytes (m_headHash w) (m_seq w) r)) \<and>
    (res = Inr () \<longrightarrow> fcontent t (m_fd w) = fcontent s (m_fd w) @ entry_bytes (m_headHash w) (m_seq w) r) \<and>
    (fstable t (m_fd w) = fstable s (m_fd w) \<or> fstable t (m_fd w) = fcontent t (m_fd w)) \<and> only_file (m_fd w) s t \<and>
    (kind s \<longrightarrow> res = Inr () \<and> kind t)"
proof -
  let ?fd = "m_fd w" and ?e = "entry_bytes (m_headHash w) (m_seq w) r"
  have small: "\<not> (length key > kMaxFieldSize \<or> length val > kMaxFieldSize)" using st by (simp add: storable_new_record)
  note entry = append_writes_entry [where w = w and type = type and key = key and val = val and ts = ts, folded r_def]
  obtain ok s1 where w1: "writeExact ?fd ?e s = (ok, s1)" by fastforce
  obtain okf s2 where f: "sys_fsync ?fd s1 = (okf, s2)" by fastforce
  have out: "(t = s1 \<or> t = s2) \<and> (res = Inr () \<longrightarrow> ok) \<and> (ok \<and> okf \<longrightarrow> res = Inr ())"
    using ap small nn w1 f unfolding WAL_append_def Let_def entry by (auto split: if_split_asm)
  have "fds s1 ?fd \<noteq> None"
    using writeExact_any [OF w1 appending_at_end [OF app]] only_file_fds appending_open [OF app] by blast
  with out have "kind s \<longrightarrow> res = Inr () \<and> kind t"
    using writeExact_kind [OF w1 appending_at_end [OF app]] sys_fsync_any [OF f] by blast
  moreover note out
  moreover from writeExact_any [OF w1 appending_at_end [OF app]] obtain k
    where "fcontent s1 ?fd = fcontent s ?fd @ take k ?e" "fstable s1 ?fd = fstable s ?fd" "only_file ?fd s s1"
      "ok \<longrightarrow> fcontent s1 ?fd = fcontent s ?fd @ ?e" by auto
  moreover note sys_fsync_any [OF f]
  ultimately show ?thesis by (cases okf) (auto intro: only_file_trans)
qed

section \<open>Reset and close\<close>

lemma WAL_reset_any:
  assumes rs: "WAL_reset w s = (ok, w', t)" and app: "appending s (m_fd w)" and nn: "m_fd w \<noteq> -1"
  shows "only_file (m_fd w) s t \<and> (kind s \<longrightarrow> ok \<and> kind t) \<and>
    (if ok then w' = w\<lparr>m_seq := 0, m_headHash := zero_hash, m_pendingWrites := 0\<rparr> \<and>
       fcontent t (m_fd w) = header_bytes \<and> fstable t (m_fd w) = header_bytes
     else w' = w \<and> (fcontent t (m_fd w) = fcontent s (m_fd w) \<or> (\<exists>k \<le> 16. fcontent t (m_fd w) = take k header_bytes)))"
proof -
  let ?fd = "m_fd w"
  obtain o1 s1 where f: "sys_fsync ?fd s = (o1, s1)" by fastforce
  obtain o2 s2 where tr: "sys_ftruncate ?fd 0 s1 = (o2, s2)" by fastforce
  obtain p s3 where l: "sys_lseek ?fd (SEEK_SET 0) s2 = (p, s3)" by fastforce
  obtain o4 s4 where h: "WAL_writeHeader w s3 = (o4, s4)" by fastforce
  note a1 = sys_fsync_any [OF f] and a2 = sys_ftruncate_any [OF tr] and a3 = sys_lseek_any [OF l]
  have of2: "only_file ?fd s s2" using a1 a2 only_file_trans by blast
  have of3: "only_file ?fd s s3" using of2 a3 only_file_trans by blast
  have app3: "appending s3 ?fd" using app only_file_appending [OF of3] by simp
  note a4 = writeHeader_any [OF h appending_at_end [OF app3]]
  have of4: "only_file ?fd s s4" using of3 a4 only_file_trans by blast
  have op: "fds s ?fd \<noteq> None" using app by (rule appending_open)
  have "fds s1 ?fd \<noteq> None" using op a1 only_file_fds [of ?fd s s1] by blast
  moreover have "fds s2 ?fd \<noteq> None" using op only_file_fds [OF of2] by blast
  ultimately have k: "kind s \<longrightarrow> o2 \<and> p \<noteq> None \<and> o4 \<and> kind s4" using a1 a2 a3 a4 op by blast
  have "(ok, w', t) = (if \<not> o2 then (False, w, s2) else if p = None then (False, w, s3)
      else if \<not> o4 then (False, w, s4) else (True, w\<lparr>m_seq := 0, m_headHash := zero_hash, m_pendingWrites := 0\<rparr>, s4))"
    using rs nn f tr l h by (auto simp: WAL_reset_def)
  moreover have "fcontent s2 ?fd = [] \<and> fcontent s3 ?fd = []" if o2 using that a2 a3 by simp
  moreover have "fcontent s2 ?fd = fcontent s ?fd" if "\<not> o2" using that a1 a2 by simp
  ultimately show ?thesis using of2 of3 of4 a4 k by (auto split: if_splits intro: exI [of _ 0])
qed

lemma WAL_reset_stable:
  assumes rs: "WAL_reset w s = (ok, w', t)" and app: "appending s (m_fd w)" and nn: "m_fd w \<noteq> -1"
  shows "fstable t (m_fd w) \<in> {fstable s (m_fd w), fcontent s (m_fd w)} \<or> (\<exists>k \<le> 16. fstable t (m_fd w) = take k header_bytes)"
proof -
  let ?fd = "m_fd w"
  obtain o1 s1 where f: "sys_fsync ?fd s = (o1, s1)" by fastforce
  obtain o2 s2 where tr: "sys_ftruncate ?fd 0 s1 = (o2, s2)" by fastforce
  obtain p s3 where l: "sys_lseek ?fd (SEEK_SET 0) s2 = (p, s3)" by fastforce
  obtain o4 s4 where h: "WAL_writeHeader w s3 = (o4, s4)" by fastforce
  note a1 = sys_fsync_any [OF f] and a2 = sys_ftruncate_any [OF tr] and a3 = sys_lseek_any [OF l]
  have "only_file ?fd s s3" using a1 a2 a3 only_file_trans by blast
  then have "appending s3 ?fd" using app only_file_appending by simp
  note a4 = writeHeader_any [OF h appending_at_end [OF this]]
  have "fstable s3 ?fd \<in> {fstable s ?fd, fcontent s ?fd}" "fstable s2 ?fd \<in> {fstable s ?fd, fcontent s ?fd}"
    using a1 a2 a3 by (cases o1, simp_all)+
  moreover have "fcontent s3 ?fd = []" if o2 using that a2 a3 by simp
  moreover have "t = s2 \<or> t = s3 \<or> o2 \<and> t = s4"
    using rs nn f tr l h by (auto simp: WAL_reset_def split: if_splits)
  ultimately show ?thesis using a4 by auto
qed

theorem WAL_reset_empties:
  assumes "WAL_reset w s = (True, w', t)" and "wal_holds w s rs"
  shows "wal_holds w' t [] \<and> (0 < m_syncEveryN w \<longrightarrow> wal_synced w' t []) \<and>
    fcontent t (m_fd w) = header_bytes \<and> fstable t (m_fd w) = header_bytes"
proof -
  have w: "appending s (m_fd w)" "m_fd w \<noteq> -1" using assms(2) by (simp_all add: wal_holds_def)
  note r = WAL_reset_any [OF assms(1) w]
  then have "appending t (m_fd w)" using w only_file_appending by blast
  with r w show ?thesis by (simp add: wal_holds_def wal_synced_def holds_bytes_header)
qed

lemma WAL_close_any:
  assumes "WAL_close w s = (w', t)"
  shows "m_fd w' = -1 \<and> names t = names s \<and> stable_names t = stable_names s \<and>
    (\<forall>i. cached (inodes t i) = cached (inodes s i)) \<and> (os_wf s \<longrightarrow> os_wf t) \<and>
    (kind s \<and> wal_holds w s rs \<longrightarrow> kind t \<and>
      (m_pendingWrites w > 0 \<longrightarrow> (\<exists>f. fds s (m_fd w) = Some f \<and>
         stable (inodes t (f_ino f)) = cached (inodes s (f_ino f)))))"
proof (cases "m_fd w = -1")
  case True
  with assms show ?thesis by (auto simp: WAL_close_def wal_holds_def)
next
  case nn: False
  let ?fd = "m_fd w"
  show ?thesis
  proof (cases "m_pendingWrites w > 0")
    case False
    obtain o2 s2 where c: "sys_close ?fd s = (o2, s2)" by fastforce
    with assms nn False have "t = s2" "w' = w\<lparr>m_fd := -1\<rparr>" by (simp_all add: WAL_close_def)
    with sys_close_any [OF c] False show ?thesis by simp
  next
    case True
    obtain o1 s1 where f: "sys_fsync ?fd s = (o1, s1)" by fastforce
    obtain o2 s2 where c: "sys_close ?fd s1 = (o2, s2)" by fastforce
    have t: "t = s2" "w' = w\<lparr>m_pendingWrites := 0, m_fd := -1\<rparr>"
      using assms nn True f c by (simp_all add: WAL_close_def)
    note a = sys_fsync_any [OF f] and b = sys_close_any [OF c]
    have of: "only_file ?fd s s1" using a by blast
    have "names s1 = names s \<and> stable_names s1 = stable_names s" using of by (simp add: only_file_def)
    moreover have "cached (inodes s1 i) = cached (inodes s i)" for i
    proof (cases "fds s ?fd")
      case None
      with of show ?thesis by (simp add: only_file_def)
    next
      case (Some g)
      with of obtain n where "fds s1 ?fd = Some (g\<lparr>f_off := n\<rparr>)" by (auto simp: only_file_def)
      with a Some only_file_inodes [OF of Some, of i] show ?thesis
        by (cases "i = f_ino g") (simp_all add: fcontent_def)
    qed
    moreover have "\<exists>g. fds s ?fd = Some g \<and> stable (inodes s1 (f_ino g)) = cached (inodes s (f_ino g))"
      if "kind s" "appending s ?fd"
    proof -
      obtain g where g: "fds s ?fd = Some g" using \<open>appending s ?fd\<close> by (auto simp: appending_def)
      with of obtain n where "fds s1 ?fd = Some (g\<lparr>f_off := n\<rparr>)" by (auto simp: only_file_def)
      with a g that show ?thesis by (auto simp: fcontent_def fstable_def)
    qed
    moreover have "kind s \<and> appending s ?fd \<longrightarrow> kind t"
      using a b appending_open unfolding t by blast
    ultimately show ?thesis using b only_file_wf [OF of] unfolding t by (auto simp: wal_holds_def)
  qed
qed

section \<open>Open\<close>

lemma WAL_open_any:
  assumes o: "WAL_open p n s = (Inr w, t)" and wf: "os_wf s"
  shows "os_wf t \<and> w = \<lparr>m_path = p, m_fd = m_fd w, m_epoch = 0, m_seq = 0, m_headHash = zero_hash,
      m_syncEveryN = (if n < 1 then 1 else n), m_pendingWrites = 0\<rparr> \<and> m_fd w \<noteq> -1 \<and> appending t (m_fd w) \<and>
    fds s (m_fd w) = None \<and> (\<forall>g. g \<noteq> m_fd w \<longrightarrow> fds t g = fds s g) \<and> stable_names t = stable_names s \<and>
    (\<exists>i f. fds t (m_fd w) = Some f \<and> f_ino f = i \<and> (names s p = Some i \<or> names s p = None \<and> i = next_ino s) \<and>
       names t = (names s)(p \<mapsto> i) \<and> (\<forall>j. j \<noteq> i \<longrightarrow> inodes t j = inodes s j)) \<and>
    valid_header (take 16 (fcontent t (m_fd w))) \<and>
    (case file_of s p of
       Some (b # c) \<Rightarrow> fcontent t (m_fd w) = b # c
     | _ \<Rightarrow> fcontent t (m_fd w) = header_bytes \<and> fstable t (m_fd w) = header_bytes)"
proof -
  obtain fd s1 where op: "sys_open_creat p True False s = (fd, s1)" by fastforce
  define w0 where "w0 = \<lparr>m_path = p, m_fd = fd, m_epoch = 0, m_seq = 0, m_headHash = zero_hash,
      m_syncEveryN = (if n < 1 then 1 else n), m_pendingWrites = 0\<rparr>"
  obtain z s2 where st: "sys_fstat_size fd s1 = (z, s2)" by fastforce
  note o' = o [unfolded WAL_open_def op prod.case Let_def w0_def [symmetric]]
  from o' have nn: "fd \<noteq> -1" by (auto split: if_splits)
  from sys_open_creat_any [OF op wf] nn obtain i where i: "names s p = Some i \<or> names s p = None \<and> i = next_ino s"
    and f1: "fds s1 fd = Some \<lparr>f_ino = i, f_off = 0, f_append = True\<rparr>" and n1: "names s1 = (names s)(p \<mapsto> i)"
    and sn1: "stable_names s1 = stable_names s" and in1: "\<And>j. j \<noteq> i \<Longrightarrow> inodes s1 j = inodes s j"
    and g1: "\<And>g. g \<noteq> fd \<Longrightarrow> fds s1 g = fds s g" and wf1: "os_wf s1" and fresh: "fds s fd = None"
    and c1: "cached (inodes s1 i) = (case file_of s p of None \<Rightarrow> [] | Some c \<Rightarrow> c)"
    by auto
  have fc1: "fcontent s1 fd = (case file_of s p of None \<Rightarrow> [] | Some c \<Rightarrow> c)"
    using f1 c1 by (simp add: fcontent_def)
  have app1: "appending s1 fd" using f1 by (simp add: appending_def)
  from sys_fstat_size_any [OF st] have same: "same_files s1 s2" and z: "z = None \<or> z = Some (length (fcontent s1 fd))"
    by auto
  have of2: "only_file fd s1 s2" using same by (rule same_files_only_file)
  have app2: "appending s2 fd" and c2: "fcontent s2 fd = fcontent s1 fd"
    using app1 only_file_appending [OF of2] same_files_simps(7) [OF same] by auto
  have frame: "os_wf u \<and> (\<forall>g. g \<noteq> fd \<longrightarrow> fds u g = fds s g) \<and> stable_names u = stable_names s \<and> appending u fd \<and>
      (\<exists>i f. fds u fd = Some f \<and> f_ino f = i \<and> (names s p = Some i \<or> names s p = None \<and> i = next_ino s) \<and>
        names u = (names s)(p \<mapsto> i) \<and> (\<forall>j. j \<noteq> i \<longrightarrow> inodes u j = inodes s j))" if of: "only_file fd s1 u" for u
  proof -
    obtain m where m: "fds u fd = Some \<lparr>f_ino = i, f_off = m, f_append = True\<rparr>"
      using only_file_ino [OF of f1] by auto
    have "inodes u j = inodes s j" if "j \<noteq> i" for j
      using only_file_inodes [OF of f1, of j] in1 that by simp
    with m of wf1 only_file_wf [OF of] i n1 sn1 g1 show ?thesis
      by (auto simp: only_file_def appending_def)
  qed
  from o' nn st z have z': "z = Some (length (fcontent s1 fd))" by (auto split: option.splits)
  note o'' = o' [unfolded st prod.case z' option.case]
  show ?thesis
  proof (cases "fcontent s1 fd = []")
    case True
    obtain ok s3 where h: "WAL_writeHeader w0 s2 = (ok, s3)" by fastforce
    from o'' nn True h have ok: "ok" "w = w0" "t = s3" by (auto split: if_splits)
    have fd: "m_fd w0 = fd" by (simp add: w0_def)
    from writeHeader_any [OF h] appending_at_end [OF app2] ok fd c2 True
    have "only_file fd s2 s3" "fcontent s3 fd = header_bytes" "fstable s3 fd = header_bytes" by auto
    moreover from this of2 have "only_file fd s1 s3" by (blast intro: only_file_trans)
    moreover have "file_of s p = None \<or> file_of s p = Some []" using True fc1 by (auto split: option.splits)
    ultimately show ?thesis using frame [of s3] ok(2,3) nn fresh fd
      by (auto simp: w0_def)
  next
    case False
    obtain ok s3 where h: "WAL_validateHeader w0 s2 = (ok, s3)" by fastforce
    from o'' nn False h have ok: "ok" "w = w0" "t = s3" by (auto split: if_splits)
    have fd: "m_fd w0 = fd" by (simp add: w0_def)
    from validateHeader_any [OF h] ok fd c2
    have v: "only_file fd s2 s3" "fcontent s3 fd = fcontent s1 fd" "valid_header (take 16 (fcontent s1 fd))" by auto
    from v of2 have "only_file fd s1 s3" by (blast intro: only_file_trans)
    moreover obtain b c where "file_of s p = Some (b # c)" "fcontent s1 fd = b # c"
      using False fc1 by (cases "fcontent s1 fd") (auto split: option.splits)
    ultimately show ?thesis using frame [of s3] ok(2,3) nn fresh fd v
      by (auto simp: w0_def)
  qed
qed

text \<open>When nothing fails, the constructor accepts exactly the empty files and those with a valid header.\<close>

lemma WAL_open_kind:
  assumes wf: "os_wf s" and k: "kind s"
  shows "(case file_of s p of
      Some (b # c) \<Rightarrow> if valid_header (take 16 (b # c)) then \<exists>w t. WAL_open p n s = (Inr w, t) \<and> kind t
        else \<exists>t. WAL_open p n s = (Inl (runtime_error (''Invalid or corrupt WAL header: '' @ p)), t)
    | _ \<Rightarrow> \<exists>w t. WAL_open p n s = (Inr w, t) \<and> kind t)"
proof -
  obtain fd s1 where op: "sys_open_creat p True False s = (fd, s1)" by fastforce
  define w0 where "w0 = \<lparr>m_path = p, m_fd = fd, m_epoch = 0, m_seq = 0, m_headHash = zero_hash,
      m_syncEveryN = (if n < 1 then 1 else n), m_pendingWrites = 0\<rparr>"
  obtain z s2 where st: "sys_fstat_size fd s1 = (z, s2)" by fastforce
  from sys_open_creat_any [OF op wf] k obtain i where nn: "fd \<noteq> -1" and k1: "kind s1"
    and f1: "fds s1 fd = Some \<lparr>f_ino = i, f_off = 0, f_append = True\<rparr>"
    and c1: "cached (inodes s1 i) = (case file_of s p of None \<Rightarrow> [] | Some c \<Rightarrow> c)"
    by auto
  have fc1: "fcontent s1 fd = (case file_of s p of None \<Rightarrow> [] | Some c \<Rightarrow> c)"
    using f1 c1 by (simp add: fcontent_def)
  from sys_fstat_size_any [OF st] k1 f1 have same: "same_files s1 s2" and z: "z = Some (length (fcontent s1 fd))"
    and k2: "kind s2" by auto
  have f2: "fds s2 fd = Some \<lparr>f_ino = i, f_off = 0, f_append = True\<rparr>" and c2: "fcontent s2 fd = fcontent s1 fd"
    using f1 same_files_simps(4,7) [OF same] by simp_all
  have ae: "at_end s2 fd" using f2 by (simp add: at_end_def)
  have o: "WAL_open p n s = (if fcontent s1 fd = []
      then (case WAL_writeHeader w0 s2 of (ok, s3) \<Rightarrow>
        if \<not> ok then (Inl (runtime_error (''Failed to write WAL header: '' @ p)), snd (sys_close fd s3)) else (Inr w0, s3))
      else (case WAL_validateHeader w0 s2 of (ok, s3) \<Rightarrow>
        if \<not> ok then (Inl (runtime_error (''Invalid or corrupt WAL header: '' @ p)), snd (sys_close fd s3)) else (Inr w0, s3)))"
    using nn unfolding WAL_open_def op prod.case Let_def w0_def [symmetric] by (simp add: st z)
  have fd: "m_fd w0 = fd" by (simp add: w0_def)
  show ?thesis
  proof (cases "fcontent s1 fd = []")
    case True
    obtain ok s3 where h: "WAL_writeHeader w0 s2 = (ok, s3)" by fastforce
    with writeHeader_any [OF h] ae k2 fd have "WAL_open p n s = (Inr w0, s3)" "kind s3" using o True by simp_all
    moreover have "file_of s p = None \<or> file_of s p = Some []" using True fc1 by (auto split: option.splits)
    ultimately show ?thesis by auto
  next
    case False
    obtain ok s3 where h: "WAL_validateHeader w0 s2 = (ok, s3)" by fastforce
    with validateHeader_any [OF h] k2 f2 fd c2 have "ok = valid_header (take 16 (fcontent s1 fd))" "kind s3" by simp_all
    moreover obtain b c where "file_of s p = Some (b # c)" "fcontent s1 fd = b # c"
      using False fc1 by (cases "fcontent s1 fd") (auto split: option.splits)
    ultimately show ?thesis using o h False by auto
  qed
qed

section \<open>Verify and recover\<close>

lemma WAL_verify_kind:
  assumes "WAL_verify w s = (r, t)" and "m_fd w \<noteq> -1" and "fds s (m_fd w) \<noteq> None" and "kind s"
  shows "r = chain_result (fcontent s (m_fd w)) \<and> kind t \<and> only_file (m_fd w) s t \<and>
    fcontent t (m_fd w) = fcontent s (m_fd w) \<and> fstable t (m_fd w) = fstable s (m_fd w)"
proof -
  obtain u where wc: "walkChain w None None False () s = (r, u, t)"
    using assms(1) by (auto simp: WAL_verify_def split: prod.splits)
  obtain vs e where sc: "file_scan (fcontent s (m_fd w)) = (vs, e)" by fastforce
  from walkChain_kind [OF wc assms(3,2,4) sc] sc show ?thesis by (simp add: chain_result_def)
qed

lemma WAL_verify_any:
  assumes "WAL_verify w s = (r, t)"
  shows "only_file (m_fd w) s t \<and> fcontent t (m_fd w) = fcontent s (m_fd w) \<and> fstable t (m_fd w) = fstable s (m_fd w)"
proof -
  obtain u where wc: "walkChain w None None False () s = (r, u, t)"
    using assms(1) by (auto simp: WAL_verify_def split: prod.splits)
  obtain vs e where sc: "file_scan (fcontent s (m_fd w)) = (vs, e)" by fastforce
  from walkChain_any [OF wc sc] show ?thesis by auto
qed

text \<open>The visitor's calls, on the records of the entries.\<close>

definition replay_one :: "'s visitor \<Rightarrow> u64 option \<Rightarrow> 's \<Rightarrow> log_record \<Rightarrow> 's" where
  "replay_one f m st r =
    (if (case m of None \<Rightarrow> True | Some x \<Rightarrow> r_epoch r > x) then f st (r_type r) (r_key r) (r_value r) (r_ts r) else st)"

lemma visit_replay: "visit (Some f) m v st = replay_one f m st (record_of v)"
  by (cases m) (simp_all add: visit_def replay_one_def record_of_def)

lemma foldl_visit_replay:
  "foldl (\<lambda>x v. visit (Some f) m v x) st vs = foldl (replay_one f m) st (map record_of vs)"
  by (simp add: visit_replay foldl_map)

lemma holds_bytes_cut:
  assumes sc: "file_scan c = (vs, e)" and h: "valid_header (take 16 c)" and e: "\<forall>x. e \<noteq> BadAt x"
  shows "holds_bytes (if e = TornTail then take (16 + total_len vs) c else c) (map record_of vs)"
proof -
  let ?rs = "map record_of vs"
  have s: "list_all storable ?rs" "vs = verified_list zero_hash 0 ?rs"
      "drop 16 c = log_bytes zero_hash 0 ?rs @ drop (total_len vs) (drop 16 c)"
      "e = Clean \<longrightarrow> drop 16 c = log_bytes zero_hash 0 ?rs"
    using scan_log_sound [OF sc [unfolded file_scan_def]] by blast+
  have len: "total_len vs = length (log_bytes zero_hash 0 ?rs)" using s(2) by (metis total_len_verified_list)
  show ?thesis
  proof (cases "e = TornTail")
    case True
    have "drop 16 (take (16 + total_len vs) c) = take (total_len vs) (drop 16 c)"
      by (simp add: drop_take)
    also have "\<dots> = log_bytes zero_hash 0 ?rs" using s(3) len by (metis append_eq_conv_conj)
    finally show ?thesis using True h s(1) by (simp add: holds_bytes_def min_def)
  next
    case False
    with e have "e = Clean" by (cases e) auto
    with False h s show ?thesis by (simp add: holds_bytes_def)
  qed
qed

lemma WAL_recover_kind:
  assumes rc: "WAL_recover f m st w s = (r, st', w', t)" and nn: "m_fd w \<noteq> -1" and app: "appending s (m_fd w)"
    and k: "kind s" and sc: "file_scan (fcontent s (m_fd w)) = (vs, e)"
    and h: "valid_header (take 16 (fcontent s (m_fd w)))"
  shows "r = result_of vs e \<and> st' = foldl (replay_one f m) st (map record_of vs) \<and> kind t \<and> only_file (m_fd w) s t \<and>
    (if \<exists>x. e = BadAt x then w' = w \<and> fcontent t (m_fd w) = fcontent s (m_fd w)
     else w' = w\<lparr>m_seq := of_nat (length vs), m_headHash := end_hash zero_hash vs\<rparr> \<and> wal_holds w' t (map record_of vs)) \<and>
    (e = Clean \<longrightarrow> fcontent t (m_fd w) = fcontent s (m_fd w)) \<and> fstable t (m_fd w) = fstable s (m_fd w)"
proof -
  let ?fd = "m_fd w" and ?c = "fcontent s (m_fd w)"
  obtain r1 st1 s1 where wc: "walkChain w (Some f) m True st s = (r1, st1, s1)" by (metis prod_cases3)
  from walkChain_kind [OF wc appending_open [OF app] nn k sc] have
    a: "r1 = result_of vs e" "st1 = foldl (replay_one f m) st (map record_of vs)" "kind s1" "only_file ?fd s s1"
      "fstable s1 ?fd = fstable s ?fd" "fcontent s1 ?fd = (if e = TornTail then take (16 + total_len vs) ?c else ?c)"
    by (simp_all only: foldl_visit_replay simp_thms)
  have app1: "appending s1 ?fd" using app only_file_appending [OF a(4)] by simp
  have vs: "vs = verified_list zero_hash 0 (map record_of vs)"
    and bad: "\<forall>x. e = BadAt x \<longrightarrow> x \<noteq> Ok \<and> x \<noteq> TruncatedTail"
    using scan_log_sound [OF sc [unfolded file_scan_def]] by blast+
  have ends: "end_seq 0 vs = of_nat (length vs)" "end_hash zero_hash vs = log_head zero_hash 0 (map record_of vs)"
    using arg_cong [OF vs, of "end_seq 0"] arg_cong [OF vs, of "end_hash zero_hash"] by simp_all
  have out: "r = r1" "st' = st1" "t = s1" "w' = (if status r1 = Ok \<or> status r1 = TruncatedTail
        then w\<lparr>m_seq := entriesVerified r1, m_headHash := headHash r1\<rparr> else w)"
    using rc wc by (auto simp: WAL_recover_def split: if_splits)
  have ok_iff: "(status r1 = Ok \<or> status r1 = TruncatedTail) \<longleftrightarrow> \<not> (\<exists>x. e = BadAt x)"
    using bad unfolding a(1) by (cases e) (auto simp: result_of_def)
  show ?thesis
  proof (cases "\<exists>x. e = BadAt x")
    case True
    with out ok_iff a show ?thesis by auto
  next
    case False
    then have w': "w' = w\<lparr>m_seq := of_nat (length vs), m_headHash := end_hash zero_hash vs\<rparr>"
      using out(4) ok_iff ends by (simp add: a(1) result_of_def)
    from holds_bytes_cut [OF sc h] False a(6) have "holds_bytes (fcontent s1 ?fd) (map record_of vs)" by auto
    then have "wal_holds w' s1 (map record_of vs)"
      using nn app1 by (simp add: wal_holds_def w' ends)
    with out(1-3) a w' False show ?thesis by simp
  qed
qed

text \<open>
  Any environment: the visitor has been called for a prefix of the genuine records, and the file is a
  prefix of what it was; it is untouched when the verdict is damage.
\<close>

lemma WAL_recover_any:
  assumes rc: "WAL_recover f m st w s = (r, st', w', t)"
    and sc: "file_scan (fcontent s (m_fd w)) = (vs, e)"
  shows "only_file (m_fd w) s t \<and> fstable t (m_fd w) = fstable s (m_fd w) \<and>
    (\<exists>us. us = take (length us) vs \<and> st' = foldl (replay_one f m) st (map record_of us) \<and>
      (fcontent t (m_fd w) = fcontent s (m_fd w) \<or>
        r = result_of us TornTail \<and> fcontent t (m_fd w) = take (16 + total_len us) (fcontent s (m_fd w))) \<and>
      (r = RecoveryResult_default \<and> us = [] \<or> r = result_of vs e \<and> us = vs \<or> r = result_of us TornTail))"
proof -
  obtain st1 where wc: "walkChain w (Some f) m True st s = (r, st1, t)" and st: "st' = st1"
    using rc by (auto simp: WAL_recover_def split: prod.splits)
  from walkChain_any [OF wc sc] show ?thesis
    unfolding foldl_visit_replay st by auto
qed

section \<open>Crashes\<close>

text \<open>
  After a crash the file holds its contents up to some point not before the end of what was on
  stable storage.
\<close>

lemma crash_scan:
  assumes inv: "wal_holds w s rs" and sy: "wal_synced w s rs" and n: "length (fstable s (m_fd w)) \<le> n"
  shows "\<exists>k e. length rs - m_pendingWrites w \<le> k \<and> k \<le> length rs \<and> e \<in> {Clean, TornTail} \<and>
    file_scan (take n (fcontent s (m_fd w))) = (verified_list zero_hash 0 (take k rs), e)"
proof -
  let ?c = "fcontent s (m_fd w)"
  have hb: "holds_bytes ?c rs" using inv by (simp add: wal_holds_def)
  then have st: "list_all storable rs" and d: "drop 16 ?c = log_bytes zero_hash 0 rs"
    by (simp_all add: holds_bytes_def)
  have "drop 16 (take n ?c) = take (n - 16) (log_bytes zero_hash 0 rs)"
    unfolding d [symmetric] by (rule drop_take)
  then have "\<exists>e \<in> {Clean, TornTail}.
      file_scan (take n ?c) = (verified_list zero_hash 0 (take (complete_count (n - 16) rs) rs), e)"
    unfolding file_scan_def by (simp add: scan_log_cut [OF st])
  moreover have "length rs - m_pendingWrites w \<le> complete_count (n - 16) rs"
    using sy n by (intro complete_count_ge [of _ _ zero_hash 0]) (auto simp: wal_synced_def)
  moreover note complete_count_le [of "n - 16" rs]
  ultimately show ?thesis by blast
qed

text \<open>
  Whatever happens during \<open>append\<close>, cutting the file anywhere behind the records it held before
  leaves those records, or those and the new one.
\<close>

lemma append_crash_scan:
  assumes ap: "WAL_append type key val ts w s = (res, w', t)" and inv: "wal_holds w s rs"
    and st: "storable (new_record w type key val ts)"
    and n: "16 + length (log_bytes zero_hash 0 rs) \<le> n"
  shows "\<exists>e \<in> {Clean, TornTail}. file_scan (take n (fcontent t (m_fd w))) = (verified_list zero_hash 0 rs, e) \<or>
    file_scan (take n (fcontent t (m_fd w))) = (verified_list zero_hash 0 (rs @ [new_record w type key val ts]), e)"
proof -
  let ?r = "new_record w type key val ts" and ?c = "fcontent s (m_fd w)"
  let ?e = "entry_bytes (m_headHash w) (m_seq w) ?r"
  have hb: "holds_bytes ?c rs" and sq: "m_seq w = of_nat (length rs)" "m_headHash w = log_head zero_hash 0 rs"
    using inv by (simp_all add: wal_holds_def)
  have len: "length ?c = 16 + length (log_bytes zero_hash 0 rs)" using holds_bytes_len [OF hb] by simp
  have stl: "list_all storable (rs @ [?r])" using hb st by (simp add: holds_bytes_def)
  have fd: "m_fd w' = m_fd w" using WAL_append_any [OF ap inv st] by blast
  obtain k where k: "drop 16 (fcontent t (m_fd w)) = take k (log_bytes zero_hash 0 (rs @ [?r]))"
      "length (log_bytes zero_hash 0 rs) \<le> k"
  proof (cases "wal_holds w' t (rs @ [?r])")
    case True
    then have "drop 16 (fcontent t (m_fd w)) = log_bytes zero_hash 0 (rs @ [?r])"
      using fd by (simp add: wal_holds_def holds_bytes_def)
    then show ?thesis using that [of "length (log_bytes zero_hash 0 (rs @ [?r]))"] by (simp add: log_bytes_append)
  next
    case False
    with WAL_append_any [OF ap inv st] obtain j where "fcontent t (m_fd w) = ?c @ take j ?e" by blast
    then have "drop 16 (fcontent t (m_fd w)) = log_bytes zero_hash 0 rs @ take j ?e"
      using hb len by (simp add: holds_bytes_def)
    then show ?thesis
      using that [of "length (log_bytes zero_hash 0 rs) + j"] by (simp add: log_bytes_append sq)
  qed
  have "drop 16 (take n (fcontent t (m_fd w))) = take (min k (n - 16)) (log_bytes zero_hash 0 (rs @ [?r]))"
    using k(1) by (simp add: drop_take min.commute)
  then have sc: "file_scan (take n (fcontent t (m_fd w))) =
      (verified_list zero_hash 0 (take (complete_count (min k (n - 16)) (rs @ [?r])) (rs @ [?r])),
       if min k (n - 16) \<le> length (log_bytes zero_hash 0 (take (complete_count (min k (n - 16)) (rs @ [?r])) (rs @ [?r]))) \<or>
         complete_count (min k (n - 16)) (rs @ [?r]) = length (rs @ [?r]) then Clean else TornTail)"
    unfolding file_scan_def by (simp only: scan_log_cut [OF stl])
  have "length rs \<le> complete_count (min k (n - 16)) (rs @ [?r])"
    using k(2) n by (intro complete_count_ge [of _ _ zero_hash 0]) auto
  with complete_count_le [of "min k (n - 16)" "rs @ [?r]"]
  have "complete_count (min k (n - 16)) (rs @ [?r]) = length rs \<or>
      complete_count (min k (n - 16)) (rs @ [?r]) = length (rs @ [?r])" by auto
  then show ?thesis using sc by auto
qed

section \<open>The log is a journal\<close>

text \<open>\<open>append\<close> and \<open>recover\<close> with their arguments and results arranged as the contract has them.\<close>

type_synonym log_call = "RecordType \<times> bytes \<times> bytes \<times> i64"

definition wal_stamp :: "WAL \<Rightarrow> log_call \<Rightarrow> log_record" where
  "wal_stamp w a = (case a of (type, key, val, ts) \<Rightarrow> new_record w type key val ts)"

definition wal_append_ok :: "log_call \<Rightarrow> WAL \<Rightarrow> os \<Rightarrow> bool \<times> WAL \<times> os" where
  "wal_append_ok a w s = (case a of (type, key, val, ts) \<Rightarrow>
     (case WAL_append type key val ts w s of (res, w', t) \<Rightarrow> (res = Inr (), w', t)))"

definition wal_replay :: "'s visitor \<times> u64 option \<Rightarrow> 's \<Rightarrow> WAL \<Rightarrow> os \<Rightarrow> 's \<times> WAL \<times> os" where
  "wal_replay v st w s = (case WAL_recover (fst v) (snd v) st w s of (r, st', w', t) \<Rightarrow> (st', w', t))"

definition wal_step :: "'s visitor \<times> u64 option \<Rightarrow> 's \<Rightarrow> log_record \<Rightarrow> 's" where
  "wal_step v = replay_one (fst v) (snd v)"

interpretation wj: journal wal_holds wal_stamp storable wal_append_ok WAL_reset kind wal_replay wal_step
proof unfold_locales
  fix w s rs a w' t
  assume h: "wal_holds w s rs" and st: "storable (wal_stamp w a)" and ap: "wal_append_ok a w s = (True, w', t)"
  obtain type key val ts where a: "a = (type, key, val, ts)" by (metis prod_cases4)
  from ap a have "WAL_append type key val ts w s = (Inr (), w', t)"
    by (auto simp: wal_append_ok_def split: prod.splits)
  from WAL_append_any [OF this h] st a show "wal_holds w' t (rs @ [wal_stamp w a])"
    by (simp add: wal_stamp_def)
next
  fix w s rs w' t
  assume "wal_holds w s rs" "WAL_reset w s = (True, w', t)"
  then show "wal_holds w' t []" using WAL_reset_empties by blast
next
  fix w s rs and v :: "'b visitor \<times> u64 option" and st st' w' t
  assume h: "wal_holds w s rs" and k: "kind s" and rp: "wal_replay v st w s = (st', w', t)"
  obtain r where rc: "WAL_recover (fst v) (snd v) st w s = (r, st', w', t)"
    using rp by (auto simp: wal_replay_def split: prod.splits)
  have hb: "holds_bytes (fcontent s (m_fd w)) rs" "m_fd w \<noteq> -1" "appending s (m_fd w)"
    using h by (simp_all add: wal_holds_def)
  then have "valid_header (take 16 (fcontent s (m_fd w)))" by (simp add: holds_bytes_def)
  from WAL_recover_kind [OF rc hb(2,3) k file_scan_holds [OF hb(1)] this]
  show "st' = foldl (wal_step v) st rs \<and> wal_holds w' t rs \<and> kind t"
    by (auto simp: wal_step_def)
qed

end
