(* ===== verification/Snapshot.thy ===== *)
theory Snapshot
  imports ExactIO Endian CRC32
begin

text \<open>
  \<^verbatim>\<open>include/persistence/Snapshot.hpp\<close> and \<^verbatim>\<open>src/Snapshot.cpp\<close>: point-in-time images of the store.

  \<open>SnapshotState\<close> is a \<open>std::unordered_map\<close>; it is an association list whose order stands for the
  iteration order, about which nothing may be assumed: the statements about \<open>save\<close> hold for every
  order. \<open>operator[]\<close> is \<open>AList.map_default\<close>.

  \<open>load\<close> reads from a buffer at a running offset. A read outside the buffer, of a length, a number or a
  string, would be undefined behaviour, so the model makes it an outcome of its own (\<open>OutOfBounds\<close>); \<open>payload.size() - offset\<close> is
  the wrapping subtraction of \<open>size_t\<close> (\<open>bytes_left\<close>). A failing \<open>load\<close> leaves the out-parameter partly
  filled, as the code does.
\<close>

section \<open>Data\<close>

record SnapshotRecord =
  sr_value :: bytes
  sr_duration :: double
  sr_timestamp :: i64

type_synonym SnapshotState = "(bytes \<times> SnapshotRecord list) list"

record SnapshotImage =
  si_epoch :: u64
  si_state :: SnapshotState

definition SnapshotImage_default :: SnapshotImage where
  "SnapshotImage_default = \<lparr>si_epoch = 0, si_state = []\<rparr>"

definition SNAP_MAGIC :: u32 where "SNAP_MAGIC = 0x534E4150"
definition SNAP_VERSION :: u32 where "SNAP_VERSION = 1"
definition OFF_MAGIC :: nat where "OFF_MAGIC = 0"
definition OFF_VERSION :: nat where "OFF_VERSION = OFF_MAGIC + 4"
definition OFF_CRC :: nat where "OFF_CRC = OFF_VERSION + 4"
definition HEADER_SIZE :: nat where "HEADER_SIZE = OFF_CRC + 4"
definition MIN_RECORD_BYTES :: nat where "MIN_RECORD_BYTES = 8 + 8 + 4"
definition MIN_KEY_BYTES :: nat where "MIN_KEY_BYTES = 4 + 4"

lemmas snap_layout [layout] = OFF_MAGIC_def OFF_VERSION_def OFF_CRC_def HEADER_SIZE_def MIN_RECORD_BYTES_def MIN_KEY_BYTES_def

section \<open>Saving\<close>

text \<open>\<open>Snapshot.cpp\<close> has its own copy of \<open>writeExact\<close>, with the same body as the one of \<open>WAL.cpp\<close>.\<close>

definition Snapshot_writeExact :: "int \<Rightarrow> bytes \<Rightarrow> os \<Rightarrow> bool \<times> os" where
  "Snapshot_writeExact fd data s = writeExact_loop fd data 0 s"

definition fsyncParentDir :: "path \<Rightarrow> os \<Rightarrow> bool \<times> os" where
  "fsyncParentDir path s =
    (let dir = (if has_parent path then parent_dir path else ''.'')
     in case sys_open_dir dir s of (opened, s1) \<Rightarrow>
       if \<not> opened then (False, s1)
       else case sys_fsync_dir dir s1 of (ok, s2) \<Rightarrow> (ok, sys_close_dir s2))"

definition put_record :: "bytes \<Rightarrow> SnapshotRecord \<Rightarrow> bytes" where
  "put_record payload rec =
    (let payload = putLE64 payload (sr_timestamp rec);
         payload = putLE64 payload (doubleToBits (sr_duration rec));
         payload = putLE32 payload (of_nat (length (sr_value rec)))
     in payload @ sr_value rec)"

definition put_key :: "bytes \<Rightarrow> bytes \<times> SnapshotRecord list \<Rightarrow> bytes" where
  "put_key payload kv =
    (case kv of (key, records) \<Rightarrow>
      let payload = putLE32 payload (of_nat (length key));
          payload = payload @ key;
          payload = putLE32 payload (of_nat (length records))
      in foldl put_record payload records)"

definition snapshot_payload :: "SnapshotImage \<Rightarrow> bytes" where
  "snapshot_payload img =
    (let payload = putLE64 [] (si_epoch img);
         payload = putLE32 payload (of_nat (length (si_state img)))
     in foldl put_key payload (si_state img))"

definition snapshot_file :: "SnapshotImage \<Rightarrow> bytes" where
  "snapshot_file img =
    (let payload = snapshot_payload img;
         crc = CRC32_calculate payload;
         fileBuf = putLE32 [] SNAP_MAGIC;
         fileBuf = putLE32 fileBuf SNAP_VERSION;
         fileBuf = putLE32 fileBuf crc
     in fileBuf @ payload)"

definition Snapshot_save :: "path \<Rightarrow> SnapshotImage \<Rightarrow> os \<Rightarrow> bool \<times> os" where
  "Snapshot_save path img s =
    (let fileBuf = snapshot_file img;
         tmpPath = path @ ''.tmp''
     in case sys_open_creat tmpPath False True s of (fd, s1) \<Rightarrow>
       if fd = -1 then (False, s1)
       else case Snapshot_writeExact fd fileBuf s1 of (written, s2) \<Rightarrow>
         if \<not> written then (False, snd (sys_close fd s2))
         else case sys_fsync fd s2 of (synced, s3) \<Rightarrow>
           if \<not> synced then (False, snd (sys_close fd s3))
           else case sys_close fd s3 of (closed, s4) \<Rightarrow>
             if \<not> closed then (False, s4)
             else case sys_rename tmpPath path s4 of (renamed, s5) \<Rightarrow>
               if \<not> renamed then (False, s5)
               else fsyncParentDir path s5)"

section \<open>Loading\<close>

datatype parse_status = Good | Reject | OutOfBounds

text \<open>
  Every access to the buffer goes through \<open>slice\<close>, which has no value outside it. A read that the code
  refuses is \<open>Missing\<close>, one that it performs outside the buffer is \<open>Outside\<close>.
\<close>

datatype 'a access = Missing | Outside | At 'a nat

definition slice :: "bytes \<Rightarrow> nat \<Rightarrow> nat \<Rightarrow> bytes option" where
  "slice buf offset n = (if offset + n \<le> length buf then Some (take n (drop offset buf)) else None)"

definition readLE32 :: "bytes \<Rightarrow> nat \<Rightarrow> u32 access" where
  "readLE32 buf offset =
    (if offset + 4 > length buf then Missing
     else case slice buf offset 4 of None \<Rightarrow> Outside | Some bs \<Rightarrow> At (getLE32 bs) (offset + 4))"

definition readLE64 :: "bytes \<Rightarrow> nat \<Rightarrow> u64 access" where
  "readLE64 buf offset =
    (if offset + 8 > length buf then Missing
     else case slice buf offset 8 of None \<Rightarrow> Outside | Some bs \<Rightarrow> At (getLE64 bs) (offset + 8))"

definition bytes_left :: "bytes \<Rightarrow> nat \<Rightarrow> nat" where
  "bytes_left buf offset = unat (of_nat (length buf) - of_nat offset :: u64)"

definition push_record :: "bytes \<Rightarrow> SnapshotRecord \<Rightarrow> SnapshotState \<Rightarrow> SnapshotState" where
  "push_record key rec st = AList.map_default key [rec] (\<lambda>rs. rs @ [rec]) st"

definition touch_key :: "bytes \<Rightarrow> SnapshotState \<Rightarrow> SnapshotState" where
  "touch_key key st = AList.map_default key [] (\<lambda>rs. rs) st"

fun load_records :: "bytes \<Rightarrow> nat \<Rightarrow> bytes \<Rightarrow> nat \<Rightarrow> SnapshotState \<Rightarrow> parse_status \<times> nat \<times> SnapshotState" where
  "load_records payload 0 key offset st = (Good, offset, st)"
| "load_records payload (Suc n) key offset st =
    (case readLE64 payload offset of
       Missing \<Rightarrow> (Reject, offset, st)
     | Outside \<Rightarrow> (OutOfBounds, offset, st)
     | At rawTimestamp offset \<Rightarrow>
     case readLE64 payload offset of
       Missing \<Rightarrow> (Reject, offset, st)
     | Outside \<Rightarrow> (OutOfBounds, offset, st)
     | At rawDuration offset \<Rightarrow>
     case readLE32 payload offset of
       Missing \<Rightarrow> (Reject, offset, st)
     | Outside \<Rightarrow> (OutOfBounds, offset, st)
     | At valueLen offset \<Rightarrow>
       if unat valueLen > bytes_left payload offset then (Reject, offset, st)
       else case slice payload offset (unat valueLen) of
         None \<Rightarrow> (OutOfBounds, offset, st)
       | Some val \<Rightarrow>
           load_records payload n key (offset + unat valueLen)
             (push_record key \<lparr>sr_value = val, sr_duration = bitsToDouble rawDuration, sr_timestamp = rawTimestamp\<rparr> st))"

fun load_keys :: "bytes \<Rightarrow> nat \<Rightarrow> nat \<Rightarrow> SnapshotState \<Rightarrow> parse_status \<times> nat \<times> SnapshotState" where
  "load_keys payload 0 offset st = (Good, offset, st)"
| "load_keys payload (Suc n) offset st =
    (case readLE32 payload offset of
       Missing \<Rightarrow> (Reject, offset, st)
     | Outside \<Rightarrow> (OutOfBounds, offset, st)
     | At keyLen offset \<Rightarrow>
       if unat keyLen > bytes_left payload offset then (Reject, offset, st)
       else case slice payload offset (unat keyLen) of
         None \<Rightarrow> (OutOfBounds, offset, st)
       | Some key \<Rightarrow>
         case readLE32 payload (offset + unat keyLen) of
           Missing \<Rightarrow> (Reject, offset + unat keyLen, st)
         | Outside \<Rightarrow> (OutOfBounds, offset + unat keyLen, st)
         | At recordCount offset \<Rightarrow>
           if unat recordCount > bytes_left payload offset div MIN_RECORD_BYTES then (Reject, offset, st)
           else case load_records payload (unat recordCount) key offset (touch_key key st) of (status, offset, st) \<Rightarrow>
             if status \<noteq> Good then (status, offset, st)
             else load_keys payload n offset st)"

definition load_payload :: "bytes \<Rightarrow> SnapshotImage \<Rightarrow> parse_status \<times> SnapshotImage" where
  "load_payload payload img =
    (case readLE64 payload 0 of
       Missing \<Rightarrow> (Reject, img)
     | Outside \<Rightarrow> (OutOfBounds, img)
     | At epoch offset \<Rightarrow>
       let img = img\<lparr>si_epoch := epoch\<rparr>
       in case readLE32 payload offset of
         Missing \<Rightarrow> (Reject, img)
       | Outside \<Rightarrow> (OutOfBounds, img)
       | At keyCount offset \<Rightarrow>
         if unat keyCount > bytes_left payload offset div MIN_KEY_BYTES then (Reject, img)
         else case load_keys payload (unat keyCount) offset [] of (status, _, st) \<Rightarrow>
           (status, img\<lparr>si_state := st\<rparr>))"

definition load_bytes :: "bytes \<Rightarrow> SnapshotImage \<Rightarrow> parse_status \<times> SnapshotImage" where
  "load_bytes file img =
    (if length file < HEADER_SIZE then (Reject, img)
     else
       let header = take HEADER_SIZE file;
           magic = getLE32 (drop OFF_MAGIC header);
           version = getLE32 (drop OFF_VERSION header);
           storedCRC = getLE32 (drop OFF_CRC header)
       in if magic \<noteq> SNAP_MAGIC \<or> version \<noteq> SNAP_VERSION then (Reject, img)
          else let payload = drop HEADER_SIZE file
            in if CRC32_calculate payload \<noteq> storedCRC then (Reject, img)
               else load_payload payload img)"

definition Snapshot_load :: "path \<Rightarrow> SnapshotImage \<Rightarrow> os \<Rightarrow> (parse_status \<times> SnapshotImage) \<times> os" where
  "Snapshot_load path img s =
    (case ifstream_read path s of (inp, s1) \<Rightarrow>
      (case inp of None \<Rightarrow> (Reject, img) | Some file \<Rightarrow> load_bytes file img, s1))"

section \<open>Bounds\<close>

text \<open>Files fit the address space, so their sizes are \<open>size_t\<close> values.\<close>

lemma bytes_left: "offset \<le> length buf \<Longrightarrow> length buf < 2 ^ 64 \<Longrightarrow> bytes_left buf offset = length buf - offset"
  by (simp add: bytes_left_def unat_sub word_le_nat_alt unat_of_nat)

lemma readLE32_bound:
  "readLE32 buf off \<noteq> Outside" "readLE32 buf off = At v off' \<Longrightarrow> off' = off + 4 \<and> off' \<le> length buf"
  by (auto simp: readLE32_def slice_def split: if_splits)

lemma readLE64_bound:
  "readLE64 buf off \<noteq> Outside" "readLE64 buf off = At v off' \<Longrightarrow> off' = off + 8 \<and> off' \<le> length buf"
  by (auto simp: readLE64_def slice_def split: if_splits)

lemma load_records_bound:
  "load_records payload n key off st = (status, off', st') \<Longrightarrow> length payload < 2 ^ 64 \<Longrightarrow> off \<le> length payload \<Longrightarrow>
    status \<noteq> OutOfBounds \<and> off' \<le> length payload"
proof (induction n arbitrary: off st)
  case (Suc n)
  then show ?case
    by (fastforce simp: slice_def bytes_left simp: readLE32_bound(1) readLE64_bound(1) dest: readLE32_bound(2) readLE64_bound(2)
        split: option.splits access.splits if_splits)
qed simp

lemma load_keys_bound:
  "load_keys payload n off st = (status, off', st') \<Longrightarrow> length payload < 2 ^ 64 \<Longrightarrow> off \<le> length payload \<Longrightarrow>
    status \<noteq> OutOfBounds \<and> off' \<le> length payload"
proof (induction n arbitrary: off st)
  case (Suc n)
  then show ?case
    by (fastforce simp: slice_def bytes_left simp: readLE32_bound(1) dest: readLE32_bound(2) load_records_bound
        split: option.splits access.splits if_splits prod.splits)
qed simp

lemma load_payload_bound:
  "load_payload payload img = (status, img') \<Longrightarrow> length payload < 2 ^ 64 \<Longrightarrow> status \<noteq> OutOfBounds"
  by (auto simp: load_payload_def Let_def readLE32_bound(1) readLE64_bound(1) dest: load_keys_bound readLE32_bound(2) readLE64_bound(2)
      split: access.splits if_splits prod.splits)

lemma load_bytes_bound: "length file < 2 ^ 64 \<Longrightarrow> fst (load_bytes file img) \<noteq> OutOfBounds"
  using load_payload_bound [of "drop HEADER_SIZE file" img]
  by (cases "load_payload (drop HEADER_SIZE file) img") (auto simp: load_bytes_def Let_def)

end
