(* ===== verification/Snapshot_Format.thy ===== *)
theory Snapshot_Format
  imports Snapshot
begin

text \<open>
  The snapshot format: \<open>load_bytes\<close> inverts \<open>snapshot_file\<close> for every image whose lengths fit their
  32-bit fields, in every iteration order of the map, and a damaged payload byte is refused.
\<close>

section \<open>The payload as a concatenation\<close>

lemma put_record_append: "put_record p r = p @ put_record [] r"
  unfolding put_record_def Let_def
  by (metis append.assoc append_Nil putLE32_append putLE64_append)

lemma foldl_put_record: "foldl put_record p rs = p @ concat (map (put_record []) rs)"
proof (induction rs arbitrary: p)
  case (Cons r rs)
  then show ?case using put_record_append [of p r] by simp
qed simp

definition key_bytes :: "bytes \<times> SnapshotRecord list \<Rightarrow> bytes" where
  "key_bytes kv = putLE32 [] (of_nat (length (fst kv))) @ fst kv @ putLE32 [] (of_nat (length (snd kv))) @
     concat (map (put_record []) (snd kv))"

lemma put_key_append: "put_key p kv = p @ key_bytes kv"
proof (cases kv)
  case (Pair key rs)
  have "putLE32 (putLE32 p a @ key) b = p @ putLE32 [] a @ key @ putLE32 [] b" for a b
    by (subst putLE32_append, subst putLE32_append [of p]) simp
  with Pair show ?thesis by (simp add: put_key_def key_bytes_def Let_def foldl_put_record)
qed

lemma foldl_put_key: "foldl put_key p st = p @ concat (map key_bytes st)"
  by (induction st arbitrary: p) (simp_all add: put_key_append)

lemma snapshot_payload_eq:
  "snapshot_payload img =
    putLE64 [] (si_epoch img) @ putLE32 [] (of_nat (length (si_state img))) @ concat (map key_bytes (si_state img))"
  unfolding snapshot_payload_def Let_def foldl_put_key by (metis append.assoc putLE32_append)

lemma put_record_eq:
  "put_record [] r = putLE64 [] (sr_timestamp r) @ putLE64 [] (doubleToBits (sr_duration r)) @
    putLE32 [] (of_nat (length (sr_value r))) @ sr_value r"
  unfolding put_record_def Let_def by (metis append.assoc putLE32_append putLE64_append)

lemma length_put_record: "length (put_record [] r) = 20 + length (sr_value r)"
  by (simp add: put_record_eq)

section \<open>Reading at an offset\<close>

lemma readLE32_at [simp]: "readLE32 (pre @ putLE32 [] v @ post) (length pre) = At v (length pre + 4)"
  using le32.dec_enc [of v "[]"] by (simp add: readLE32_def slice_def)

lemma readLE64_at [simp]: "readLE64 (pre @ putLE64 [] v @ post) (length pre) = At v (length pre + 8)"
  using le64.dec_enc [of v "[]"] by (simp add: readLE64_def slice_def)

lemma slice_at [simp]: "slice (pre @ bs @ post) (length pre) (length bs) = Some bs"
  by (simp add: slice_def)

text \<open>The same at an offset that is given by its value.\<close>

lemma readLE32_at': "length pre = n \<Longrightarrow> readLE32 (pre @ putLE32 [] v @ post) n = At v (n + 4)"
  using readLE32_at by blast

lemma readLE64_at': "length pre = n \<Longrightarrow> readLE64 (pre @ putLE64 [] v @ post) n = At v (n + 8)"
  using readLE64_at by blast

lemma slice_at': "length pre = n \<Longrightarrow> length bs = k \<Longrightarrow> slice (pre @ bs @ post) n k = Some bs"
  using slice_at by blast

section \<open>Round trip\<close>

definition fits32 :: "nat \<Rightarrow> bool" where
  "fits32 n \<longleftrightarrow> n < 2 ^ 32"

lemma fits32_unat [simp]: "fits32 n \<Longrightarrow> unat (of_nat n :: u32) = n"
  by (simp add: fits32_def unat_of_nat)

text \<open>The image fits the format: every length and count fits its 32-bit field.\<close>

definition image_fits :: "SnapshotImage \<Rightarrow> bool" where
  "image_fits img \<longleftrightarrow> fits32 (length (si_state img)) \<and> distinct (map fst (si_state img)) \<and>
     (\<forall>kv \<in> set (si_state img). fits32 (length (fst kv)) \<and> fits32 (length (snd kv)) \<and>
        (\<forall>r \<in> set (snd kv). fits32 (length (sr_value r)))) \<and>
     length (snapshot_file img) < 2 ^ 64"

lemma load_records_encoded:
  assumes "\<forall>r \<in> set rs. fits32 (length (sr_value r))"
    and "length (pre @ concat (map (put_record []) rs) @ post) < 2 ^ 64"
  shows "load_records (pre @ concat (map (put_record []) rs) @ post) (length rs) key (length pre) st =
    (Good, length pre + length (concat (map (put_record []) rs)), foldl (\<lambda>st r. push_record key r st) st rs)"
  using assms
proof (induction rs arbitrary: pre st)
  case (Cons r rs)
  let ?ts = "putLE64 [] (sr_timestamp r)" and ?d = "putLE64 [] (doubleToBits (sr_duration r))"
    and ?n = "putLE32 [] (of_nat (length (sr_value r)))" and ?v = "sr_value r"
    and ?more = "concat (map (put_record []) rs) @ post"
  let ?buf = "pre @ concat (map (put_record []) (r # rs)) @ post"
  have buf: "?buf = pre @ ?ts @ ?d @ ?n @ ?v @ ?more" by (simp add: put_record_eq)
  have r1: "readLE64 ?buf (length pre) = At (sr_timestamp r) (length pre + 8)"
    unfolding buf by (rule readLE64_at') simp
  have r2: "readLE64 ?buf (length pre + 8) = At (doubleToBits (sr_duration r)) (length pre + 16)"
    using readLE64_at' [of "pre @ ?ts" "length pre + 8" _ "?n @ ?v @ ?more"] unfolding buf by simp
  have r3: "readLE32 ?buf (length pre + 16) = At (of_nat (length ?v)) (length pre + 20)"
    using readLE32_at' [of "pre @ ?ts @ ?d" "length pre + 16" _ "?v @ ?more"] unfolding buf by simp
  have r4: "slice ?buf (length pre + 20) (length ?v) = Some ?v"
    using slice_at' [of "pre @ ?ts @ ?d @ ?n" "length pre + 20" ?v _ ?more] unfolding buf by simp
  have fit: "fits32 (length ?v)" using Cons.prems(1) by simp
  have lenb: "length ?buf = length pre + 20 + length ?v + length ?more" by (simp add: length_put_record)
  have left: "bytes_left ?buf (length pre + 20) = length ?v + length ?more"
    using Cons.prems(2) lenb by (subst bytes_left) auto
  have IH: "load_records ?buf (length rs) key (length pre + 20 + length ?v) st' =
      (Good, length pre + 20 + length ?v + length (concat (map (put_record []) rs)),
       foldl (\<lambda>st r. push_record key r st) st' rs)" for st'
    using Cons.IH [of "pre @ put_record [] r" st'] Cons.prems by (simp add: length_put_record add.assoc)
  have same: "\<lparr>sr_value = sr_value r, sr_duration = sr_duration r, sr_timestamp = sr_timestamp r\<rparr> = r" by simp
  have step: "load_records ?buf (length (r # rs)) key (length pre) st =
      load_records ?buf (length rs) key (length pre + 20 + length ?v) (push_record key r st)"
    using fit by (simp only: length_Cons load_records.simps r1 r2 r3 r4 left option.case access.case fits32_unat
      bitsToDouble_doubleToBits if_False not_less le_add1)
      (simp add: add.assoc same)
  show ?case unfolding step IH by (simp add: length_put_record)
qed simp

lemma touch_key_new: "key \<notin> set (map fst st) \<Longrightarrow> touch_key key st = st @ [(key, [])]"
  by (induction st) (auto simp: touch_key_def)

lemma push_records_last:
  "key \<notin> set (map fst st) \<Longrightarrow> foldl (\<lambda>st r. push_record key r st) (st @ [(key, rs)]) qs = st @ [(key, rs @ qs)]"
proof (induction qs arbitrary: rs)
  case (Cons q qs)
  have "push_record key q (st @ [(key, rs)]) = st @ [(key, rs @ [q])]"
    using Cons.prems by (induction st) (auto simp: push_record_def)
  with Cons show ?case by simp
qed simp

lemma concat_length_ge: "(\<forall>x \<in> set xs. n \<le> length (f x)) \<Longrightarrow> length xs * n \<le> length (concat (map f xs))"
  by (induction xs) auto

lemma load_keys_encoded:
  assumes "\<forall>kv \<in> set kvs. fits32 (length (fst kv)) \<and> fits32 (length (snd kv)) \<and>
      (\<forall>r \<in> set (snd kv). fits32 (length (sr_value r)))"
    and "length (pre @ concat (map key_bytes kvs)) < 2 ^ 64" and "distinct (map fst (st @ kvs))"
  shows "\<exists>off. load_keys (pre @ concat (map key_bytes kvs)) (length kvs) (length pre) st = (Good, off, st @ kvs)"
  using assms
proof (induction kvs arbitrary: pre st)
  case (Cons kv kvs)
  obtain key rs where kv: "kv = (key, rs)" by fastforce
  let ?n = "putLE32 [] (of_nat (length key))" and ?c = "putLE32 [] (of_nat (length rs))"
    and ?recs = "concat (map (put_record []) rs)" and ?more = "concat (map key_bytes kvs)"
  let ?buf = "pre @ concat (map key_bytes (kv # kvs))"
  have buf: "?buf = pre @ ?n @ key @ ?c @ ?recs @ ?more" by (simp add: key_bytes_def kv)
  have fit: "fits32 (length key)" "fits32 (length rs)" "\<forall>r \<in> set rs. fits32 (length (sr_value r))"
    using Cons.prems(1) by (auto simp: kv)
  have lenb: "length ?buf = length pre + 8 + length key + length ?recs + length ?more" by (simp add: key_bytes_def kv)
  have r1: "readLE32 ?buf (length pre) = At (of_nat (length key)) (length pre + 4)"
    unfolding buf by (rule readLE32_at') simp
  have l1: "bytes_left ?buf (length pre + 4) = 4 + length key + length ?recs + length ?more"
    using Cons.prems(2) lenb by (subst bytes_left) auto
  have r2: "slice ?buf (length pre + 4) (length key) = Some key"
    using slice_at' [of "pre @ ?n" "length pre + 4" key _ "?c @ ?recs @ ?more"] unfolding buf by simp
  have r3: "readLE32 ?buf (length pre + 4 + length key) = At (of_nat (length rs)) (length pre + 8 + length key)"
    using readLE32_at' [of "pre @ ?n @ key" "length pre + 4 + length key" _ "?recs @ ?more"] unfolding buf by simp
  have l2: "bytes_left ?buf (length pre + 8 + length key) = length ?recs + length ?more"
    using Cons.prems(2) lenb by (subst bytes_left) auto
  have "length rs * 20 \<le> length ?recs" by (rule concat_length_ge) (simp add: length_put_record)
  then have cnt: "length rs \<le> bytes_left ?buf (length pre + 8 + length key) div MIN_RECORD_BYTES"
    unfolding l2 by (simp add: layout less_eq_div_iff_mult_less_eq)
  have new: "key \<notin> set (map fst st)" using Cons.prems(3) by (auto simp: kv)
  have "length (pre @ ?n @ key @ ?c) = length pre + 8 + length key" by simp
  then have r4: "load_records ?buf (length rs) key (length pre + 8 + length key) (touch_key key st) =
      (Good, length pre + 8 + length key + length ?recs, st @ [(key, rs)])"
    using load_records_encoded [OF fit(3), of "pre @ ?n @ key @ ?c" ?more key "touch_key key st"] Cons.prems(2)
      push_records_last [OF new, of "[]" rs] touch_key_new [OF new]
    unfolding buf by (simp add: add.assoc)
  have "\<exists>off. load_keys ((pre @ key_bytes kv) @ ?more) (length kvs) (length (pre @ key_bytes kv)) (st @ [(key, rs)]) =
      (Good, off, (st @ [(key, rs)]) @ kvs)"
    using Cons.prems by (intro Cons.IH) (auto simp: kv)
  then obtain off where IH: "load_keys ?buf (length kvs) (length pre + 8 + length key + length ?recs) (st @ [(key, rs)]) =
      (Good, off, st @ kv # kvs)"
    by (auto simp: key_bytes_def kv add.assoc)
  define b where "b = ?buf"
  note f = r1 [folded b_def] r2 [folded b_def] r3 [folded b_def] r4 [folded b_def] l1 [folded b_def]
    cnt [folded b_def] IH [folded b_def]
  have "load_keys b (length (kv # kvs)) (length pre) st = (Good, off, st @ kv # kvs)"
    using fit f by (simp add: kv)
  then have "load_keys ?buf (length (kv # kvs)) (length pre) st = (Good, off, st @ kv # kvs)" by (simp only: b_def)
  then show ?case by blast
qed simp

lemma snapshot_file_eq:
  "snapshot_file img = putLE32 [] SNAP_MAGIC @ putLE32 [] SNAP_VERSION @
    putLE32 [] (CRC32_calculate (snapshot_payload img)) @ snapshot_payload img"
  unfolding snapshot_file_def Let_def by (metis append.assoc putLE32_append)

lemma load_bytes_at:
  assumes "length m = 4" "length v = 4" "length c = 4"
  shows "load_bytes (m @ v @ c @ payload) img =
    (if getLE32 m \<noteq> SNAP_MAGIC \<or> getLE32 v \<noteq> SNAP_VERSION \<or> CRC32_calculate payload \<noteq> getLE32 c then (Reject, img)
     else load_payload payload img)"
proof -
  have "getLE32 (m @ v @ c) = getLE32 m" "getLE32 (v @ c) = getLE32 v"
    using assms le32.dec_take [of "m @ v @ c"] le32.dec_take [of "v @ c"] by simp_all
  with assms show ?thesis by (simp add: load_bytes_def Let_def layout)
qed

theorem load_snapshot_file:
  assumes "image_fits img"
  shows "load_bytes (snapshot_file img) img0 = (Good, img)"
proof -
  let ?st = "si_state img" and ?e = "putLE64 [] (si_epoch img)" and ?n = "putLE32 [] (of_nat (length (si_state img)))"
  let ?pay = "?e @ ?n @ concat (map key_bytes ?st)"
  have pay: "snapshot_payload img = ?pay" by (rule snapshot_payload_eq)
  have lenp: "length ?pay < 2 ^ 64" using assms by (simp add: image_fits_def snapshot_file_eq pay)
  have fit: "fits32 (length ?st)" "distinct (map fst ([] @ ?st))" using assms by (simp_all add: image_fits_def)
  have r1: "readLE64 ?pay 0 = At (si_epoch img) 8" using readLE64_at' [of "[]" 0] by simp
  have r2: "readLE32 ?pay 8 = At (of_nat (length ?st)) 12" using readLE32_at' [of ?e 8] by simp
  have "length ?st * 8 \<le> length (concat (map key_bytes ?st))"
    by (rule concat_length_ge) (simp add: key_bytes_def)
  moreover have "bytes_left ?pay 12 = length (concat (map key_bytes ?st))"
    using lenp by (subst bytes_left) auto
  ultimately have cnt: "length ?st \<le> bytes_left ?pay 12 div MIN_KEY_BYTES"
    by (simp add: layout less_eq_div_iff_mult_less_eq)
  have "\<exists>off. load_keys ((?e @ ?n) @ concat (map key_bytes ?st)) (length ?st) (length (?e @ ?n)) [] = (Good, off, [] @ ?st)"
    using assms lenp by (intro load_keys_encoded) (auto simp: image_fits_def)
  then obtain off where k: "load_keys ?pay (length ?st) 12 [] = (Good, off, ?st)" by auto
  have "load_payload ?pay img0 = (Good, img)"
    using fit cnt by (simp add: load_payload_def r1 r2 k Let_def)
  then show ?thesis
    unfolding snapshot_file_eq pay by (simp add: load_bytes_at le32.dec_enc [of _ "[]", simplified])
qed

text \<open>Any one payload byte of a snapshot file changed: the file is refused.\<close>

theorem load_damaged_payload:
  assumes "i < length (snapshot_payload img)" and "x \<noteq> snapshot_payload img ! i"
  shows "load_bytes ((snapshot_file img)[12 + i := x]) img0 = (Reject, img0)"
proof -
  let ?p = "snapshot_payload img"
  let ?c = "putLE32 [] (CRC32_calculate ?p)"
  have e: "(snapshot_file img)[12 + i := x] = putLE32 [] SNAP_MAGIC @ putLE32 [] SNAP_VERSION @ ?c @ ?p[i := x]"
    by (simp add: snapshot_file_eq list_update_append)
  have "?p = take i ?p @ ?p ! i # drop (Suc i) ?p" using assms(1) by (rule id_take_nth_drop)
  moreover have "?p[i := x] = take i ?p @ x # drop (Suc i) ?p" using assms(1) by (rule upd_conv_take_nth_drop)
  ultimately have "CRC32_calculate (?p[i := x]) \<noteq> CRC32_calculate ?p"
    using CRC32_detects_byte_change [OF assms(2), of "take i ?p" "drop (Suc i) ?p"] by metis
  then show ?thesis unfolding e by (simp add: load_bytes_at le32.dec_enc [of _ "[]", simplified])
qed

end
