(* ===== verification/Snapshot_Atomic.thy ===== *)
theory Snapshot_Atomic
  imports Snapshot_Format Interfaces
begin

text \<open>
  \<open>Snapshot::save\<close> and the file system, in any environment. The snapshot's name refers to the old
  file or to the complete new one, before and after a crash, and never to a partly written file;
  success means that the new file and its name are on stable storage. No other file changes.
\<close>

section \<open>Directory calls\<close>

lemma sys_rename_any:
  assumes "sys_rename a b s = (ok, t)"
  shows "inodes t = inodes s \<and> fds t = fds s \<and> stable_names t = stable_names s \<and> next_ino t = next_ino s \<and>
    next_fd t = next_fd s \<and>
    (if ok then \<exists>i. names s a = Some i \<and> names t = (names s)(a := None, b \<mapsto> i) else names t = names s) \<and>
    (kind s \<longrightarrow> kind t \<and> (names s a \<noteq> None \<longrightarrow> ok))"
proof -
  obtain c u where nx: "next_ctl s = (c, u)" by fastforce
  from next_ctl_same [OF nx] have "same_files s u" by simp
  from same_files_simps(1-6) [OF this] next_ctl_kind [OF nx] assms nx show ?thesis
    by (auto simp: sys_rename_def split: option.splits if_splits)
qed

lemma fsyncParentDir_any:
  assumes "fsyncParentDir p s = (ok, t)"
  shows "inodes t = inodes s \<and> fds t = fds s \<and> names t = names s \<and> next_ino t = next_ino s \<and> next_fd t = next_fd s \<and>
    (stable_names t = stable_names s \<or> stable_names t = (\<lambda>q. if dir_of q = dir_of p then names s q else stable_names s q)) \<and>
    (ok \<longrightarrow> stable_names t = (\<lambda>q. if dir_of q = dir_of p then names s q else stable_names s q)) \<and> (kind s \<longrightarrow> ok \<and> kind t)"
proof -
  let ?d = "if has_parent p then parent_dir p else ''.''"
  have d: "?d = dir_of p" by (simp add: dir_of_def)
  obtain b1 s1 where o: "next_ctl s = (b1, s1)" by fastforce
  obtain b2 s2 where f: "next_ctl s1 = (b2, s2)" by fastforce
  let ?u = "s2\<lparr>stable_names := (\<lambda>q. if dir_of q = dir_of p then names s2 q else stable_names s2 q)\<rparr>"
  obtain b3 s3 where c: "next_ctl (if b2 then ?u else s2) = (b3, s3)" by fastforce
  have eq: "(ok, t) = (if \<not> b1 then (False, s1) else (b2, s3))"
    using assms o f c unfolding fsyncParentDir_def Let_def d
    by (auto simp: sys_open_dir_def sys_fsync_dir_def sys_close_dir_def split: if_splits)
  note same = next_ctl_same [OF o] next_ctl_same [OF f] next_ctl_same [OF c]
  have k: "kind s \<Longrightarrow> b1 \<and> b2 \<and> kind s1 \<and> kind s3"
    using next_ctl_kind [OF o] next_ctl_kind [OF f] next_ctl_kind [OF c] by auto
  have s12: "same_files s s2" using same same_files_trans by blast
  show ?thesis
  proof (cases b1)
    case False
    with eq same(1) k same_files_simps(1-6) [of s s1] show ?thesis by auto
  next
    case True
    with eq have t: "ok = b2" "t = s3" by simp_all
    have "same_files (if b2 then ?u else s2) s3" using same by blast
    from same_files_simps(1-6) [OF this] same_files_simps(1-6) [OF s12] k show ?thesis
      unfolding t by auto
  qed
qed

section \<open>Save\<close>

text \<open>What a completed rename has put under the snapshot's name.\<close>

definition replaced :: "path \<Rightarrow> SnapshotImage \<Rightarrow> os \<Rightarrow> os \<Rightarrow> bool" where
  "replaced p img s t \<longleftrightarrow> (\<exists>i. (names s (p @ ''.tmp'') = Some i \<or> names s (p @ ''.tmp'') = None \<and> i = next_ino s) \<and>
     names t p = Some i \<and> names t (p @ ''.tmp'') = None \<and>
     cached (inodes t i) = snapshot_file img \<and> stable (inodes t i) = snapshot_file img)"

text \<open>Everything but the snapshot, its temporary file and the new descriptor.\<close>

definition others_same :: "path \<Rightarrow> os \<Rightarrow> os \<Rightarrow> bool" where
  "others_same p s t \<longleftrightarrow> (\<forall>g. fds s g \<noteq> None \<longrightarrow> fds t g = fds s g) \<and>
     (\<forall>q. q \<noteq> p \<and> q \<noteq> p @ ''.tmp'' \<longrightarrow> names t q = names s q) \<and>
     (\<forall>i. i < next_ino s \<and> names s (p @ ''.tmp'') \<noteq> Some i \<longrightarrow> inodes t i = inodes s i) \<and>
     (names t (p @ ''.tmp'') = None \<or> names t (p @ ''.tmp'') = names s (p @ ''.tmp'') \<or>
       names s (p @ ''.tmp'') = None \<and> names t (p @ ''.tmp'') = Some (next_ino s))"

lemma Snapshot_writeExact_eq: "Snapshot_writeExact = writeExact"
  by (intro ext) (simp add: Snapshot_writeExact_def writeExact_def)

lemma Snapshot_save_any:
  assumes sv: "Snapshot_save p img s = (ok, t)" and wf: "os_wf s"
  shows "os_wf t \<and> others_same p s t \<and> (kind s \<longrightarrow> ok \<and> kind t) \<and>
    (names t p = names s p \<and> stable_names t = stable_names s \<and> \<not> ok \<or>
     replaced p img s t \<and>
       (stable_names t = stable_names s \<or> stable_names t = (\<lambda>q. if dir_of q = dir_of p then names t q else stable_names s q)) \<and>
       (ok \<longrightarrow> stable_names t = (\<lambda>q. if dir_of q = dir_of p then names t q else stable_names s q)))"
proof -
  let ?tmp = "p @ ''.tmp''" and ?f = "snapshot_file img"
  obtain fd s1 where op: "sys_open_creat ?tmp False True s = (fd, s1)" by fastforce
  note sv' = sv [unfolded Snapshot_save_def Let_def Snapshot_writeExact_eq op prod.case]
  note o = sys_open_creat_any [OF op wf]
  show ?thesis
  proof (cases "fd = -1")
    case True
    with sv' o show ?thesis using same_files_simps(1-6) [of s s1] by (auto simp: others_same_def)
  next
    case nn: False
    then obtain i where i: "names s ?tmp = Some i \<or> names s ?tmp = None \<and> i = next_ino s"
      and f1: "fds s1 fd = Some \<lparr>f_ino = i, f_off = 0, f_append = False\<rparr>" and n1: "names s1 = (names s)(?tmp \<mapsto> i)"
      and sn1: "stable_names s1 = stable_names s" and in1: "\<forall>j. j \<noteq> i \<longrightarrow> inodes s1 j = inodes s j"
      and g1: "\<forall>g. g \<noteq> fd \<longrightarrow> fds s1 g = fds s g" and wf1: "os_wf s1" and fresh: "fds s fd = None"
      and c1: "cached (inodes s1 i) = []" and k1: "kind s \<longrightarrow> kind s1"
      using o by auto
    have frame: "others_same p s u \<and> names u p = names s p \<and> stable_names u = stable_names s"
      if "names u = names s1" "stable_names u = stable_names s1" "\<forall>j. j \<noteq> i \<longrightarrow> inodes u j = inodes s1 j"
        "\<forall>g. g \<noteq> fd \<longrightarrow> fds u g = fds s1 g" for u
    proof -
      have "fds u g = fds s g" if "fds s g \<noteq> None" for g
        using \<open>\<forall>g. g \<noteq> fd \<longrightarrow> fds u g = fds s1 g\<close> that g1 fresh by (cases "g = fd") auto
      with that(1-3) n1 sn1 in1 i show ?thesis by (auto simp: others_same_def)
    qed
    have ofr: "others_same p s u \<and> names u p = names s p \<and> stable_names u = stable_names s"
      if "only_file fd s1 u" for u
      using that f1 by (intro frame) (auto simp: only_file_def)
    obtain b2 s2 where wr: "writeExact fd ?f s1 = (b2, s2)" by fastforce
    have ae: "at_end s1 fd" using f1 c1 by (simp add: at_end_def)
    have fc1: "fcontent s1 fd = []" using f1 c1 by (simp add: fcontent_def)
    note w = writeExact_any [OF wr ae] and wk = writeExact_kind [OF wr ae]
    have of2: "only_file fd s1 s2" using w by blast
    obtain b3 s3 where fs: "sys_fsync fd s2 = (b3, s3)" by fastforce
    note f = sys_fsync_any [OF fs]
    have of3: "only_file fd s1 s3" using of2 f only_file_trans by blast
    obtain b4 s4 where cl: "sys_close fd s3 = (b4, s4)" by fastforce
    note c = sys_close_any [OF cl]
    have closed: "os_wf v \<and> others_same p s v \<and> names v p = names s p \<and> stable_names v = stable_names s"
      if "sys_close fd u = (x, v)" "only_file fd s1 u" for u x v
      using sys_close_any [OF that(1)] only_file_wf [OF that(2) wf1] that(2) f1
      by (intro conjI frame [THEN conjunct1] frame [THEN conjunct2, THEN conjunct1] frame [THEN conjunct2, THEN conjunct2])
        (auto simp: only_file_def)
    have op2: "fds s2 fd \<noteq> None" using f1 only_file_fds [OF of2] by simp
    have kk: "kind s \<Longrightarrow> b2 \<and> b3 \<and> b4 \<and> kind s4" using k1 wk f c op2 by blast
    show ?thesis
    proof (cases "b2 \<and> b3 \<and> b4")
      case False
      have "(ok, t) = (False, if \<not> b2 then snd (sys_close fd s2) else if \<not> b3 then snd (sys_close fd s3) else s4)"
        using sv' nn wr fs cl False by (auto split: if_splits)
      moreover obtain x v where x: "sys_close fd s2 = (x, v)" by fastforce
      ultimately have "\<not> ok" "t = v \<or> t = s4" using cl by (auto split: if_splits)
      with closed [OF x of2] closed [OF cl of3] kk False show ?thesis by auto
    next
      case True
      obtain b5 s5 where rn: "sys_rename ?tmp p s4 = (b5, s5)" by fastforce
      note r = sys_rename_any [OF rn]
      obtain b6 s6 where pd: "fsyncParentDir p s5 = (b6, s6)" by fastforce
      note d = fsyncParentDir_any [OF pd]
      have ot: "(ok, t) = (if b5 then (b6, s6) else (False, s5))" using sv' nn wr fs cl True rn pd by auto
      note c4 = closed [OF cl of3]
      have n4: "names s4 = names s1" "inodes s4 = inodes s3" using c of3 by (auto simp: only_file_def)
      have "fcontent s3 fd = ?f \<and> fstable s3 fd = ?f" using w f fc1 True by auto
      moreover obtain m where "fds s3 fd = Some \<lparr>f_ino = i, f_off = m, f_append = False\<rparr>"
        using only_file_ino [OF of3 f1] by auto
      ultimately have data: "cached (inodes s4 i) = ?f" "stable (inodes s4 i) = ?f"
        by (simp_all add: fcontent_def fstable_def n4)
      show ?thesis
      proof (cases b5)
        case False
        with ot have "\<not> ok" "t = s5" by simp_all
        moreover have "os_wf s5" using c4 r False by (simp add: os_wf_def)
        moreover have "kind s \<longrightarrow> b5" using kk r n4 n1 by auto
        ultimately show ?thesis using r c4 False by (auto simp: others_same_def)
      next
        case b5: True
        with ot have t: "ok = b6" "t = s6" by simp_all
        have n5: "names s5 = (names s4)(?tmp := None, p \<mapsto> i)" using r b5 n4 n1 by auto
        have "i < next_ino s4" using n4 n1 c4 os_wf_name [of s4 ?tmp i] by simp
        then have "os_wf s5" using c4 r n5 by (auto simp: os_wf_def)
        then have "os_wf s6" using d by (simp add: os_wf_def)
        moreover have "others_same p s s6" using c4 d r n5 by (auto simp: others_same_def)
        moreover have "replaced p img s s6"
          using i d r n5 data by (auto simp: replaced_def)
        moreover have "stable_names s6 = stable_names s \<or>
            stable_names s6 = (\<lambda>q. if dir_of q = dir_of p then names s6 q else stable_names s q)"
          using d r c4 by auto
        moreover have "b6 \<longrightarrow> stable_names s6 = (\<lambda>q. if dir_of q = dir_of p then names s6 q else stable_names s q)"
          using d r c4 by auto
        moreover have "kind s \<longrightarrow> b6 \<and> kind s6" using kk r d by blast
        ultimately show ?thesis unfolding t by blast
      qed
    qed
  qed
qed

text \<open>The snapshot read back by name: \<open>None\<close> when there is none.\<close>

lemma others_same_file:
  assumes "others_same p s t" and "os_wf s" and "names s q = Some i" and "names s (p @ ''.tmp'') \<noteq> Some i"
  shows "inodes t i = inodes s i"
  using assms os_wf_name by (auto simp: others_same_def)

lemma Snapshot_save_file:
  assumes sv: "Snapshot_save p img s = (ok, t)" and wf: "os_wf s" and sep: "names s p = None \<or> names s p \<noteq> names s (p @ ''.tmp'')"
  shows "(file_of t p = file_of s p \<and> \<not> ok \<or> file_of t p = Some (snapshot_file img)) \<and>
    (\<forall>q. q \<noteq> p \<and> q \<noteq> p @ ''.tmp'' \<and> (names s q = None \<or> names s q \<noteq> names s (p @ ''.tmp'')) \<longrightarrow> file_of t q = file_of s q)"
proof -
  note a = Snapshot_save_any [OF sv wf]
  then have os: "others_same p s t" by blast
  have keep: "file_of t q = file_of s q" if "names t q = names s q" "names s q = None \<or> names s q \<noteq> names s (p @ ''.tmp'')" for q
  proof (cases "names s q")
    case (Some i)
    with that others_same_file [OF os wf Some] show ?thesis by (simp add: file_of_def)
  qed (use that in \<open>simp add: file_of_def\<close>)
  from a consider (old) "names t p = names s p" "\<not> ok" | (new) "replaced p img s t" by blast
  then show ?thesis
  proof cases
    case old
    with keep sep os show ?thesis by (auto simp: others_same_def)
  next
    case new
    then have "file_of t p = Some (snapshot_file img)" by (auto simp: replaced_def file_of_def)
    with keep os show ?thesis by (auto simp: others_same_def)
  qed
qed

section \<open>The snapshot file is an atomically replaced image\<close>

definition stored_image :: "path \<Rightarrow> os \<Rightarrow> SnapshotImage option" where
  "stored_image p s = (case file_of s p of
     None \<Rightarrow> None
   | Some f \<Rightarrow> (case load_bytes f SnapshotImage_default of (status, img) \<Rightarrow> if status = Good then Some img else None))"

definition separate_names :: "path \<Rightarrow> os \<Rightarrow> bool" where
  "separate_names p s \<longleftrightarrow> names s p = None \<or> names s p \<noteq> names s (p @ ''.tmp'')"

definition load_image :: "path \<Rightarrow> os \<Rightarrow> SnapshotImage option \<times> os" where
  "load_image p s = (case Snapshot_load p SnapshotImage_default s of
     ((status, img), t) \<Rightarrow> (if status = Good then Some img else None, t))"

lemma Snapshot_load_any:
  assumes "Snapshot_load p img0 s = (res, t)" and "os_wf s"
  shows "os_wf t \<and> names t = names s \<and> stable_names t = stable_names s \<and> inodes t = inodes s \<and> next_ino t = next_ino s \<and>
    (\<forall>g. fds s g \<noteq> None \<longrightarrow> fds t g = fds s g) \<and>
    (kind s \<longrightarrow> kind t \<and> res = (case file_of s p of None \<Rightarrow> (Reject, img0) | Some f \<Rightarrow> load_bytes f img0))"
proof -
  obtain inp u where r: "ifstream_read p s = (inp, u)" by fastforce
  with assms(1) have "t = u" "res = (case inp of None \<Rightarrow> (Reject, img0) | Some f \<Rightarrow> load_bytes f img0)"
    by (simp_all add: Snapshot_load_def)
  with ifstream_read_any [OF r assms(2)] show ?thesis by auto
qed

lemma stored_image_file: "file_of t p = file_of s p \<Longrightarrow> stored_image p t = stored_image p s"
  by (simp add: stored_image_def)

lemma stored_image_saved: "image_fits img \<Longrightarrow> file_of t p = Some (snapshot_file img) \<Longrightarrow> stored_image p t = Some img"
  by (simp add: stored_image_def load_snapshot_file)

interpretation sn: snapshot_store Snapshot_save load_image stored_image image_fits os_wf separate_names kind
proof unfold_locales
  fix s p i ok t
  assume "os_wf s" "Snapshot_save p i s = (ok, t)"
  then show "os_wf t" using Snapshot_save_any by blast
next
  fix s p i ok t
  assume a: "os_wf s" "separate_names p s" "image_fits i" "Snapshot_save p i s = (ok, t)"
  from Snapshot_save_file [OF a(4,1)] a(2)
  have "file_of t p = file_of s p \<and> \<not> ok \<or> file_of t p = Some (snapshot_file i)"
    by (simp add: separate_names_def)
  then show "stored_image p t = Some i \<or> \<not> ok \<and> stored_image p t = stored_image p s"
    using stored_image_file stored_image_saved [OF a(3)] by blast
next
  fix s p res t
  assume a: "os_wf s" "kind s" "load_image p s = (res, t)"
  obtain status img where l: "Snapshot_load p SnapshotImage_default s = ((status, img), t)"
    and res: "res = (if status = Good then Some img else None)"
    using a(3) by (auto simp: load_image_def split: prod.splits)
  note b = Snapshot_load_any [OF l a(1)]
  then have "file_of t q = file_of s q" for q by (simp add: file_of_def)
  then have "stored_image q t = stored_image q s" for q by (rule stored_image_file)
  moreover have "res = stored_image p s"
    using b a(2) res by (auto simp: stored_image_def split: option.splits prod.splits)
  ultimately show "res = stored_image p s \<and> (\<forall>q. stored_image q t = stored_image q s)" by blast
qed

end
