(* ===== verification/Sample_States.thy ===== *)
theory Sample_States
  imports WAL_Log Snapshot_Atomic
begin

text \<open>
  Concrete states that the witnesses of the properties start from: a file system with one freshly
  created log, open on descriptor 3, and the log object on it.
\<close>

definition sample_inodes :: "nat \<Rightarrow> inode" where
  "sample_inodes = (\<lambda>_. \<lparr>cached = [], stable = []\<rparr>)(0 := \<lparr>cached = header_bytes, stable = header_bytes\<rparr>)"

definition sample_os :: os where
  "sample_os = \<lparr>inodes = sample_inodes, names = [''w'' \<mapsto> 0], stable_names = [''w'' \<mapsto> 0],
     fds = [3 \<mapsto> \<lparr>f_ino = 0, f_off = 16, f_append = True\<rparr>], next_ino = 1, next_fd = 4,
     xfers = [], ctls = [], dead = False\<rparr>"

definition sample_wal :: WAL where
  "sample_wal = \<lparr>m_path = ''w'', m_fd = 3, m_epoch = 0, m_seq = 0, m_headHash = zero_hash,
     m_syncEveryN = 1, m_pendingWrites = 0\<rparr>"

lemma sample_fd [simp]: "m_fd sample_wal = 3"
  by (simp add: sample_wal_def)

lemma sample_content [simp]: "fcontent sample_os 3 = header_bytes" "fstable sample_os 3 = header_bytes"
  by (simp_all add: fcontent_def fstable_def sample_os_def sample_inodes_def)

lemma sample_appending [simp]: "appending sample_os 3"
  by (simp add: appending_def sample_os_def)

lemma sample_open [simp]: "fds sample_os 3 \<noteq> None"
  by (simp add: sample_os_def)

lemma sample_kind [simp]: "kind sample_os"
  by (simp add: kind_def sample_os_def)

lemma sample_os_wf [simp]: "os_wf sample_os"
  by (auto simp: os_wf_def sample_os_def split: if_splits)

lemma sample_holds [simp]: "wal_holds sample_wal sample_os []"
  unfolding wal_holds_def sample_fd sample_content
  by (simp add: holds_bytes_header) (simp add: sample_wal_def)

lemma sample_synced [simp]: "wal_synced sample_wal sample_os []"
  unfolding wal_synced_def sample_fd sample_content
  by (simp add: sample_wal_def)

text \<open>A second descriptor's file with one record in it.\<close>

definition sample_record :: log_record where
  "sample_record = \<lparr>r_type = PUT, r_key = [107], r_value = [118], r_ts = 7, r_epoch = 0\<rparr>"

lemma sample_storable [simp]: "storable sample_record"
  by (simp add: storable_def sample_record_def kMaxFieldSize_def type_byte_def as_RecordType_def)

definition sample_log :: bytes where
  "sample_log = header_bytes @ log_bytes zero_hash 0 [sample_record]"

lemma sample_log_holds: "holds_bytes sample_log [sample_record]"
  by (simp add: holds_bytes_def sample_log_def)

end
