(* ===== verification/WAL_Properties.thy ===== *)
theory WAL_Properties
  imports Sample_States
begin

text \<open>
  The properties of the write-ahead log, stated of the methods of \<open>WAL\<close> in every environment where
  the code makes a promise there, and of the reader of its files.
\<close>

lemma log_bytes_length: "69 * length rs \<le> length (log_bytes prev seq rs)"
  by (induction prev seq rs rule: log_bytes.induct) (simp_all add: length_entry_bytes)

text \<open>The log's descriptor is open on a file with the contents \<open>c\<close>, and no call is going to fail.\<close>

definition readable :: "WAL \<Rightarrow> os \<Rightarrow> bytes \<Rightarrow> bool" where
  "readable w s c \<longleftrightarrow> m_fd w \<noteq> -1 \<and> fds s (m_fd w) \<noteq> None \<and> kind s \<and> fcontent s (m_fd w) = c"

lemma verify_readable: "readable w s c \<Longrightarrow> fst (WAL_verify w s) = chain_result c"
  using WAL_verify_kind unfolding readable_def by (metis prod.collapse)

definition sample_file :: "bytes \<Rightarrow> os" where
  "sample_file c = set_content sample_os 0 c"

lemma sample_readable [simp]: "readable sample_wal (sample_file c) c"
  by (simp add: readable_def sample_file_def set_content_def kind_def fcontent_def sample_os_def)

section \<open>Transfers\<close>

text \<open>\<open>writeExact\<close> on a descriptor at the end of its file, under every sequence of short writes,
  interruptions, errors and crashes, appends a prefix of the data and touches nothing else; it reports success
  exactly when it has appended all of it, and in an environment without failures it does.\<close>

theorem write_exact_appends_prefix:
  assumes "at_end s fd"
  shows "case writeExact fd data s of (ok, t) \<Rightarrow>
    only_file fd s t \<and> fstable t fd = fstable s fd \<and>
    (\<exists>k \<le> length data. fcontent t fd = fcontent s fd @ take k data \<and> (ok \<longrightarrow> k = length data)) \<and> (kind s \<longrightarrow> ok)"
proof -
  obtain ok t where w: "writeExact fd data s = (ok, t)" by fastforce
  from writeExact_any [OF w assms] writeExact_kind [OF w assms] w show ?thesis by auto
qed

theorem write_exact_appends_prefix_witness:
  "case writeExact 3 [1, 2, 3] sample_os of (ok, t) \<Rightarrow>
    only_file 3 sample_os t \<and> fstable t 3 = fstable sample_os 3 \<and>
    (\<exists>k \<le> 3. fcontent t 3 = fcontent sample_os 3 @ take k [1, 2, 3] \<and> (ok \<longrightarrow> k = 3)) \<and>
    (kind sample_os \<longrightarrow> ok)"
  using write_exact_appends_prefix [of sample_os 3 "[1, 2, 3]"] by (simp add: appending_at_end numeral_3_eq_3)

section \<open>Verifying\<close>

text \<open>\<open>verify\<close> never mutates: whatever fails during the walk, no file's contents, no name and no other
  descriptor changes, neither in the cache nor on stable storage.\<close>

theorem verify_is_read_only:
  "case WAL_verify w s of (r, t) \<Rightarrow>
    only_file (m_fd w) s t \<and> fcontent t (m_fd w) = fcontent s (m_fd w) \<and> fstable t (m_fd w) = fstable s (m_fd w)"
proof -
  obtain r t where v: "WAL_verify w s = (r, t)" by fastforce
  from WAL_verify_any [OF v] v show ?thesis by simp
qed

text \<open>In an environment where no call fails, however the kernel cuts and interrupts the reads, \<open>verify\<close>
  returns the verdict of the reader of the format on the bytes of the file.\<close>

theorem verify_is_the_reader:
  assumes "m_fd w \<noteq> -1" and "fds s (m_fd w) \<noteq> None" and "kind s"
  shows "fst (WAL_verify w s) = chain_result (fcontent s (m_fd w))"
  using WAL_verify_kind [OF _ assms] by (metis prod.collapse)

theorem verify_is_the_reader_witness:
  "fst (WAL_verify sample_wal sample_os) = chain_result header_bytes"
  using verify_is_the_reader [of sample_wal sample_os] by simp

section \<open>Appending\<close>

text \<open>C7. \<open>append\<close> in any environment, on a log that holds the records \<open>rs\<close>. When it returns, the log holds the
  new record too, stamped with the current epoch, and what group commit promises about stable storage still
  holds. When the write fails, the object is unchanged and some prefix of the entry has been appended; when only
  the sync fails, the record is in the log although \<open>append\<close> throws. Nothing else changes.\<close>

theorem append_outcome:
  assumes "wal_holds w s rs" and "storable (new_record w type key val ts)"
  shows "case WAL_append type key val ts w s of (res, w', t) \<Rightarrow>
    only_file (m_fd w) s t \<and> (kind s \<longrightarrow> res = Inr () \<and> kind t) \<and>
    (wal_holds w' t (rs @ [new_record w type key val ts]) \<and> (res = Inr () \<or> res = Inl (runtime_error ''fsync failed'')) \<or>
     res = Inl (runtime_error ''Failed to write entry to WAL'') \<and> w' = w \<and>
       (\<exists>k \<le> length (entry_bytes (m_headHash w) (m_seq w) (new_record w type key val ts)).
          fcontent t (m_fd w) = fcontent s (m_fd w) @ take k (entry_bytes (m_headHash w) (m_seq w) (new_record w type key val ts)))) \<and>
    (res = Inr () \<and> wal_synced w s rs \<longrightarrow> wal_synced w' t (rs @ [new_record w type key val ts]))"
proof -
  obtain res w' t where ap: "WAL_append type key val ts w s = (res, w', t)" by (metis prod_cases3)
  from WAL_append_any [OF ap assms] show ?thesis unfolding ap prod.case by blast
qed

theorem append_outcome_witness:
  "case WAL_append PUT [107] [118] 7 sample_wal sample_os of (res, w', t) \<Rightarrow>
    res = Inr () \<and> wal_holds w' t [sample_record] \<and> wal_synced w' t [sample_record]"
proof -
  have r: "new_record sample_wal PUT [107] [118] 7 = sample_record"
    by (simp add: new_record_def sample_record_def sample_wal_def)
  from append_outcome [where w = sample_wal and s = sample_os and type = PUT and key = "[107]" and val = "[118]" and ts = 7,
      unfolded r, OF sample_holds sample_storable]
  show ?thesis by (auto split: prod.splits)
qed

text \<open>A log written by \<open>append\<close> verifies: the verdict is \<open>Ok\<close>, with the count and the head hash that \<open>head()\<close> reports.\<close>

theorem own_log_verifies:
  assumes "wal_holds w s rs" and "kind s"
  shows "fst (WAL_verify w s) =
    \<lparr>status = Ok, entriesVerified = cp_seq (WAL_head w), tamperOffset = 0, tamperSeq = 0, headHash = cp_head (WAL_head w)\<rparr>"
proof -
  obtain r t where v: "WAL_verify w s = (r, t)" by fastforce
  have h: "m_fd w \<noteq> -1" "fds s (m_fd w) \<noteq> None" "holds_bytes (fcontent s (m_fd w)) rs"
    using assms(1) appending_open by (simp_all add: wal_holds_def)
  from WAL_verify_kind [OF v h(1,2) assms(2)] have "r = chain_result (fcontent s (m_fd w))" by simp
  with v assms(1) show ?thesis
    by (simp add: chain_result_def file_scan_holds [OF h(3)] result_of_def WAL_head_def wal_holds_def)
qed

theorem own_log_verifies_witness:
  "\<exists>w t. wal_holds w t [sample_record] \<and> status (fst (WAL_verify w t)) = Ok \<and> entriesVerified (fst (WAL_verify w t)) = 1"
proof -
  obtain res w t where ap: "WAL_append PUT [107] [118] 7 sample_wal sample_os = (res, w, t)" by (metis prod_cases3)
  have r: "new_record sample_wal PUT [107] [118] 7 = sample_record"
    by (simp add: new_record_def sample_record_def sample_wal_def)
  from WAL_append_any [OF ap sample_holds, unfolded r] have h: "wal_holds w t [sample_record]" "kind t" by auto
  with own_log_verifies [OF h] show ?thesis
    by (intro exI [of _ w] exI [of _ t]) (simp add: WAL_head_def wal_holds_def)
qed

section \<open>Tamper evidence\<close>

text \<open>C12. The reader accepts nothing but what \<open>append\<close> writes: a file with verdict \<open>Ok\<close> is, after its header, exactly
  the encoding of some records, and with verdict \<open>TruncatedTail\<close> it is that up to the offset where it was cut.\<close>

theorem accepted_logs_are_encodings:
  assumes "readable w s c"
  shows "case fst (WAL_verify w s) of r \<Rightarrow> \<exists>rs. list_all storable rs \<and>
    entriesVerified r = of_nat (length rs) \<and> headHash r = log_head zero_hash 0 rs \<and>
    take (length (log_bytes zero_hash 0 rs)) (drop 16 c) = log_bytes zero_hash 0 rs \<and>
    (status r = Ok \<longrightarrow> drop 16 c = log_bytes zero_hash 0 rs)"
proof -
  obtain vs e where sc: "file_scan c = (vs, e)" by fastforce
  from scan_log_sound [OF sc [unfolded file_scan_def]]
  have s: "list_all storable (map record_of vs)" "vs = verified_list zero_hash 0 (map record_of vs)"
      "drop 16 c = log_bytes zero_hash 0 (map record_of vs) @ drop (total_len vs) (drop 16 c)"
      "e = Clean \<longrightarrow> drop 16 c = log_bytes zero_hash 0 (map record_of vs)"
      "\<forall>x. e = BadAt x \<longrightarrow> x \<noteq> Ok \<and> x \<noteq> TruncatedTail"
    by blast+
  have len: "total_len vs = length (log_bytes zero_hash 0 (map record_of vs))" using s(2) by (metis total_len_verified_list)
  have "take (total_len vs) (drop 16 c) = log_bytes zero_hash 0 (map record_of vs)"
    using s(3) len by (metis append_eq_conv_conj)
  moreover have "status (chain_result c) = Ok \<longrightarrow> e = Clean"
    using sc s(5) by (cases e) (auto simp: chain_result_def result_of_def)
  moreover have "entriesVerified (chain_result c) = of_nat (length vs)"
      "headHash (chain_result c) = log_head zero_hash 0 (map record_of vs)"
    using arg_cong [OF s(2), of "end_seq 0"] arg_cong [OF s(2), of "end_hash zero_hash"] sc
    by (auto simp: chain_result_def result_of_def split: scan_end.split)
  ultimately show ?thesis using s(1,2,4) len by (intro exI [of _ "map record_of vs"]) (simp add: verify_readable [OF assms])
qed

theorem accepted_logs_are_encodings_witness:
  "case fst (WAL_verify sample_wal (sample_file sample_log)) of r \<Rightarrow> \<exists>rs. list_all storable rs \<and>
    entriesVerified r = of_nat (length rs) \<and> headHash r = log_head zero_hash 0 rs \<and>
    take (length (log_bytes zero_hash 0 rs)) (drop 16 sample_log) = log_bytes zero_hash 0 rs \<and>
    (status r = Ok \<longrightarrow> drop 16 sample_log = log_bytes zero_hash 0 rs)"
  by (rule accepted_logs_are_encodings [OF sample_readable])

text \<open>The verdict \<open>Tampered\<close> at the entry behind the records \<open>rs\<close>, with its offset in the file and its number.\<close>

definition tampered_at :: "log_record list \<Rightarrow> RecoveryResult" where
  "tampered_at rs = \<lparr>status = Tampered, entriesVerified = of_nat (length rs),
     tamperOffset = of_nat (16 + length (log_bytes zero_hash 0 rs)), tamperSeq = of_nat (length rs),
     headHash = log_head zero_hash 0 rs\<rparr>"

lemma tampered_at: "result_of (verified_list zero_hash 0 rs) (BadAt Tampered) = tampered_at rs"
  by (simp add: result_of_def tampered_at_def)

text \<open>C10. A changed byte is evidence: if one byte of one entry of a log is altered, and it is not a byte of that
  entry's two length fields, the verdict is \<open>Tampered\<close> at that entry, with the entries before it verified.\<close>

theorem changed_byte_is_tampered:
  assumes "list_all storable rs" and "storable r" and "h = entry_bytes (log_head zero_hash 0 rs) (of_nat (length rs)) r"
    and "i < length h" and "not_length_byte i" and "x \<noteq> h ! i" and "length header = 16"
    and "readable w s (header @ log_bytes zero_hash 0 rs @ h[i := x] @ rest)"
  shows "fst (WAL_verify w s) = tampered_at rs"
proof -
  let ?tail = "h[i := x] @ rest"
  have "scan_entry ?tail (log_head zero_hash 0 rs) (of_nat (length rs)) = Bad Tampered"
    using damaged_entry_tampered [OF assms(2)] assms(4-6) unfolding assms(3) by blast
  moreover have "?tail \<noteq> []" using assms(4) by auto
  ultimately have "scan_log ?tail (log_head zero_hash 0 rs) (of_nat (length rs)) = ([], BadAt Tampered)"
    by (subst scan_log.simps) simp
  then have "scan_log (log_bytes zero_hash 0 rs @ ?tail) zero_hash 0 = (verified_list zero_hash 0 rs, BadAt Tampered)"
    using assms(1) by (simp add: scan_log_bytes)
  then show ?thesis using assms(7) by (simp add: verify_readable [OF assms(8)] chain_result_def file_scan_def tampered_at)
qed

theorem changed_byte_is_tampered_witness:
  "fst (WAL_verify sample_wal (sample_file (header_bytes @ (entry_bytes zero_hash 0 sample_record)[37 := 108]))) = tampered_at []"
proof -
  have "entry_bytes zero_hash 0 sample_record ! 37 = 107"
    by (simp add: entry_bytes_def entry_body_def nth_append) (simp add: sample_record_def)
  with changed_byte_is_tampered [of "[]" sample_record "entry_bytes zero_hash 0 sample_record" 37 108 header_bytes sample_wal
      "sample_file (header_bytes @ (entry_bytes zero_hash 0 sample_record)[37 := 108])" "[]"]
  show ?thesis by (simp add: length_entry_bytes not_length_byte_def)
qed

text \<open>C30. A genuine entry with any sequence number but the one its place demands is \<open>Tampered\<close> where it stands: an entry
  that is duplicated, one that is moved, and the first one that follows deleted entries. Deleting entries from the end of a
  log leaves no such entry and is not detected, as the threat model says; a checkpoint kept elsewhere detects it.\<close>

theorem misplaced_entry_is_tampered:
  assumes "list_all storable rs" and "storable r" and "seq \<noteq> of_nat (length rs)" and "length header = 16"
    and "readable w s (header @ log_bytes zero_hash 0 rs @ entry_bytes prev seq r @ rest)"
  shows "fst (WAL_verify w s) = tampered_at rs"
  using assms(1-4) by (simp add: verify_readable [OF assms(5)] chain_result_def file_scan_def scan_log_misplaced tampered_at)

theorem misplaced_entry_is_tampered_witness:
  "fst (WAL_verify sample_wal
     (sample_file (header_bytes @ entry_bytes zero_hash 0 sample_record @ entry_bytes zero_hash 0 sample_record))) =
    tampered_at [sample_record]"
  by (rule misplaced_entry_is_tampered [where header = header_bytes and r = sample_record and seq = 0 and prev = zero_hash
        and rest = "[]"]) simp_all

text \<open>C11. A checkpoint binds the log: two files that both verify to the same count (below 2 to the 64) and the same
  head hash hold the same records, or their chains exhibit two different messages with one SHA-256 digest.\<close>

theorem checkpoint_binds_the_log:
  assumes "readable w s c" and "readable w' s' c'"
    and "status (fst (WAL_verify w s)) = Ok" and "status (fst (WAL_verify w' s')) = Ok"
    and "headHash (fst (WAL_verify w s)) = headHash (fst (WAL_verify w' s'))"
    and "entriesVerified (fst (WAL_verify w s)) = entriesVerified (fst (WAL_verify w' s'))"
    and "length c < 2 ^ 64" and "length c' < 2 ^ 64"
  shows "drop 16 c = drop 16 c' \<or>
    (\<exists>rs qs. drop 16 c = log_bytes zero_hash 0 rs \<and> drop 16 c' = log_bytes zero_hash 0 qs \<and>
      (\<exists>m \<in> set (chain_messages zero_hash 0 rs). \<exists>m' \<in> set (chain_messages zero_hash 0 qs). sha256_collision m m'))"
proof -
  note v = verify_readable [OF assms(1)] verify_readable [OF assms(2)]
  note ok = assms(3-6) [unfolded v]
  have read: "\<exists>rs. list_all storable rs \<and> drop 16 f = log_bytes zero_hash 0 rs \<and> headHash (chain_result f) = log_head zero_hash 0 rs \<and>
      entriesVerified (chain_result f) = of_nat (length rs) \<and> length rs < 2 ^ 64"
    if "status (chain_result f) = Ok" "length f < 2 ^ 64" for f
  proof -
    obtain vs e where sc: "file_scan f = (vs, e)" by fastforce
    let ?rs = "map record_of vs"
    from scan_log_sound [OF sc [unfolded file_scan_def]]
    have s: "list_all storable ?rs" "vs = verified_list zero_hash 0 ?rs" "e = Clean \<longrightarrow> drop 16 f = log_bytes zero_hash 0 ?rs"
      "\<forall>x. e = BadAt x \<longrightarrow> x \<noteq> Ok \<and> x \<noteq> TruncatedTail" by blast+
    have "e = Clean" using that(1) sc s(4) by (cases e) (auto simp: chain_result_def result_of_def)
    with s(3) have d: "drop 16 f = log_bytes zero_hash 0 ?rs" by simp
    have "length ?rs \<le> length (drop 16 f)" using log_bytes_length [of ?rs zero_hash 0] unfolding d by simp
    then have "length ?rs < 2 ^ 64" using that(2) by simp
    moreover have "end_seq 0 vs = of_nat (length ?rs)" "end_hash zero_hash vs = log_head zero_hash 0 ?rs"
      using arg_cong [OF s(2), of "end_seq 0"] arg_cong [OF s(2), of "end_hash zero_hash"] by simp_all
    ultimately show ?thesis using sc s(1) d by (intro exI [of _ ?rs]) (simp add: chain_result_def result_of_def)
  qed
  from read [OF ok(1) assms(7)] obtain rs where rs: "list_all storable rs" "drop 16 c = log_bytes zero_hash 0 rs"
    "headHash (chain_result c) = log_head zero_hash 0 rs" "entriesVerified (chain_result c) = of_nat (length rs)" "length rs < 2 ^ 64"
    by blast
  from read [OF ok(2) assms(8)] obtain qs where qs: "list_all storable qs" "drop 16 c' = log_bytes zero_hash 0 qs"
    "headHash (chain_result c') = log_head zero_hash 0 qs" "entriesVerified (chain_result c') = of_nat (length qs)" "length qs < 2 ^ 64"
    by blast
  have "(of_nat (length rs) :: u64) = of_nat (length qs)" using ok(4) rs(4) qs(4) by simp
  then have "unat (of_nat (length rs) :: u64) = unat (of_nat (length qs) :: u64)" by simp
  then have "length rs = length qs" using rs(5) qs(5) by (simp add: unat_of_nat)
  moreover have "length zero_hash = 32" by (simp add: zero_hash_def)
  ultimately show ?thesis using log_head_binds [OF rs(1) qs(1), of zero_hash zero_hash 0 0] rs qs ok(3) by metis
qed

theorem checkpoint_binds_the_log_witness:
  "drop 16 header_bytes = drop 16 (replicate 16 0)"
proof -
  have ok: "chain_result c = result_of [] Clean" if "length c = 16" for c
    using no_room_scan [of c] that by (simp add: chain_result_def)
  from checkpoint_binds_the_log [OF sample_readable sample_readable, of header_bytes "replicate 16 0"] show ?thesis
    by (simp add: verify_readable [OF sample_readable] ok result_of_def)
qed

text \<open>A length field above the cap is \<open>Malformed\<close>, whatever else the entry holds, before any of it is read.\<close>

theorem oversize_field_is_malformed:
  assumes "list_all storable rs" and "length header = 16" and "length crc = 4" and "length fixed = 33"
    and "unat (getLE32 (drop OFF_KEY_LEN fixed)) > kMaxFieldSize \<or> unat (getLE32 (drop OFF_VALUE_LEN fixed)) > kMaxFieldSize"
    and "readable w s (header @ log_bytes zero_hash 0 rs @ crc @ fixed @ rest)"
  shows "fst (WAL_verify w s) = (tampered_at rs)\<lparr>status := Malformed\<rparr>"
proof -
  have "scan_entry (crc @ fixed @ rest) prev seq = Bad Malformed" for prev seq
    using assms(3-5) by (auto simp: scan_entry_def Let_def)
  moreover have "crc @ fixed @ rest \<noteq> []" using assms(3) by auto
  ultimately have "scan_log (crc @ fixed @ rest) prev seq = ([], BadAt Malformed)" for prev seq
    by (subst scan_log.simps) simp
  then show ?thesis using assms(1,2)
    by (simp add: verify_readable [OF assms(6)] chain_result_def file_scan_def scan_log_bytes result_of_def tampered_at_def)
qed

theorem oversize_field_is_malformed_witness:
  "fst (WAL_verify sample_wal
     (sample_file (header_bytes @ replicate 4 0 @ replicate 24 0 @ putLE32 [] 0xFFFFFFFF @ replicate 5 0))) =
    (tampered_at [])\<lparr>status := Malformed\<rparr>"
proof -
  let ?fixed = "replicate 24 0 @ putLE32 [] 0xFFFFFFFF @ replicate 5 0"
  have "getLE32 (drop OFF_KEY_LEN ?fixed) = 0xFFFFFFFF"
    by (simp add: layout_values le32.dec_enc)
  with oversize_field_is_malformed [of "[]" header_bytes "replicate 4 0" ?fixed sample_wal
      "sample_file (header_bytes @ replicate 4 0 @ ?fixed)" "[]"]
  show ?thesis by (simp add: kMaxFieldSize_def)
qed

section \<open>Recovery\<close>

text \<open>C8. When no call fails, \<open>recover\<close> returns the reader's verdict and calls the visitor for exactly the verified
  records above the epoch bound, in order. A torn tail is cut off, a damaged file is left as it is, and in every
  case but damage the log can be appended to: it holds the verified records.\<close>

theorem recover_replays_the_log:
  assumes "m_fd w \<noteq> -1" and "appending s (m_fd w)" and "kind s" and "valid_header (take 16 (fcontent s (m_fd w)))"
    and "file_scan (fcontent s (m_fd w)) = (vs, e)"
  shows "case WAL_recover f m st w s of (r, st', w', t) \<Rightarrow>
    r = result_of vs e \<and> st' = foldl (replay_one f m) st (map record_of vs) \<and> only_file (m_fd w) s t \<and>
    (if \<exists>x. e = BadAt x then w' = w \<and> fcontent t (m_fd w) = fcontent s (m_fd w) else wal_holds w' t (map record_of vs)) \<and>
    (e = Clean \<longrightarrow> fcontent t (m_fd w) = fcontent s (m_fd w))"
proof -
  obtain r st' w' t where rc: "WAL_recover f m st w s = (r, st', w', t)" by (metis prod_cases4)
  from WAL_recover_kind [OF rc assms(1,2,3,5,4)] show ?thesis
    unfolding rc prod.case by (auto split: if_split_asm)
qed

theorem recover_replays_the_log_witness:
  "case WAL_recover (\<lambda>n _ _ _ _. n + 1) None (0 :: nat) sample_wal sample_os of (r, st', w', t) \<Rightarrow>
    r = result_of [] Clean \<and> st' = 0 \<and> wal_holds w' t []"
  using recover_replays_the_log [where w = sample_wal and s = sample_os and vs = "[]" and e = Clean
      and f = "\<lambda>n _ _ _ _. n + 1" and m = None and st = "0 :: nat"]
  by (auto simp: no_room_scan split: prod.splits)

text \<open>C21. Recovery ends after boundedly many steps: in every environment \<open>recover\<close> returns, and it has called its visitor at
  most once for every 69 bytes of the file behind the header, 69 being the size of an entry with empty fields.\<close>

theorem recover_visits_are_bounded:
  "case WAL_recover (\<lambda>calls _ _ _ _. calls + 1) m (0 :: nat) w s of (r, calls, w', t) \<Rightarrow>
    69 * calls \<le> length (fcontent s (m_fd w)) - 16"
proof -
  let ?c = "fcontent s (m_fd w)" and ?f = "\<lambda>calls _ _ _ _. calls + 1 :: nat"
  obtain r calls w' t where rc: "WAL_recover ?f m 0 w s = (r, calls, w', t)" by (metis prod_cases4)
  obtain vs e where sc: "file_scan ?c = (vs, e)" by fastforce
  from WAL_recover_any [OF rc sc] obtain us where us: "us = take (length us) vs"
    "calls = foldl (replay_one ?f m) 0 (map record_of us)" by blast
  have count: "foldl (replay_one ?f m) n qs \<le> n + length qs" for n qs
  proof (induction qs arbitrary: n)
    case (Cons q qs)
    have "replay_one ?f m n q \<le> Suc n" by (simp add: replay_one_def)
    moreover have "foldl (replay_one ?f m) (replay_one ?f m n q) qs \<le> replay_one ?f m n q + length qs" by (rule Cons)
    ultimately show ?case by simp
  qed simp
  from scan_log_sound [OF sc [unfolded file_scan_def]]
  have v: "vs = verified_list zero_hash 0 (map record_of vs)" by blast
  have "69 * length vs \<le> length (log_bytes zero_hash 0 (map record_of vs))" using log_bytes_length [of "map record_of vs"] by simp
  also have "\<dots> = total_len vs" using v by (metis total_len_verified_list)
  finally have "69 * length vs \<le> total_len vs" .
  moreover have "16 + total_len vs \<le> length ?c" if "vs \<noteq> []" using file_scan_fits [OF sc] that by blast
  moreover have "calls \<le> length vs"
    using us count [of 0 "map record_of us"] length_take [of "length us" vs] by (metis add_0 le_trans length_map min.cobounded1)
  ultimately show ?thesis unfolding rc prod.case by (cases "vs = []") auto
qed

text \<open>C13. In any environment \<open>recover\<close> delivers only genuine records, a prefix of the verified ones, and leaves a
  prefix of the file: everything, or what stands before the entry at which it reported a torn tail.\<close>

theorem recover_delivers_a_prefix:
  assumes "file_scan (fcontent s (m_fd w)) = (vs, e)"
  shows "case WAL_recover f m st w s of (r, st', w', t) \<Rightarrow>
    only_file (m_fd w) s t \<and> (\<exists>us. us = take (length us) vs \<and> st' = foldl (replay_one f m) st (map record_of us) \<and>
      (fcontent t (m_fd w) = fcontent s (m_fd w) \<or>
        r = result_of us TornTail \<and> fcontent t (m_fd w) = take (16 + total_len us) (fcontent s (m_fd w))) \<and>
      (r = RecoveryResult_default \<and> us = [] \<or> r = result_of vs e \<and> us = vs \<or> r = result_of us TornTail))"
proof -
  obtain r st' w' t where rc: "WAL_recover f m st w s = (r, st', w', t)" by (metis prod_cases4)
  from WAL_recover_any [OF rc assms] show ?thesis unfolding rc prod.case by blast
qed

theorem recover_delivers_a_prefix_witness:
  "case WAL_recover (\<lambda>n _ _ _ _. n + 1) None (0 :: nat) sample_wal (sample_os\<lparr>xfers := [IoError], ctls := [Refuse]\<rparr>) of
    (r, st', w', t) \<Rightarrow> st' = 0"
proof -
  let ?s = "sample_os\<lparr>xfers := [IoError], ctls := [Refuse]\<rparr>"
  have "fcontent ?s 3 = header_bytes" by (simp add: fcontent_def sample_os_def sample_inodes_def)
  then have "file_scan (fcontent ?s (m_fd sample_wal)) = ([], Clean)" by (simp add: no_room_scan)
  from recover_delivers_a_prefix [OF this, of "\<lambda>n _ _ _ _. n + 1" None "0 :: nat"]
  show ?thesis by (auto split: prod.splits)
qed

text \<open>Any cut of a log at or behind what group commit has synced reads as a clean log or one with a torn tail,
  never as damage, and keeps all records but the pending ones.\<close>

theorem cut_log_is_never_tampered:
  assumes "wal_holds w s rs" and "wal_synced w s rs" and "length (fstable s (m_fd w)) \<le> n"
    and "readable w' t (take n (fcontent s (m_fd w)))"
  shows "case fst (WAL_verify w' t) of r \<Rightarrow> status r \<in> {Ok, TruncatedTail} \<and>
    (\<exists>k. length rs - m_pendingWrites w \<le> k \<and> k \<le> length rs \<and>
      entriesVerified r = of_nat k \<and> headHash r = log_head zero_hash 0 (take k rs))"
proof -
  from crash_scan [OF assms(1-3)] obtain k e where k: "length rs - m_pendingWrites w \<le> k" "k \<le> length rs" "e \<in> {Clean, TornTail}"
    "file_scan (take n (fcontent s (m_fd w))) = (verified_list zero_hash 0 (take k rs), e)" by blast
  then show ?thesis by (auto simp: verify_readable [OF assms(4)] chain_result_def result_of_def intro!: exI [of _ k])
qed

theorem cut_log_is_never_tampered_witness:
  "status (fst (WAL_verify sample_wal (sample_file header_bytes))) \<in> {Ok, TruncatedTail}"
  using cut_log_is_never_tampered [OF sample_holds sample_synced, of 16 sample_wal "sample_file header_bytes"] by auto

section \<open>Opening and rotating\<close>

text \<open>When no call fails, the constructor accepts exactly the files that are missing, empty or start with a valid
  header; a new or empty file gets a header and is synced, any other is left as it is.\<close>

theorem open_accepts_valid_headers:
  assumes "os_wf s" and "kind s"
  shows "case WAL_open p n s of
      (Inl x, t) \<Rightarrow> \<exists>b c. file_of s p = Some (b # c) \<and> \<not> valid_header (take 16 (b # c))
    | (Inr w, t) \<Rightarrow> m_syncEveryN w = max 1 n \<and>
        (case file_of s p of
           Some (b # c) \<Rightarrow> valid_header (take 16 (b # c)) \<and> fcontent t (m_fd w) = b # c
         | _ \<Rightarrow> wal_holds w t [] \<and> fstable t (m_fd w) = header_bytes)"
proof -
  obtain r t where o: "WAL_open p n s = (r, t)" by fastforce
  show ?thesis
  proof (cases r)
    case (Inl x)
    with WAL_open_kind [OF assms, of p n] o show ?thesis by (auto split: option.splits list.splits if_splits)
  next
    case (Inr w)
    note a = WAL_open_any [OF o [unfolded Inr] assms(1)]
    then have eq: "w = \<lparr>m_path = p, m_fd = m_fd w, m_epoch = 0, m_seq = 0, m_headHash = zero_hash,
        m_syncEveryN = (if n < 1 then 1 else n), m_pendingWrites = 0\<rparr>" by blast
    have w: "m_syncEveryN w = max 1 n" "m_seq w = 0" "m_headHash w = zero_hash"
      using arg_cong [OF eq, of m_syncEveryN] arg_cong [OF eq, of m_seq] arg_cong [OF eq, of m_headHash] by simp_all
    show ?thesis
    proof (cases "file_of s p = None \<or> file_of s p = Some []")
      case True
      with a have "fcontent t (m_fd w) = header_bytes" "fstable t (m_fd w) = header_bytes" by auto
      with a w True o Inr show ?thesis
        by (auto simp: wal_holds_def holds_bytes_header)
    next
      case False
      then obtain b c where f: "file_of s p = Some (b # c)" by (metis list.exhaust option.exhaust)
      with a have "fcontent t (m_fd w) = b # c" "valid_header (take 16 (b # c))" by auto
      with w f o Inr show ?thesis by simp
    qed
  qed
qed

theorem open_accepts_valid_headers_witness:
  "case WAL_open ''w'' 0 sample_os of (Inl x, t) \<Rightarrow> False | (Inr w, t) \<Rightarrow> m_syncEveryN w = 1 \<and> fcontent t (m_fd w) = header_bytes"
proof -
  have f: "file_of sample_os ''w'' = Some header_bytes" by (simp add: file_of_def sample_os_def sample_inodes_def)
  obtain b c where h: "header_bytes = b # c" using length_header_bytes by (cases header_bytes) auto
  have "take 16 header_bytes = header_bytes" by simp
  then have "valid_header (take 16 (b # c))" unfolding h [symmetric] by simp
  with open_accepts_valid_headers [OF sample_os_wf sample_kind, of "''w''" 0] f show ?thesis
    unfolding h by (auto split: prod.splits sum.splits)
qed

text \<open>\<open>reset\<close> in any environment: when it returns \<open>true\<close>, the log is empty and its fresh header is on stable
  storage; when it returns \<open>false\<close>, the object is unchanged and the file is as before or holds only a prefix of
  the fresh header. When no call fails, it returns \<open>true\<close>.\<close>

theorem reset_outcome:
  assumes "wal_holds w s rs"
  shows "case WAL_reset w s of (ok, w', t) \<Rightarrow> only_file (m_fd w) s t \<and> (kind s \<longrightarrow> ok) \<and>
    (if ok then wal_holds w' t [] \<and> fcontent t (m_fd w) = header_bytes \<and> fstable t (m_fd w) = header_bytes
     else w' = w \<and> (fcontent t (m_fd w) = fcontent s (m_fd w) \<or> (\<exists>k \<le> 16. fcontent t (m_fd w) = take k header_bytes)))"
proof -
  obtain ok w' t where r: "WAL_reset w s = (ok, w', t)" by (metis prod_cases3)
  have "appending s (m_fd w)" "m_fd w \<noteq> -1" using assms by (simp_all add: wal_holds_def)
  from WAL_reset_any [OF r this] WAL_reset_empties [of w s w' t rs] assms r show ?thesis by (cases ok) auto
qed

theorem reset_outcome_witness:
  "case WAL_reset sample_wal sample_os of (ok, w', t) \<Rightarrow> ok \<and> wal_holds w' t []"
  using reset_outcome [OF sample_holds] by (auto split: prod.splits)

end
