(* ===== verification/Snapshot_Properties.thy ===== *)
theory Snapshot_Properties
  imports Sample_States
begin

text \<open>
  The properties of snapshot files: what is saved is what is loaded, saving is atomic, and no file makes
  the parser read out of bounds.
\<close>

section \<open>Round trip\<close>

text \<open>C26. An image that fits the format's 32-bit counts is loaded exactly as it was saved.\<close>

theorem snapshot_round_trip:
  assumes "os_wf s" and "separate_names p s" and "image_fits img" and "Snapshot_save p img s = (True, t)" and "kind t"
  shows "fst (Snapshot_load p SnapshotImage_default t) = (Good, img)"
proof -
  obtain res u where l: "Snapshot_load p SnapshotImage_default t = (res, u)" by fastforce
  obtain r v where li: "load_image p t = (r, v)" by fastforce
  from sn.load_after_save [OF assms(1-5) li] have r: "r = Some img" by simp
  obtain pst i where res: "res = (pst, i)" by fastforce
  have "(if pst = Good then Some i else None) = r" using l li res by (simp add: load_image_def)
  with r have "pst = Good \<and> i = img" by (simp split: if_splits)
  with l res show ?thesis by simp
qed

definition sample_image :: SnapshotImage where
  "sample_image = \<lparr>si_epoch = 3, si_state = [([107], [\<lparr>sr_value = [118], sr_duration = Double 5, sr_timestamp = 7\<rparr>])]\<rparr>"

lemma sample_image_fits: "image_fits sample_image"
  by (simp add: image_fits_def fits32_def snapshot_file_eq snapshot_payload_eq sample_image_def key_bytes_def length_put_record)

lemma sample_separate: "separate_names ''s'' sample_os"
  by (simp add: separate_names_def sample_os_def)

theorem snapshot_round_trip_witness:
  "\<exists>t. Snapshot_save ''s'' sample_image sample_os = (True, t) \<and>
    fst (Snapshot_load ''s'' SnapshotImage_default t) = (Good, sample_image)"
proof -
  obtain ok t where sv: "Snapshot_save ''s'' sample_image sample_os = (ok, t)" by fastforce
  from Snapshot_save_any [OF sv sample_os_wf] have "ok" "kind t" by simp_all
  with sv snapshot_round_trip [OF sample_os_wf sample_separate sample_image_fits] show ?thesis by simp
qed

section \<open>Atomic replacement\<close>

text \<open>C25. Saving in any environment replaces the file under the snapshot's name completely or not at all, and
  touches no other name, file or open descriptor but the temporary one. When it returns \<open>true\<close>, the new contents
  are in the cache and on stable storage, under a stable name; when no call fails, it returns \<open>true\<close>.\<close>

theorem save_replaces_atomically:
  assumes "os_wf s" and "separate_names p s"
  shows "case Snapshot_save p img s of (ok, t) \<Rightarrow>
    (file_of t p = file_of s p \<and> \<not> ok \<or> file_of t p = Some (snapshot_file img)) \<and>
    (ok \<longrightarrow> file_of t p = Some (snapshot_file img) \<and> stable_file_of t p = Some (snapshot_file img)) \<and>
    (kind s \<longrightarrow> ok) \<and> others_same p s t"
proof -
  obtain ok t where sv: "Snapshot_save p img s = (ok, t)" by fastforce
  note a = Snapshot_save_any [OF sv assms(1)] and b = Snapshot_save_file [OF sv assms(1)]
  have "file_of t p = file_of s p \<and> \<not> ok \<or> file_of t p = Some (snapshot_file img)"
    using b assms(2) by (simp add: separate_names_def)
  moreover have "file_of t p = Some (snapshot_file img) \<and> stable_file_of t p = Some (snapshot_file img)" if ok
  proof -
    from a that have r: "replaced p img s t" and st: "stable_names t = (\<lambda>q. if dir_of q = dir_of p then names t q else stable_names s q)"
      by blast+
    from fun_cong [OF st, of p] have "stable_names t p = names t p" by simp
    with r show ?thesis by (auto simp: replaced_def file_of_def stable_file_of_def)
  qed
  ultimately show ?thesis using a sv by auto
qed

theorem save_replaces_atomically_witness:
  "case Snapshot_save ''s'' sample_image sample_os of (ok, t) \<Rightarrow> ok \<and> stable_file_of t ''s'' = Some (snapshot_file sample_image)"
  using save_replaces_atomically [OF sample_os_wf sample_separate, of sample_image] by (auto split: prod.splits)

section \<open>Hostile files\<close>

text \<open>C27. No file, of whatever contents, makes the parser read outside its buffer. In the model every access to the payload, those of
  \<open>readLE32\<close> and \<open>readLE64\<close> as well as those of keys and values, has the outcome \<open>OutOfBounds\<close> outside it; the
  checks before them keep it from being reached, and \<open>payload.size() - offset\<close> does not wrap.\<close>

theorem load_stays_in_bounds:
  assumes "length file < 2 ^ 64"
  shows "fst (load_bytes file img) \<in> {Good, Reject}"
  using load_bytes_bound [OF assms, of img] by (cases "fst (load_bytes file img)") simp_all

theorem load_stays_in_bounds_witness:
  "fst (load_bytes (putLE32 [] SNAP_MAGIC @ putLE32 [] SNAP_VERSION @ replicate 40 255) SnapshotImage_default) \<in> {Good, Reject}"
  by (rule load_stays_in_bounds) simp

end
