(* ===== verification/Engine.thy ===== *)
theory Engine
  imports WAL Snapshot "HOL-Library.Multiset"
begin

text \<open>
  \<^verbatim>\<open>include/StorageEngine.hpp\<close> and \<^verbatim>\<open>src/StorageEngine.cpp\<close>: the key-value store. The object's
  fields are the record \<open>StorageEngine\<close>; \<open>m_wal = None\<close> is the null pointer of an in-memory engine. A
  method holds the mutex for its whole run, so it is one step; it returns \<open>Inl\<close> of what it throws next
  to the object and the system it leaves behind. \<open>Undefined\<close> is undefined behaviour.

  \<open>m_data\<close> is a \<open>std::unordered_map\<close>, modelled as an association list; only \<open>map_of m_data\<close> is
  meaningful. What C++ leaves open is the parameter \<open>platform\<close>: the byte order of the host and the
  order in which a map is iterated. The system clock is the argument \<open>now\<close>.
\<close>

section \<open>Data\<close>

record Record =
  rec_value :: bytes
  rec_duration :: double
  rec_timestamp :: i64

type_synonym Data = "(bytes \<times> Record list) list"

record StorageEngine =
  m_data :: Data
  m_wal :: "WAL option"
  m_walPath :: path
  m_snapshotPath :: path
  m_snapshotEpoch :: "u64 option"
  m_maxHistoryPerKey :: nat

datatype failure = Throws exn | Undefined

record platform =
  big_endian :: bool
  iter :: "SnapshotState \<Rightarrow> SnapshotState"

text \<open>A platform iterates over every element of a map exactly once.\<close>

definition good_platform :: "platform \<Rightarrow> bool" where
  "good_platform P \<longleftrightarrow> (\<forall>st. mset (iter P st) = mset st)"

definition kUnlimitedHistory :: nat where "kUnlimitedHistory = 0"
definition engine_kMaxFieldSize :: nat where "engine_kMaxFieldSize = kMaxFieldSize - 8"

section \<open>Helpers\<close>

text \<open>\<open>memcpy\<close> between a \<open>double\<close> and its bytes, in the byte order of the host.\<close>

definition host_bytes :: "platform \<Rightarrow> bytes \<Rightarrow> bytes" where
  "host_bytes P bs = (if big_endian P then rev bs else bs)"

definition serialize :: "platform \<Rightarrow> double \<Rightarrow> bytes \<Rightarrow> bytes" where
  "serialize P duration val = host_bytes P (putLE64 [] (doubleToBits duration)) @ val"

definition deserialize :: "platform \<Rightarrow> bytes \<Rightarrow> double \<times> bytes" where
  "deserialize P blob =
    (if length blob < 8 then (Double 0, [])
     else (bitsToDouble (getLE64 (host_bytes P (take 8 blob))), drop 8 blob))"

text \<open>\<open>std::filesystem::path::extension\<close>: from the last dot of the file name, unless it is its first character.\<close>

definition file_name :: "path \<Rightarrow> string" where
  "file_name p = rev (takeWhile (\<lambda>c. c \<noteq> CHR ''/'') (rev p))"

definition path_extension :: "path \<Rightarrow> string" where
  "path_extension p =
    (let f = file_name p; stem = dropWhile (\<lambda>c. c \<noteq> CHR ''.'') (rev f)
     in if f = ''.'' \<or> f = ''..'' \<or> length stem \<le> 1 then ''''
        else CHR ''.'' # rev (takeWhile (\<lambda>c. c \<noteq> CHR ''.'') (rev f)))"

definition replace_extension :: "path \<Rightarrow> string \<Rightarrow> path" where
  "replace_extension p ext = take (length p - length (path_extension p)) p @ ext"

definition makeSnapshotPath :: "path \<Rightarrow> path" where
  "makeSnapshotPath walPath =
    (if path_extension walPath = ''.wal'' then replace_extension walPath ''.snap'' else walPath @ ''.snap'')"

definition export_record :: "Record \<Rightarrow> SnapshotRecord" where
  "export_record r = \<lparr>sr_value = rec_value r, sr_duration = rec_duration r, sr_timestamp = rec_timestamp r\<rparr>"

definition exportSnapshotState :: "Data \<Rightarrow> SnapshotState" where
  "exportSnapshotState data =
    foldl (\<lambda>st kh. foldl (\<lambda>st r. push_record (fst kh) (export_record r) st) (touch_key (fst kh) st) (snd kh)) [] data"

section \<open>Operations\<close>

definition appendCapped :: "nat \<Rightarrow> Data \<Rightarrow> bytes \<Rightarrow> bytes \<Rightarrow> double \<Rightarrow> i64 \<Rightarrow> Data" where
  "appendCapped maxHistoryPerKey data key val duration timestamp =
    (let history = (case map_of data key of None \<Rightarrow> [] | Some h \<Rightarrow> h);
         history = (if maxHistoryPerKey \<noteq> kUnlimitedHistory \<and> length history \<ge> maxHistoryPerKey then tl history else history)
     in AList.update key (history @ [\<lparr>rec_value = val, rec_duration = duration, rec_timestamp = timestamp\<rparr>]) data)"

text \<open>The lambda that \<open>recover\<close> passes to \<open>WAL::recover\<close>.\<close>

definition recover_visitor :: "platform \<Rightarrow> nat \<Rightarrow> Data visitor" where
  "recover_visitor P cap data type key blob timestamp =
    (if type = PUT then (case deserialize P blob of (duration, val) \<Rightarrow> appendCapped cap data key val duration timestamp)
     else if type = DELETE then AList.delete key data
     else data)"

definition restore_image :: "platform \<Rightarrow> nat \<Rightarrow> SnapshotState \<Rightarrow> Data" where
  "restore_image P cap st =
    foldl (\<lambda>data kh. foldl (\<lambda>data r. appendCapped cap data (fst kh) (sr_value r) (sr_duration r) (sr_timestamp r))
      data (snd kh)) [] (iter P st)"

definition StorageEngine_recover :: "platform \<Rightarrow> StorageEngine \<Rightarrow> os \<Rightarrow> (failure + unit) \<times> StorageEngine \<times> os" where
  "StorageEngine_recover P e s =
    (let e = e\<lparr>m_data := [], m_snapshotEpoch := None\<rparr>
     in case Snapshot_load (m_snapshotPath e) SnapshotImage_default s of ((loaded, img), s) \<Rightarrow>
       if loaded = OutOfBounds then (Inl Undefined, e, s) else
       let e = (if loaded = Good
                then e\<lparr>m_snapshotEpoch := Some (si_epoch img),
                       m_data := restore_image P (m_maxHistoryPerKey e) (si_state img)\<rparr>
                else e)
       in case m_wal e of
         None \<Rightarrow> (Inl Undefined, e, s)
       | Some w \<Rightarrow>
         let w = (if loaded = Good then WAL_setEpoch (si_epoch img + 1) w else WAL_setEpoch 0 w)
         in case WAL_recover (recover_visitor P (m_maxHistoryPerKey e)) (m_snapshotEpoch e) (m_data e) w s of
           (result, data, w, s) \<Rightarrow>
             let e = e\<lparr>m_data := data, m_wal := Some w\<rparr>
             in if status result = Tampered
                then (Inl (Throws (runtime_error (''WAL tampering detected at offset '' @
                       to_string (unat (tamperOffset result)) @ '' (seq '' @ to_string (unat (tamperSeq result)) @ '')''))), e, s)
                else if status result = Malformed
                then (Inl (Throws (runtime_error (''WAL field exceeds the size limit at offset '' @
                       to_string (unat (tamperOffset result)) @ '' (seq '' @ to_string (unat (tamperSeq result)) @
                       '') - foreign or stale file''))), e, s)
                else (Inr (), e, s))"

text \<open>The constructor; when \<open>recover\<close> throws, the member \<open>m_wal\<close> is destroyed, which closes the log.\<close>

definition StorageEngine_open :: "platform \<Rightarrow> path \<Rightarrow> nat \<Rightarrow> nat \<Rightarrow> os \<Rightarrow> (failure + StorageEngine) \<times> os" where
  "StorageEngine_open P dbPath maxHistoryPerKey syncEveryN s =
    (case WAL_open dbPath syncEveryN s of
       (Inl x, s) \<Rightarrow> (Inl (Throws x), s)
     | (Inr w, s) \<Rightarrow>
         case StorageEngine_recover P
           \<lparr>m_data = [], m_wal = Some w, m_walPath = dbPath, m_snapshotPath = makeSnapshotPath dbPath,
            m_snapshotEpoch = None, m_maxHistoryPerKey = maxHistoryPerKey\<rparr> s of
           (Inr _, e, s) \<Rightarrow> (Inr e, s)
         | (Inl x, e, s) \<Rightarrow> (Inl x, case m_wal e of None \<Rightarrow> s | Some w \<Rightarrow> snd (WAL_close w s)))"

definition makeInMemory :: "nat \<Rightarrow> StorageEngine" where
  "makeInMemory maxHistoryPerKey =
    \<lparr>m_data = [], m_wal = None, m_walPath = '''', m_snapshotPath = '''', m_snapshotEpoch = None,
     m_maxHistoryPerKey = maxHistoryPerKey\<rparr>"

definition StorageEngine_close :: "StorageEngine \<Rightarrow> os \<Rightarrow> os" where
  "StorageEngine_close e s = (case m_wal e of None \<Rightarrow> s | Some w \<Rightarrow> snd (WAL_close w s))"

definition StorageEngine_set :: "platform \<Rightarrow> bytes \<Rightarrow> bytes \<Rightarrow> double \<Rightarrow> i64 \<Rightarrow> StorageEngine \<Rightarrow> os \<Rightarrow>
    (failure + unit) \<times> StorageEngine \<times> os" where
  "StorageEngine_set P key val duration now e s =
    (if length key > kMaxFieldSize
     then (Inl (Throws (length_error (''key exceeds '' @ to_string kMaxFieldSize @ '' bytes''))), e, s)
     else if length val > engine_kMaxFieldSize
     then (Inl (Throws (length_error (''value exceeds '' @ to_string engine_kMaxFieldSize @ '' bytes''))), e, s)
     else case m_wal e of
       None \<Rightarrow> (Inr (), e\<lparr>m_data := appendCapped (m_maxHistoryPerKey e) (m_data e) key val duration now\<rparr>, s)
     | Some w \<Rightarrow>
         let blob = serialize P duration val
         in case WAL_append PUT key blob now w s of
           (Inl x, w, s) \<Rightarrow> (Inl (Throws x), e\<lparr>m_wal := Some w\<rparr>, s)
         | (Inr _, w, s) \<Rightarrow>
             (Inr (), e\<lparr>m_wal := Some w,
                m_data := appendCapped (m_maxHistoryPerKey e) (m_data e) key val duration now\<rparr>, s))"

definition StorageEngine_get :: "StorageEngine \<Rightarrow> bytes \<Rightarrow> bytes option" where
  "StorageEngine_get e key =
    (case map_of (m_data e) key of
       None \<Rightarrow> None
     | Some history \<Rightarrow> if history \<noteq> [] then Some (rec_value (last history)) else None)"

definition StorageEngine_snapshot :: "platform \<Rightarrow> StorageEngine \<Rightarrow> os \<Rightarrow> (failure + unit) \<times> StorageEngine \<times> os" where
  "StorageEngine_snapshot P e s =
    (case m_wal e of
       None \<Rightarrow> (Inl (Throws (runtime_error ''snapshot() called on engine with no WAL'')), e, s)
     | Some w \<Rightarrow>
         let img = \<lparr>si_epoch = m_epoch w, si_state = iter P (exportSnapshotState (m_data e))\<rparr>
         in case Snapshot_save (m_snapshotPath e) img s of (saved, s) \<Rightarrow>
           if \<not> saved
           then (Inl (Throws (runtime_error (''Failed to write snapshot to disk: '' @ m_snapshotPath e))), e, s)
           else
             let e = e\<lparr>m_snapshotEpoch := Some (si_epoch img)\<rparr>; w = WAL_setEpoch (si_epoch img + 1) w
             in case WAL_reset w s of (rotated, w, s) \<Rightarrow>
               let e = e\<lparr>m_wal := Some w\<rparr>
               in if \<not> rotated
                  then (Inl (Throws (runtime_error (''WAL rotation failed after snapshot: '' @ m_walPath e))), e, s)
                  else (Inr (), e, s))"

definition StorageEngine_remove :: "bytes \<Rightarrow> i64 \<Rightarrow> StorageEngine \<Rightarrow> os \<Rightarrow> (failure + bool) \<times> StorageEngine \<times> os" where
  "StorageEngine_remove key now e s =
    (let erase = (\<lambda>e. (map_of (m_data e) key \<noteq> None, e\<lparr>m_data := AList.delete key (m_data e)\<rparr>))
     in case m_wal e of
       None \<Rightarrow> (case erase e of (found, e) \<Rightarrow> (Inr found, e, s))
     | Some w \<Rightarrow>
         case WAL_append DELETE key [] now w s of
           (Inl x, w, s) \<Rightarrow> (Inl (Throws x), e\<lparr>m_wal := Some w\<rparr>, s)
         | (Inr _, w, s) \<Rightarrow> (case erase (e\<lparr>m_wal := Some w\<rparr>) of (found, e) \<Rightarrow> (Inr found, e, s)))"

definition StorageEngine_count :: "StorageEngine \<Rightarrow> nat" where
  "StorageEngine_count e = length (m_data e)"

definition StorageEngine_historyCount :: "StorageEngine \<Rightarrow> bytes \<Rightarrow> nat" where
  "StorageEngine_historyCount e key = (case map_of (m_data e) key of None \<Rightarrow> 0 | Some history \<Rightarrow> length history)"

end
