(* ===== verification/Engine_Map.thy ===== *)
theory Engine_Map
  imports Engine WAL_Log Snapshot_Atomic
begin

text \<open>
  The store as a map from keys to histories. Each operation of \<open>Engine\<close> on \<open>m_data\<close> is the expected
  operation on the map, so the order of the association list does not matter; a snapshot that is
  exported and restored gives back the same map, whatever the iteration orders.
\<close>

type_synonym store = "bytes \<rightharpoonup> Record list"

section \<open>The contract of a store of histories\<close>

locale history_store =
  fixes histories :: "'d \<Rightarrow> 'k \<Rightarrow> 'r list option"
    and put :: "'k \<Rightarrow> 'r \<Rightarrow> 'd \<Rightarrow> 'd"
    and erase :: "'k \<Rightarrow> 'd \<Rightarrow> 'd"
    and cap :: nat
  assumes put_same: "histories (put k r d) k = (let h = (case histories d k of None \<Rightarrow> [] | Some h \<Rightarrow> h) in
        Some ((if cap \<noteq> 0 \<and> cap \<le> length h then tl h else h) @ [r]))"
    and put_other: "k' \<noteq> k \<Longrightarrow> histories (put k r d) k' = histories d k'"
    and erase_same: "histories (erase k d) k = None"
    and erase_other: "k' \<noteq> k \<Longrightarrow> histories (erase k d) k' = histories d k'"
begin

text \<open>The last record put is the last of the history.\<close>

lemma last_put: "\<exists>h. histories (put k r d) k = Some h \<and> h \<noteq> [] \<and> last h = r"
  by (simp add: put_same Let_def)

lemma bounded_put:
  assumes "\<And>k h. histories d k = Some h \<Longrightarrow> h \<noteq> [] \<and> (cap \<noteq> 0 \<longrightarrow> length h \<le> cap)"
    and "histories (put k r d) k' = Some h"
  shows "h \<noteq> [] \<and> (cap \<noteq> 0 \<longrightarrow> length h \<le> cap)"
proof (cases "k' = k")
  case True
  have "length (case histories d k of None \<Rightarrow> [] | Some h \<Rightarrow> h) \<le> cap \<or> cap = 0"
    using assms(1) [of k] by (cases "histories d k") auto
  with assms(2) True show ?thesis by (auto simp: put_same Let_def)
next
  case False
  with assms show ?thesis by (simp add: put_other)
qed

lemma put_congruent:
  assumes "histories d = histories d'"
  shows "histories (put k r d) = histories (put k r d')"
proof
  fix k'
  show "histories (put k r d) k' = histories (put k r d') k'"
    by (cases "k' = k") (simp_all add: put_same put_other assms)
qed

lemma erase_congruent:
  assumes "histories d = histories d'"
  shows "histories (erase k d) = histories (erase k d')"
proof
  fix k'
  show "histories (erase k d) k' = histories (erase k d') k'"
    by (cases "k' = k") (simp_all add: erase_same erase_other assms)
qed

text \<open>A run of puts to one key keeps the newest \<open>cap\<close> records, or all of them without a cap.\<close>

lemma puts_fresh:
  assumes "histories d k = None" and "rs \<noteq> []"
  shows "histories (foldl (\<lambda>d r. put k r d) d rs) k = Some (if cap = 0 then rs else drop (length rs - cap) rs)"
  using assms(2)
proof (induction rs rule: rev_induct)
  case (snoc r rs)
  show ?case
  proof (cases "rs = []")
    case True
    with assms(1) show ?thesis by (auto simp: put_same Let_def)
  next
    case False
    with snoc have IH: "histories (foldl (\<lambda>d r. put k r d) d rs) k = Some (if cap = 0 then rs else drop (length rs - cap) rs)"
      by simp
    have "tl (drop (length rs - cap) rs) @ [r] = drop (Suc (length rs) - cap) (rs @ [r])" if "cap \<noteq> 0" "cap \<le> length rs"
    proof -
      have "Suc (length rs) - cap = Suc (length rs - cap)" using that by simp
      moreover have "tl (drop n rs) = drop (Suc n) rs" for n by (simp add: tl_drop drop_Suc)
      ultimately show ?thesis using that by simp
    qed
    with IH show ?thesis by (auto simp: put_same Let_def)
  qed
qed simp

lemma puts_other: "k' \<noteq> k \<Longrightarrow> histories (foldl (\<lambda>d r. put k r d) d rs) k' = histories d k'"
  by (induction rs rule: rev_induct) (simp_all add: put_other)

end

section \<open>The engine's map\<close>

definition put_data :: "nat \<Rightarrow> bytes \<Rightarrow> Record \<Rightarrow> Data \<Rightarrow> Data" where
  "put_data cap key r data = appendCapped cap data key (rec_value r) (rec_duration r) (rec_timestamp r)"

definition histories_of :: "Data \<Rightarrow> store" where
  "histories_of data = map_of data"

lemma Record_eta [simp]:
  "\<lparr>rec_value = rec_value r, rec_duration = rec_duration r, rec_timestamp = rec_timestamp r\<rparr> = (r :: Record)"
  by simp

interpretation hs: history_store histories_of "put_data cap" AList.delete cap for cap
  by unfold_locales
    (auto simp: histories_of_def put_data_def appendCapped_def kUnlimitedHistory_def Let_def update_conv' delete_conv')

lemma appendCapped_put: "appendCapped cap data key v d ts = put_data cap key \<lparr>rec_value = v, rec_duration = d, rec_timestamp = ts\<rparr> data"
  by (simp add: put_data_def)

definition data_wf :: "nat \<Rightarrow> Data \<Rightarrow> bool" where
  "data_wf cap data \<longleftrightarrow> distinct (map fst data) \<and> (\<forall>kh \<in> set data. snd kh \<noteq> [] \<and> (cap \<noteq> 0 \<longrightarrow> length (snd kh) \<le> cap))"

lemma data_wf_Nil [simp]: "data_wf cap []"
  by (simp add: data_wf_def)

lemma data_wf_histories:
  assumes "distinct (map fst data)"
  shows "data_wf cap data \<longleftrightarrow> (\<forall>k h. histories_of data k = Some h \<longrightarrow> h \<noteq> [] \<and> (cap \<noteq> 0 \<longrightarrow> length h \<le> cap))"
  using assms by (force simp: data_wf_def histories_of_def)

lemma data_wf_put:
  assumes "data_wf cap data"
  shows "data_wf cap (put_data cap k r data)"
proof -
  have d: "distinct (map fst data)" using assms by (simp add: data_wf_def)
  then have d': "distinct (map fst (put_data cap k r data))"
    by (simp add: put_data_def appendCapped_def Let_def distinct_update)
  have b: "h \<noteq> [] \<and> (cap \<noteq> 0 \<longrightarrow> length h \<le> cap)" if "histories_of data k = Some h" for k h
    using that assms data_wf_histories [OF d] by blast
  show ?thesis
    unfolding data_wf_histories [OF d']
  proof (intro allI impI)
    fix k' h assume "histories_of (put_data cap k r data) k' = Some h"
    with b show "h \<noteq> [] \<and> (cap \<noteq> 0 \<longrightarrow> length h \<le> cap)" by (rule hs.bounded_put)
  qed
qed

lemma data_wf_delete:
  assumes "data_wf cap data"
  shows "data_wf cap (AList.delete k data)"
proof -
  have d: "distinct (map fst data)" using assms by (simp add: data_wf_def)
  then have d': "distinct (map fst (AList.delete k data))" by (rule distinct_delete)
  show ?thesis
    unfolding data_wf_histories [OF d']
  proof (intro allI impI)
    fix k' h assume a: "histories_of (AList.delete k data) k' = Some h"
    then have "k' \<noteq> k" using hs.erase_same [of k data] by auto
    with a have "histories_of data k' = Some h" using hs.erase_other [of k' k data] by simp
    with assms show "h \<noteq> [] \<and> (cap \<noteq> 0 \<longrightarrow> length h \<le> cap)" using data_wf_histories [OF d] by blast
  qed
qed

section \<open>Replaying the log\<close>

lemma recover_visitor_cases:
  "recover_visitor P cap data type key blob ts =
    (case type of
       PUT \<Rightarrow> put_data cap key \<lparr>rec_value = snd (deserialize P blob), rec_duration = fst (deserialize P blob), rec_timestamp = ts\<rparr> data
     | DELETE \<Rightarrow> AList.delete key data
     | Unnamed _ \<Rightarrow> data)"
  by (cases type) (simp_all add: recover_visitor_def appendCapped_put split: prod.split)

lemma replay_one_wf: "data_wf cap data \<Longrightarrow> data_wf cap (replay_one (recover_visitor P cap) m data r)"
  by (cases "r_type r") (simp_all add: replay_one_def recover_visitor_cases data_wf_put data_wf_delete)

lemma replay_wf: "data_wf cap data \<Longrightarrow> data_wf cap (foldl (replay_one (recover_visitor P cap) m) data rs)"
  by (induction rs arbitrary: data) (simp_all add: replay_one_wf)

lemma replay_one_congruent:
  assumes "histories_of data = histories_of data'"
  shows "histories_of (replay_one (recover_visitor P cap) m data r) = histories_of (replay_one (recover_visitor P cap) m data' r)"
  using assms
  by (cases "r_type r") (auto simp only: replay_one_def recover_visitor_cases RecordType.case
      intro: hs.put_congruent hs.erase_congruent split: if_split)

lemma replay_congruent:
  "histories_of data = histories_of data' \<Longrightarrow>
    histories_of (foldl (replay_one (recover_visitor P cap) m) data rs) =
    histories_of (foldl (replay_one (recover_visitor P cap) m) data' rs)"
proof (induction rs arbitrary: data data')
  case (Cons r rs)
  from Cons.IH [OF replay_one_congruent [OF Cons.prems]] show ?case by simp
qed simp

text \<open>Records at or below the snapshot's epoch are not replayed.\<close>

lemma replay_skipped:
  "\<forall>r \<in> set rs. r_epoch r \<le> m \<Longrightarrow> foldl (replay_one f (Some m)) data rs = data"
  by (induction rs) (auto simp: replay_one_def)

lemma replay_no_snapshot_mono:
  "\<forall>r \<in> set rs. m < r_epoch r \<Longrightarrow> foldl (replay_one f (Some m)) data rs = foldl (replay_one f None) data rs"
  by (induction rs arbitrary: data) (auto simp: replay_one_def)

section \<open>Serialisation\<close>

lemma length_host_bytes [simp]: "length (host_bytes P bs) = length bs"
  by (simp add: host_bytes_def)

lemma host_bytes_twice [simp]: "host_bytes P (host_bytes P bs) = bs"
  by (simp add: host_bytes_def)

lemma deserialize_serialize [simp]: "deserialize P (serialize P d v) = (d, v)"
  using le64.dec_enc [of "doubleToBits d" "[]"]
  by (simp add: deserialize_def serialize_def)

lemma length_serialize [simp]: "length (serialize P d v) = 8 + length v"
  by (simp add: serialize_def)

section \<open>Snapshots of the map\<close>

lemma foldl_touch_push:
  assumes "k \<notin> set (map fst st)"
  shows "foldl (\<lambda>st r. push_record k (f r) st) (touch_key k st) rs = st @ [(k, map f rs)]"
  using push_records_last [OF assms, of "[]" "map f rs"] touch_key_new [OF assms]
  by (simp add: foldl_map)

lemma exportSnapshotState_eq:
  assumes "distinct (map fst data)"
  shows "exportSnapshotState data = map (\<lambda>kh. (fst kh, map export_record (snd kh))) data"
proof -
  have "foldl (\<lambda>st kh. foldl (\<lambda>st r. push_record (fst kh) (export_record r) st) (touch_key (fst kh) st) (snd kh)) st data =
      st @ map (\<lambda>kh. (fst kh, map export_record (snd kh))) data" if "distinct (map fst st @ map fst data)" for st
    using that
  proof (induction data arbitrary: st)
    case (Cons kh data)
    then show ?case by (simp add: foldl_touch_push)
  qed simp
  from this [of "[]"] assms show ?thesis by (simp add: exportSnapshotState_def)
qed

definition import_record :: "SnapshotRecord \<Rightarrow> Record" where
  "import_record r = \<lparr>rec_value = sr_value r, rec_duration = sr_duration r, rec_timestamp = sr_timestamp r\<rparr>"

lemma import_export [simp]: "import_record (export_record r) = r"
  by (simp add: import_record_def export_record_def)

lemma restore_image_puts:
  "restore_image P cap st = foldl (\<lambda>data kh. foldl (\<lambda>data r. put_data cap (fst kh) r data) data (map import_record (snd kh))) [] (iter P st)"
  unfolding restore_image_def foldl_map
  by (simp add: appendCapped_put import_record_def)

lemma restore_wf: "data_wf cap (restore_image P cap st)"
proof -
  have one: "data_wf cap data \<Longrightarrow> data_wf cap (foldl (\<lambda>data r. put_data cap k r data) data rs)" for data k rs
    by (induction rs arbitrary: data) (simp_all add: data_wf_put)
  have "data_wf cap data \<Longrightarrow> data_wf cap
      (foldl (\<lambda>data kh. foldl (\<lambda>data r. put_data cap (fst kh) r data) data (map import_record (snd kh))) data kvs)"
    for data and kvs :: SnapshotState
    by (induction kvs arbitrary: data) (simp_all add: one)
  then show ?thesis by (simp add: restore_image_puts)
qed

text \<open>What a restored image holds: of each key the newest \<open>cap\<close> records.\<close>

definition image_store :: "nat \<Rightarrow> SnapshotState \<Rightarrow> store" where
  "image_store cap st k = (case map_of st k of
     None \<Rightarrow> None
   | Some h \<Rightarrow> if h = [] then None
       else Some (map import_record (if cap = 0 then h else drop (length h - cap) h)))"

lemma good_platform_iter:
  assumes "good_platform P"
  shows "set (iter P st) = set st" and "length (iter P st) = length st" and "distinct (map fst st) \<Longrightarrow> distinct (map fst (iter P st))"
    and "distinct (map fst st) \<Longrightarrow> map_of (iter P st) = map_of st"
proof -
  have m: "mset (iter P st) = mset st" using assms by (simp add: good_platform_def)
  show s: "set (iter P st) = set st" and "length (iter P st) = length st"
    using m by (metis set_mset_mset, metis size_mset)
  have "mset (map fst (iter P st)) = mset (map fst st)" using m by (metis mset_map)
  then show d: "distinct (map fst (iter P st))" if "distinct (map fst st)"
    using that by (metis mset_eq_imp_distinct_iff)
  show "map_of (iter P st) = map_of st" if "distinct (map fst st)"
    using d [OF that] that s by (simp add: map_of_inject_set)
qed

lemma restore_image_store:
  assumes "good_platform P" and "distinct (map fst st)"
  shows "histories_of (restore_image P cap st) = image_store cap st"
proof -
  let ?step = "\<lambda>data kh. foldl (\<lambda>data r. put_data cap (fst kh) r data) data (map import_record (snd kh))"
  have gen: "histories_of (foldl ?step data kvs) k =
      (case map_of kvs k of None \<Rightarrow> histories_of data k
       | Some h \<Rightarrow> if h = [] then None else Some (map import_record (if cap = 0 then h else drop (length h - cap) h)))"
    if "distinct (map fst kvs)" "\<forall>kv \<in> set kvs. histories_of data (fst kv) = None" for data k and kvs :: SnapshotState
    using that
  proof (induction kvs arbitrary: data)
    case (Cons kv kvs)
    have other: "histories_of (?step data kv) k' = histories_of data k'" if "k' \<noteq> fst kv" for k'
      using that by (rule hs.puts_other)
    have same: "histories_of (?step data kv) (fst kv) = (if snd kv = [] then None
        else Some (map import_record (if cap = 0 then snd kv else drop (length (snd kv) - cap) (snd kv))))"
      using Cons.prems(2) hs.puts_fresh [of data "fst kv" "map import_record (snd kv)" cap] by (simp add: drop_map)
    have "histories_of (?step data kv) (fst kv') = None" if "kv' \<in> set kvs" for kv'
    proof -
      have "fst kv \<notin> fst ` set kvs" using Cons.prems(1) by simp
      then have "fst kv' \<noteq> fst kv" using imageI [OF that, of fst] by metis
      with other that Cons.prems(2) show ?thesis by simp
    qed
    then have "\<forall>kv' \<in> set kvs. histories_of (?step data kv) (fst kv') = None" by blast
    from Cons.IH [OF _ this] Cons.prems(1) have IH: "histories_of (foldl ?step data (kv # kvs)) k =
        (case map_of kvs k of None \<Rightarrow> histories_of (?step data kv) k
         | Some h \<Rightarrow> if h = [] then None else Some (map import_record (if cap = 0 then h else drop (length h - cap) h)))"
      by simp
    show ?case
    proof (cases "k = fst kv")
      case True
      then have "map_of kvs k = None" using Cons.prems(1) by (simp add: map_of_eq_None_iff)
      with True IH same show ?thesis by simp
    next
      case False
      with IH other show ?thesis by (cases kv) (simp split: option.splits)
    qed
  qed simp
  show ?thesis
  proof
    fix k
    have "distinct (map fst (iter P st))" "map_of (iter P st) = map_of st"
      using good_platform_iter [OF assms(1)] assms(2) by blast+
    then show "histories_of (restore_image P cap st) k = image_store cap st k"
      using gen [of "iter P st" "[]" k] by (cases "map_of st k") (simp_all add: restore_image_puts image_store_def histories_of_def)
  qed
qed

text \<open>Saving the live map and restoring it, under any two iteration orders, gives the same map.\<close>

lemma restore_export:
  assumes "good_platform P" and "good_platform Q" and "data_wf cap data"
  shows "histories_of (restore_image P cap (iter Q (exportSnapshotState data))) = histories_of data"
proof
  fix k
  have d: "distinct (map fst data)" using assms(3) by (simp add: data_wf_def)
  let ?st = "map (\<lambda>kh. (fst kh, map export_record (snd kh))) data"
  have st: "exportSnapshotState data = ?st" using d by (rule exportSnapshotState_eq)
  have ds: "distinct (map fst ?st)" using d by (simp add: o_def)
  note it = good_platform_iter [OF assms(2), of ?st]
  have "histories_of (restore_image P cap (iter Q ?st)) k = image_store cap (iter Q ?st) k"
    using restore_image_store [OF assms(1) it(3) [OF ds]] by simp
  also have "\<dots> = image_store cap ?st k" using it(4) [OF ds] by (simp add: image_store_def)
  also have "\<dots> = histories_of data k"
  proof -
    have "map_of ?st k = map_option (map export_record) (map_of data k)"
      by (induction data) auto
    moreover have wf: "h \<noteq> [] \<and> (cap \<noteq> 0 \<longrightarrow> length h \<le> cap)" if "map_of data k = Some h" for h
      using that assms(3) by (force simp: data_wf_def dest: map_of_SomeD)
    ultimately show ?thesis
    proof (cases "map_of data k")
      case (Some h)
      have "map import_record (map export_record h) = h" by (simp add: o_def)
      with Some \<open>map_of ?st k = _\<close> wf [OF Some] show ?thesis
        by (simp add: image_store_def histories_of_def del: map_map)
    qed (simp add: image_store_def histories_of_def)
  qed
  finally show "histories_of (restore_image P cap (iter Q (exportSnapshotState data))) k = histories_of data k"
    by (simp add: st)
qed

end
