(* ===== verification/Engine_Recovery.thy ===== *)
theory Engine_Recovery
  imports Engine_Map
begin

text \<open>
  Recovery as a function of the files. \<open>recovered\<close> is the map that a snapshot image and a list of log
  records stand for; \<open>StorageEngine_recover\<close> computes it, on the object and on the files.
\<close>

section \<open>Recovery as a function of the files\<close>

definition base_data :: "platform \<Rightarrow> nat \<Rightarrow> SnapshotImage option \<Rightarrow> Data" where
  "base_data P cap snap = (case snap of None \<Rightarrow> [] | Some img \<Rightarrow> restore_image P cap (si_state img))"

definition recovered :: "platform \<Rightarrow> nat \<Rightarrow> SnapshotImage option \<Rightarrow> log_record list \<Rightarrow> Data" where
  "recovered P cap snap rs =
    foldl (replay_one (recover_visitor P cap) (map_option si_epoch snap)) (base_data P cap snap) rs"

definition next_epoch :: "SnapshotImage option \<Rightarrow> u64" where
  "next_epoch snap = (case snap of None \<Rightarrow> 0 | Some img \<Rightarrow> si_epoch img + 1)"

lemma base_data_wf: "data_wf cap (base_data P cap snap)"
  by (cases snap) (simp_all add: base_data_def restore_wf)

lemma recovered_wf: "data_wf cap (recovered P cap snap rs)"
  by (simp add: recovered_def replay_wf base_data_wf)

lemma recovered_snoc:
  "recovered P cap snap (rs @ [r]) = replay_one (recover_visitor P cap) (map_option si_epoch snap) (recovered P cap snap rs) r"
  by (simp add: recovered_def)

text \<open>A file that no name of the snapshot reaches: the log's inode, and the descriptor open on it.\<close>

definition apart :: "path \<Rightarrow> os \<Rightarrow> int \<Rightarrow> path \<Rightarrow> bool" where
  "apart walPath s fd sp \<longleftrightarrow> separate_names sp s \<and> walPath \<noteq> sp \<and> walPath \<noteq> sp @ ''.tmp'' \<and>
     (\<exists>f. fds s fd = Some f \<and> names s walPath = Some (f_ino f) \<and> f_ino f < next_ino s \<and> names s sp \<noteq> Some (f_ino f) \<and>
       names s (sp @ ''.tmp'') \<noteq> Some (f_ino f))"

lemma apart_only_file:
  assumes "apart wp s fd sp" and "only_file fd s t"
  shows "apart wp t fd sp \<and> file_of t sp = file_of s sp"
proof -
  obtain f where f: "fds s fd = Some f" "names s wp = Some (f_ino f)" "f_ino f < next_ino s" "names s sp \<noteq> Some (f_ino f)"
      "names s (sp @ ''.tmp'') \<noteq> Some (f_ino f)"
    using assms(1) by (auto simp: apart_def)
  obtain n where n: "fds t fd = Some (f\<lparr>f_off := n\<rparr>)" and e: "names t = names s" "next_ino t = next_ino s"
    using assms(2) f(1) by (auto simp: only_file_def)
  have "apart wp t fd sp" using assms(1) f n e by (simp add: apart_def separate_names_def)
  moreover have "file_of t sp = file_of s sp"
  proof (cases "names s sp")
    case (Some i)
    with f(4) only_file_inodes [OF assms(2) f(1), of i] e show ?thesis by (simp add: file_of_def)
  qed (simp add: file_of_def e)
  ultimately show ?thesis ..
qed

section \<open>recover()\<close>

lemma fcontent_frame:
  assumes "fds s fd = Some f" and "fds t fd = Some f" and "inodes t (f_ino f) = inodes s (f_ino f)"
  shows "fcontent t fd = fcontent s fd" "fstable t fd = fstable s fd" "appending t fd = appending s fd"
  using assms by (simp_all add: fcontent_def fstable_def appending_def)

lemma StorageEngine_recover_kind:
  assumes rc: "StorageEngine_recover P e s = (res, e', t)" and k: "kind s" and wf: "os_wf s"
    and w: "m_wal e = Some w" "m_fd w \<noteq> -1" "appending s (m_fd w)" "valid_header (take 16 (fcontent s (m_fd w)))"
    and sc: "file_scan (fcontent s (m_fd w)) = (vs, en)" and ap: "apart (m_walPath e) s (m_fd w) (m_snapshotPath e)"
    and ub: "\<forall>f. file_of s (m_snapshotPath e) = Some f \<longrightarrow> length f < 2 ^ 64"
  defines "snap \<equiv> stored_image (m_snapshotPath e) s"
  shows "kind t \<and> os_wf t \<and> m_walPath e' = m_walPath e \<and> m_snapshotPath e' = m_snapshotPath e \<and>
    m_maxHistoryPerKey e' = m_maxHistoryPerKey e \<and> m_snapshotEpoch e' = map_option si_epoch snap \<and>
    m_data e' = recovered P (m_maxHistoryPerKey e) snap (map record_of vs) \<and>
    stored_image (m_snapshotPath e) t = snap \<and> file_of t (m_snapshotPath e) = file_of s (m_snapshotPath e) \<and>
    apart (m_walPath e) t (m_fd w) (m_snapshotPath e) \<and>
    (if \<exists>x. en = BadAt x then fcontent t (m_fd w) = fcontent s (m_fd w) \<and> (\<exists>x. res = Inl (Throws (runtime_error x)))
     else res = Inr () \<and> (\<exists>w'. m_wal e' = Some w' \<and> m_fd w' = m_fd w \<and> m_epoch w' = next_epoch snap \<and>
       m_syncEveryN w' = m_syncEveryN w \<and> m_pendingWrites w' = m_pendingWrites w \<and> wal_holds w' t (map record_of vs)))"
proof -
  let ?sp = "m_snapshotPath e" and ?fd = "m_fd w" and ?cap = "m_maxHistoryPerKey e"
  obtain pst img s1 where ld: "Snapshot_load ?sp SnapshotImage_default s = ((pst, img), s1)" by (metis surj_pair)
  from Snapshot_load_any [OF ld wf] k have wf1: "os_wf s1" and k1: "kind s1" and n1: "names s1 = names s"
    and i1: "inodes s1 = inodes s" and ni1: "next_ino s1 = next_ino s" and f1: "\<forall>g. fds s g \<noteq> None \<longrightarrow> fds s1 g = fds s g"
    and res1: "(pst, img) = (case file_of s ?sp of None \<Rightarrow> (Reject, SnapshotImage_default)
      | Some f \<Rightarrow> load_bytes f SnapshotImage_default)"
    by auto
  have snap: "snap = (if pst = Good then Some img else None)"
    using res1 by (auto simp: snap_def stored_image_def split: option.splits prod.splits)
  have nub: "pst \<noteq> OutOfBounds"
    using res1 ub load_bytes_bound [of _ SnapshotImage_default] by (auto split: option.splits) (metis fst_conv)
  obtain g where g: "fds s ?fd = Some g" using w(3) by (auto simp: appending_def)
  have g1: "fds s1 ?fd = Some g" using f1 g by simp
  note fr = fcontent_frame [OF g g1, unfolded i1, OF refl]
  have st1: "stored_image ?sp s1 = snap" unfolding snap_def by (rule stored_image_file) (simp add: file_of_def n1 i1)
  have ap1: "apart (m_walPath e) s1 ?fd ?sp" using ap n1 ni1 g g1 by (simp add: apart_def separate_names_def)
  define w1 where "w1 = WAL_setEpoch (next_epoch snap) w"
  have fd1: "m_fd w1 = ?fd" by (simp add: w1_def WAL_setEpoch_def)
  obtain r data w2 s2 where wr: "WAL_recover (recover_visitor P ?cap) (map_option si_epoch snap) (base_data P ?cap snap) w1 s1 =
      (r, data, w2, s2)"
    by (metis prod_cases4)
  have "file_scan (fcontent s1 (m_fd w1)) = (vs, en)" using sc fr fd1 by simp
  note rk = WAL_recover_kind [OF wr _ _ k1 this, unfolded fd1 fr, OF w(2-4)]
  have a: "r = result_of vs en" "data = recovered P ?cap snap (map record_of vs)" "kind s2" "only_file ?fd s1 s2"
    unfolding recovered_def using rk by blast+
  have log: "if \<exists>x. en = BadAt x then w2 = w1 \<and> fcontent s2 ?fd = fcontent s ?fd
      else w2 = w1\<lparr>m_seq := of_nat (length vs), m_headHash := end_hash zero_hash vs\<rparr> \<and> wal_holds w2 s2 (map record_of vs)"
    using rk by blast
  have ends: "(status2 = Ok \<or> status2 = TruncatedTail) \<longleftrightarrow> \<not> (\<exists>x. en = BadAt x)" if "status2 = status r" for status2
    using scan_log_sound [OF sc [unfolded file_scan_def]] unfolding that a(1) by (cases en) (auto simp: result_of_def)
  define e2 where "e2 = e\<lparr>m_data := data, m_snapshotEpoch := map_option si_epoch snap, m_wal := Some w2\<rparr>"
  have out: "t = s2 \<and> e' = e2 \<and> (if status r = Tampered \<or> status r = Malformed
      then \<exists>x. res = Inl (Throws (runtime_error x)) else res = Inr ())"
  proof (cases "pst = Good")
    case True
    with snap have "snap = Some img" by simp
    with rc ld nub w(1) wr True show ?thesis
      by (auto simp: StorageEngine_recover_def e2_def w1_def next_epoch_def base_data_def Let_def split: if_splits)
  next
    case False
    with snap have "snap = None" by simp
    with rc ld nub w(1) wr False show ?thesis
      by (auto simp: StorageEngine_recover_def e2_def w1_def next_epoch_def base_data_def Let_def split: if_splits)
  qed
  have wf2: "os_wf s2" using only_file_wf [OF a(4) wf1] .
  have ap2: "apart (m_walPath e) s2 ?fd ?sp" "file_of s2 ?sp = file_of s1 ?sp"
    using apart_only_file [OF ap1 a(4)] by simp_all
  have st2: "stored_image ?sp s2 = snap" using stored_image_file [OF ap2(2)] st1 by simp
  have fo2: "file_of s2 ?sp = file_of s ?sp" using ap2(2) by (simp add: file_of_def n1 i1)
  have bad: "(status r = Tampered \<or> status r = Malformed) \<longleftrightarrow> (\<exists>x. en = BadAt x)"
    using ends [OF refl] by (cases "status r") auto
  show ?thesis
  proof (cases "\<exists>x. en = BadAt x")
    case True
    with out bad a log wf2 ap2(1) st2 fo2 show ?thesis by (auto simp: e2_def)
  next
    case False
    with out bad have "res = Inr ()" "t = s2" "e' = e2" by auto
    moreover have "m_wal e2 = Some w2 \<and> m_fd w2 = ?fd \<and> m_epoch w2 = next_epoch snap \<and>
        m_syncEveryN w2 = m_syncEveryN w \<and> m_pendingWrites w2 = m_pendingWrites w \<and> wal_holds w2 s2 (map record_of vs)"
      using log False by (auto simp: e2_def w1_def WAL_setEpoch_def)
    ultimately show ?thesis using False a wf2 ap2(1) st2 fo2 by (simp add: e2_def)
  qed
qed

end
