(* ===== verification/Engine_Invariant.thy ===== *)
theory Engine_Invariant
  imports Engine_Recovery
begin

text \<open>
  The engine against its files. \<open>disk_store\<close> is the map that the bytes of a log and of a snapshot stand
  for, and \<open>StorageEngine_open\<close> computes it. \<open>engine_inv\<close> says that the live map is the one on disk;
  every operation that returns normally keeps it, in any environment.
\<close>

section \<open>The map on disk\<close>

definition image_of :: "bytes option \<Rightarrow> SnapshotImage option" where
  "image_of file = (case file of
     None \<Rightarrow> None
   | Some f \<Rightarrow> (case load_bytes f SnapshotImage_default of (pst, img) \<Rightarrow> if pst = Good then Some img else None))"

lemma stored_image_of: "stored_image p s = image_of (file_of s p)"
  by (simp add: stored_image_def image_of_def)

text \<open>\<open>None\<close>: the engine refuses to open.\<close>

definition disk_store :: "platform \<Rightarrow> nat \<Rightarrow> bytes option \<Rightarrow> bytes option \<Rightarrow> store option" where
  "disk_store P cap wal snap =
    (if wal = None \<or> wal = Some [] then Some (histories_of (recovered P cap (image_of snap) []))
     else if \<not> valid_header (take 16 (the wal)) then None
     else case file_scan (the wal) of (vs, en) \<Rightarrow>
       (case en of BadAt _ \<Rightarrow> None
        | _ \<Rightarrow> Some (histories_of (recovered P cap (image_of snap) (map record_of vs)))))"

lemma holds_bytes_nonempty: "holds_bytes c rs \<Longrightarrow> c \<noteq> []"
  using holds_bytes_len by fastforce

lemma disk_store_scan:
  assumes "valid_header (take 16 c)" and "file_scan c = (vs, en)" and "\<forall>x. en \<noteq> BadAt x"
  shows "disk_store P cap (Some c) snap = Some (histories_of (recovered P cap (image_of snap) (map record_of vs)))"
proof -
  have "c \<noteq> []" using assms(1) by (auto simp: valid_header_def)
  with assms show ?thesis by (cases en) (simp_all add: disk_store_def)
qed

lemma disk_store_holds:
  "holds_bytes c rs \<Longrightarrow> disk_store P cap (Some c) snap = Some (histories_of (recovered P cap (image_of snap) rs))"
  using disk_store_scan [OF _ file_scan_holds] by (simp add: holds_bytes_def)

section \<open>Opening\<close>

text \<open>No two of the three names share a file.\<close>

definition files_apart :: "path \<Rightarrow> path \<Rightarrow> os \<Rightarrow> bool" where
  "files_apart wp sp s \<longleftrightarrow> separate_names sp s \<and>
     (names s wp \<noteq> None \<longrightarrow> names s sp \<noteq> names s wp \<and> names s (sp @ ''.tmp'') \<noteq> names s wp)"

lemma path_extension_suffix: "\<exists>stem. p = stem @ path_extension p \<and> length stem = length p - length (path_extension p)"
proof -
  let ?r = "rev (file_name p)"
  let ?e = "rev (takeWhile (\<lambda>c. c \<noteq> CHR ''.'') ?r)"
  have f: "\<exists>d. p = d @ file_name p"
  proof -
    have "rev p = takeWhile (\<lambda>c. c \<noteq> CHR ''/'') (rev p) @ dropWhile (\<lambda>c. c \<noteq> CHR ''/'') (rev p)" by simp
    then have "p = rev (dropWhile (\<lambda>c. c \<noteq> CHR ''/'') (rev p)) @ file_name p"
      unfolding file_name_def by (metis rev_append rev_rev_ident)
    then show ?thesis by blast
  qed
  have "\<exists>stem. p = stem @ path_extension p"
  proof (cases "path_extension p = ''''")
    case False
    then have e: "path_extension p = CHR ''.'' # ?e" and l: "1 < length (dropWhile (\<lambda>c. c \<noteq> CHR ''.'') ?r)"
      by (auto simp: path_extension_def Let_def split: if_splits)
    then obtain rest where "dropWhile (\<lambda>c. c \<noteq> CHR ''.'') ?r = CHR ''.'' # rest"
      using hd_dropWhile [of "\<lambda>c. c \<noteq> CHR ''.''" ?r] by (cases "dropWhile (\<lambda>c. c \<noteq> CHR ''.'') ?r") auto
    then have "?r = takeWhile (\<lambda>c. c \<noteq> CHR ''.'') ?r @ CHR ''.'' # rest" by (metis takeWhile_dropWhile_id)
    then have "file_name p = rev (takeWhile (\<lambda>c. c \<noteq> CHR ''.'') ?r @ CHR ''.'' # rest)" by (metis rev_rev_ident)
    then have "file_name p = rev rest @ path_extension p" unfolding e by simp
    with f show ?thesis by (metis append.assoc)
  qed simp
  then show ?thesis by (metis add_diff_cancel_right' length_append)
qed

lemma makeSnapshotPath_neq: "wp \<noteq> makeSnapshotPath wp \<and> wp \<noteq> makeSnapshotPath wp @ ''.tmp''"
proof (cases "path_extension wp = ''.wal''")
  case True
  obtain stem where s: "wp = stem @ ''.wal''" "length stem = length wp - 4"
    using path_extension_suffix [of wp] True by auto
  then have "makeSnapshotPath wp = stem @ ''.snap''"
    using True by (simp add: makeSnapshotPath_def replace_extension_def)
  with s(1) show ?thesis by simp
next
  case False
  then show ?thesis by (simp add: makeSnapshotPath_def)
qed

text \<open>
  The epochs on disk are in order: no record is newer than the epoch the log continues with, and that
  epoch has not wrapped around.
\<close>

definition disk_records :: "bytes option \<Rightarrow> log_record list" where
  "disk_records wal = (case wal of None \<Rightarrow> [] | Some c \<Rightarrow> map record_of (fst (file_scan c)))"

definition epochs_ordered :: "SnapshotImage option \<Rightarrow> log_record list \<Rightarrow> bool" where
  "epochs_ordered snap rs \<longleftrightarrow> (\<forall>r \<in> set rs. r_epoch r \<le> next_epoch snap) \<and>
     (case snap of None \<Rightarrow> True | Some img \<Rightarrow> si_epoch img < next_epoch snap)"

definition engine_inv :: "platform \<Rightarrow> StorageEngine \<Rightarrow> os \<Rightarrow> log_record list \<Rightarrow> bool" where
  "engine_inv P e s rs \<longleftrightarrow>
    (\<exists>w. m_wal e = Some w \<and> wal_holds w s rs \<and> m_epoch w = next_epoch (stored_image (m_snapshotPath e) s) \<and>
       apart (m_walPath e) s (m_fd w) (m_snapshotPath e)) \<and>
    os_wf s \<and> data_wf (m_maxHistoryPerKey e) (m_data e) \<and>
    m_snapshotPath e = makeSnapshotPath (m_walPath e) \<and>
    m_snapshotEpoch e = map_option si_epoch (stored_image (m_snapshotPath e) s) \<and>
    (\<forall>f. file_of s (m_snapshotPath e) = Some f \<longrightarrow> length f < 2 ^ 64) \<and>
    epochs_ordered (stored_image (m_snapshotPath e) s) rs \<and>
    histories_of (m_data e) = histories_of (recovered P (m_maxHistoryPerKey e) (stored_image (m_snapshotPath e) s) rs)"

lemma open_files_apart:
  assumes "os_wf s" and "files_apart wp (makeSnapshotPath wp) s"
    and "fds t fd = Some f" and "names s wp = Some (f_ino f) \<or> names s wp = None \<and> f_ino f = next_ino s"
    and "names t = (names s)(wp \<mapsto> f_ino f)" and "os_wf t" and "\<forall>j. j \<noteq> f_ino f \<longrightarrow> inodes t j = inodes s j"
  shows "apart wp t fd (makeSnapshotPath wp) \<and> file_of t (makeSnapshotPath wp) = file_of s (makeSnapshotPath wp)"
proof -
  let ?sp = "makeSnapshotPath wp"
  note n = makeSnapshotPath_neq [of wp]
  have ne: "names s ?sp \<noteq> Some (f_ino f)" "names s (?sp @ ''.tmp'') \<noteq> Some (f_ino f)"
    using assms(2,4) os_wf_name [OF assms(1)] by (fastforce simp: files_apart_def)+
  have "f_ino f < next_ino t" using os_wf_fd [OF assms(6,3)] by simp
  with n ne assms(2,3,5) have "apart wp t fd ?sp" by (auto simp: apart_def separate_names_def files_apart_def)
  moreover have "file_of t ?sp = file_of s ?sp"
    using n ne(1) assms(5,7) by (cases "names s ?sp") (auto simp: file_of_def)
  ultimately show ?thesis ..
qed

lemma StorageEngine_open_kind:
  assumes wf: "os_wf s" and k: "kind s" and ap: "files_apart wp (makeSnapshotPath wp) s"
    and ub: "\<forall>f. file_of s (makeSnapshotPath wp) = Some f \<longrightarrow> length f < 2 ^ 64"
  shows "case disk_store P cap (file_of s wp) (file_of s (makeSnapshotPath wp)) of
      None \<Rightarrow> \<exists>x t. StorageEngine_open P wp cap n s = (Inl (Throws (runtime_error x)), t)
    | Some m \<Rightarrow> \<exists>e t. StorageEngine_open P wp cap n s = (Inr e, t) \<and> kind t \<and> histories_of (m_data e) = m \<and>
        m_walPath e = wp \<and> m_maxHistoryPerKey e = cap \<and>
        file_of t (makeSnapshotPath wp) = file_of s (makeSnapshotPath wp) \<and>
        (epochs_ordered (image_of (file_of s (makeSnapshotPath wp))) (disk_records (file_of s wp)) \<longrightarrow>
          engine_inv P e t (disk_records (file_of s wp)))"
proof -
  let ?sp = "makeSnapshotPath wp" and ?wal = "file_of s wp"
  let ?snap = "image_of (file_of s ?sp)"
  note ok = WAL_open_kind [OF wf k, of wp n]
  show ?thesis
  proof (cases "\<exists>w t. WAL_open wp n s = (Inr w, t) \<and> kind t")
    case False
    with ok obtain t x c where c: "?wal = Some c" "c \<noteq> []" "\<not> valid_header (take 16 c)"
      and o: "WAL_open wp n s = (Inl (runtime_error x), t)"
      by (cases ?wal) (auto split: list.splits if_splits)
    then have "disk_store P cap ?wal (file_of s ?sp) = None" by (simp add: disk_store_def)
    moreover have "StorageEngine_open P wp cap n s = (Inl (Throws (runtime_error x)), t)"
      using o by (simp add: StorageEngine_open_def)
    ultimately show ?thesis by simp
  next
    case True
    then obtain w s1 where o: "WAL_open wp n s = (Inr w, s1)" and k1: "kind s1" by blast
    let ?fd = "m_fd w"
    note a = WAL_open_any [OF o wf]
    from a obtain f where f: "fds s1 ?fd = Some f" "names s wp = Some (f_ino f) \<or> names s wp = None \<and> f_ino f = next_ino s"
        "names s1 = (names s)(wp \<mapsto> f_ino f)" "\<forall>j. j \<noteq> f_ino f \<longrightarrow> inodes s1 j = inodes s j"
      by blast
    have a1: "os_wf s1" "m_fd w \<noteq> -1" "appending s1 ?fd" "valid_header (take 16 (fcontent s1 ?fd))" using a by blast+
    have c1: "fcontent s1 ?fd = (if ?wal = None \<or> ?wal = Some [] then header_bytes else the ?wal)"
      using a by (auto split: option.splits list.splits)
    from open_files_apart [OF wf ap f(1-3) a1(1) f(4)]
    have ap1: "apart wp s1 ?fd ?sp" and sf1: "file_of s1 ?sp = file_of s ?sp" by simp_all
    obtain vs en where sc: "file_scan (fcontent s1 ?fd) = (vs, en)" by fastforce
    define e0 where "e0 = \<lparr>m_data = [], m_wal = Some w, m_walPath = wp, m_snapshotPath = ?sp,
        m_snapshotEpoch = None, m_maxHistoryPerKey = cap\<rparr>"
    have e0: "m_wal e0 = Some w" "m_walPath e0 = wp" "m_snapshotPath e0 = ?sp" "m_maxHistoryPerKey e0 = cap"
      by (simp_all add: e0_def)
    obtain res e t where rc: "StorageEngine_recover P e0 s1 = (res, e, t)" by (metis prod_cases3)
    have opn: "StorageEngine_open P wp cap n s = (case res of Inr _ \<Rightarrow> (Inr e, t)
        | Inl x \<Rightarrow> (Inl x, case m_wal e of None \<Rightarrow> t | Some w \<Rightarrow> snd (WAL_close w t)))"
      using o rc by (simp add: StorageEngine_open_def e0_def split: sum.splits)
    have st1: "stored_image ?sp s1 = ?snap" by (simp add: stored_image_of sf1)
    have "\<forall>f. file_of s1 ?sp = Some f \<longrightarrow> length f < 2 ^ 64" using ub sf1 by simp
    note r = StorageEngine_recover_kind [OF rc k1 a1(1) e0(1) a1(2-4) sc, unfolded e0, OF ap1 this, unfolded st1]
    have empty: "vs = [] \<and> en = Clean" if "?wal = None \<or> ?wal = Some []"
      using sc c1 that no_room_scan [of header_bytes] by simp
    have rs: "disk_records ?wal = map record_of vs"
      using empty sc c1 no_room_scan [of "[]"] by (cases ?wal) (auto simp: disk_records_def split: if_splits)
    have ds: "disk_store P cap ?wal (file_of s ?sp) =
        (if \<exists>x. en = BadAt x then None else Some (histories_of (recovered P cap ?snap (map record_of vs))))"
    proof (cases "?wal = None \<or> ?wal = Some []")
      case True
      with empty show ?thesis by (simp add: disk_store_def)
    next
      case False
      with c1 obtain c where c: "?wal = Some c" "c \<noteq> []" "fcontent s1 ?fd = c" by (cases ?wal) auto
      with a1(4) sc show ?thesis by (cases en) (auto simp: disk_store_def)
    qed
    show ?thesis
    proof (cases "\<exists>x. en = BadAt x")
      case True
      with r obtain x where "res = Inl (Throws (runtime_error x))" by auto
      with True ds opn show ?thesis by simp
    next
      case False
      with r have res: "res = Inr ()" by simp
      from r False obtain w' where w': "m_wal e = Some w'" "m_fd w' = ?fd" "m_epoch w' = next_epoch ?snap"
        "wal_holds w' t (map record_of vs)" by auto
      have "engine_inv P e t (map record_of vs)" if "epochs_ordered ?snap (map record_of vs)"
        unfolding engine_inv_def using r w' that ub sf1 recovered_wf by auto
      with False res ds opn r rs sf1 show ?thesis by auto
    qed
  qed
qed

end
