(* ===== verification/Engine_Writes.thy ===== *)
theory Engine_Writes
  imports Engine_Invariant
begin

text \<open>
  \<open>set\<close> and \<open>remove\<close> on a durable engine, in any environment: what they do to the live map and to the
  map on disk, when they return and when they throw.
\<close>

section \<open>The operations on a map of histories\<close>

definition spec_put :: "nat \<Rightarrow> bytes \<Rightarrow> Record \<Rightarrow> store \<Rightarrow> store" where
  "spec_put cap key r m =
    (let h = (case m key of None \<Rightarrow> [] | Some h \<Rightarrow> h)
     in m(key \<mapsto> (if cap \<noteq> 0 \<and> cap \<le> length h then tl h else h) @ [r]))"

definition spec_remove :: "bytes \<Rightarrow> store \<Rightarrow> store" where
  "spec_remove key m = m(key := None)"

lemma histories_put: "histories_of (put_data cap key r data) = spec_put cap key r (histories_of data)"
proof
  fix k
  show "histories_of (put_data cap key r data) k = spec_put cap key r (histories_of data) k"
    by (cases "k = key") (simp_all add: hs.put_same hs.put_other spec_put_def Let_def)
qed

lemma histories_erase: "histories_of (AList.delete key data) = spec_remove key (histories_of data)"
proof
  fix k
  show "histories_of (AList.delete key data) k = spec_remove key (histories_of data) k"
    by (cases "k = key") (simp_all add: hs.erase_same hs.erase_other spec_remove_def)
qed

definition same_config :: "StorageEngine \<Rightarrow> StorageEngine \<Rightarrow> bool" where
  "same_config e e' \<longleftrightarrow> m_walPath e' = m_walPath e \<and> m_snapshotPath e' = m_snapshotPath e \<and>
     m_maxHistoryPerKey e' = m_maxHistoryPerKey e"

lemma same_config_refl [simp]: "same_config e e"
  by (simp add: same_config_def)

lemma same_config_trans: "same_config a b \<Longrightarrow> same_config b c \<Longrightarrow> same_config a c"
  by (simp add: same_config_def)

section \<open>One append\<close>

lemma engine_inv_wal:
  assumes "engine_inv P e s rs" and "m_wal e = Some w"
  shows "wal_holds w s rs" and "m_epoch w = next_epoch (stored_image (m_snapshotPath e) s)"
    and "apart (m_walPath e) s (m_fd w) (m_snapshotPath e)" and "m_fd w \<noteq> -1" and "appending s (m_fd w)"
    and "holds_bytes (fcontent s (m_fd w)) rs"
  using assms by (auto simp: engine_inv_def wal_holds_def)

lemma engine_inv_epochs: "engine_inv P e s rs \<Longrightarrow> epochs_ordered (stored_image (m_snapshotPath e) s) rs"
  unfolding engine_inv_def by blast

lemma engine_inv_some: "engine_inv P e s rs \<Longrightarrow> \<exists>w. m_wal e = Some w"
  by (auto simp: engine_inv_def)

lemma apart_file_of: "apart wp s fd sp \<Longrightarrow> file_of s wp = Some (fcontent s fd)"
  by (auto simp: apart_def file_of_def fcontent_def)

text \<open>The live map is the map on disk.\<close>

lemma engine_inv_disk:
  assumes "engine_inv P e s rs"
  shows "disk_store P (m_maxHistoryPerKey e) (file_of s (m_walPath e)) (file_of s (m_snapshotPath e)) =
    Some (histories_of (m_data e))"
proof -
  obtain w where w: "m_wal e = Some w" using engine_inv_some [OF assms] by blast
  note i = engine_inv_wal [OF assms w]
  show ?thesis
    unfolding apart_file_of [OF i(3)] disk_store_holds [OF i(6)]
    using assms by (simp add: engine_inv_def stored_image_of)
qed

text \<open>A record of the current epoch is replayed on top of what is there.\<close>

lemma replay_new_record:
  assumes "epochs_ordered snap rs"
  shows "replay_one f (map_option si_epoch snap) st \<lparr>r_type = type, r_key = key, r_value = blob, r_ts = now, r_epoch = next_epoch snap\<rparr> =
    f st type key blob now"
  using assms by (cases snap) (simp_all add: replay_one_def epochs_ordered_def)

lemma recovered_new_record:
  assumes "epochs_ordered snap rs" and "histories_of data = histories_of (recovered P cap snap rs)"
    and "r = \<lparr>r_type = type, r_key = key, r_value = blob, r_ts = now, r_epoch = next_epoch snap\<rparr>"
  shows "histories_of (recovered P cap snap (rs @ [r])) = histories_of (recover_visitor P cap data type key blob now)"
proof -
  have "histories_of (recovered P cap snap (rs @ [r])) =
      histories_of (replay_one (recover_visitor P cap) (map_option si_epoch snap) data r)"
    unfolding recovered_snoc by (rule replay_one_congruent [OF assms(2) [symmetric]])
  then show ?thesis by (simp only: assms(3) replay_new_record [OF assms(1)])
qed

lemma engine_append:
  assumes inv: "engine_inv P e s rs" and w: "m_wal e = Some w"
    and ap: "WAL_append type key blob now w s = (res, w', t)"
    and st: "length key \<le> kMaxFieldSize" "length blob \<le> kMaxFieldSize" "type = PUT \<or> type = DELETE"
  defines "r \<equiv> new_record w type key blob now" and "sp \<equiv> m_snapshotPath e" and "cap \<equiv> m_maxHistoryPerKey e"
  defines "after \<equiv> histories_of (recover_visitor P cap (m_data e) type key blob now)"
  shows "file_of t sp = file_of s sp" and "kind s \<Longrightarrow> res = Inr () \<and> kind t"
    and "res = Inr () \<Longrightarrow> data_wf cap d \<Longrightarrow> histories_of d = after \<Longrightarrow>
      engine_inv P (e\<lparr>m_wal := Some w', m_data := d\<rparr>) t (rs @ [r])"
    and "length (fcontent s (m_fd w)) \<le> n \<Longrightarrow>
      disk_store P cap (Some (take n (fcontent t (m_fd w)))) (file_of s sp) \<in> {Some (histories_of (m_data e)), Some after}"
    and "file_of t (m_walPath e) = Some (fcontent t (m_fd w))"
    and "\<exists>x. res = Inr () \<or> res = Inl (runtime_error x)"
proof -
  note i = engine_inv_wal [OF inv w]
  have ep: "epochs_ordered (stored_image sp s) rs"
    and hist: "histories_of (m_data e) = histories_of (recovered P cap (stored_image sp s) rs)"
    and wf: "os_wf s" using inv unfolding engine_inv_def sp_def cap_def by blast+
  have r: "r = \<lparr>r_type = type, r_key = key, r_value = blob, r_ts = now, r_epoch = next_epoch (stored_image sp s)\<rparr>"
    by (simp add: r_def new_record_def i(2) sp_def)
  have stor: "storable (new_record w type key blob now)"
    using st by (auto simp: storable_new_record type_byte_def as_RecordType_def)
  note a = WAL_append_any [OF ap i(1) stor, folded r_def]
  then have of: "only_file (m_fd w) s t" and fd: "m_fd w' = m_fd w" by blast+
  note apt = apart_only_file [OF i(3) of]
  then show fsp: "file_of t sp = file_of s sp" by (simp add: sp_def)
  show "kind s \<Longrightarrow> res = Inr () \<and> kind t" using a by blast
  show "\<exists>x. res = Inr () \<or> res = Inl (runtime_error x)" using a by blast
  show "file_of t (m_walPath e) = Some (fcontent t (m_fd w))"
    using apart_file_of apt by blast
  have nr: "histories_of (recovered P cap (stored_image sp s) (rs @ [r])) = after"
    unfolding after_def by (rule recovered_new_record [OF ep hist r])
  have snap: "stored_image sp t = stored_image sp s" by (simp add: stored_image_of fsp)
  show "engine_inv P (e\<lparr>m_wal := Some w', m_data := d\<rparr>) t (rs @ [r])"
    if "res = Inr ()" "data_wf cap d" "histories_of d = after"
  proof -
    have "wal_holds w' t (rs @ [r])" using a that(1) by auto
    moreover have "epochs_ordered (stored_image sp s) (rs @ [r])" using ep by (simp add: epochs_ordered_def r)
    moreover have "m_epoch w' = next_epoch (stored_image sp s)" using a i(2) by (simp add: sp_def)
    ultimately show ?thesis
      using inv apt only_file_wf [OF of wf] that nr snap fsp fd
      by (simp add: engine_inv_def sp_def cap_def)
  qed
  show "disk_store P cap (Some (take n (fcontent t (m_fd w)))) (file_of s sp) \<in>
      {Some (histories_of (m_data e)), Some after}" if "length (fcontent s (m_fd w)) \<le> n"
  proof -
    note len = holds_bytes_len [OF i(6)]
    have "valid_header (take 16 (fcontent t (m_fd w)))"
    proof (cases "wal_holds w' t (rs @ [r])")
      case True
      then show ?thesis using fd by (simp add: wal_holds_def holds_bytes_def)
    next
      case False
      with a obtain k where "fcontent t (m_fd w) = fcontent s (m_fd w) @ take k (entry_bytes (m_headHash w) (m_seq w) r)"
        by blast
      then show ?thesis using i(6) len by (simp add: holds_bytes_def)
    qed
    then have vh: "valid_header (take 16 (take n (fcontent t (m_fd w))))" using that len by (simp add: min_def)
    have "16 + length (log_bytes zero_hash 0 rs) \<le> n" using that len by simp
    from append_crash_scan [OF ap i(1) stor this] obtain en where en: "en = Clean \<or> en = TornTail"
      and sc: "file_scan (take n (fcontent t (m_fd w))) = (verified_list zero_hash 0 rs, en) \<or>
        file_scan (take n (fcontent t (m_fd w))) = (verified_list zero_hash 0 (rs @ [r]), en)"
      unfolding r_def by blast
    have "\<forall>x. en \<noteq> BadAt x" using en by auto
    note ds = disk_store_scan [OF vh _ this, of _ P cap "file_of s sp", folded stored_image_of]
    from sc show ?thesis
    proof
      assume "file_scan (take n (fcontent t (m_fd w))) = (verified_list zero_hash 0 rs, en)"
      from ds [OF this] hist show ?thesis by simp
    next
      assume "file_scan (take n (fcontent t (m_fd w))) = (verified_list zero_hash 0 (rs @ [r]), en)"
      from ds [OF this] nr show ?thesis by simp
    qed
  qed
qed

section \<open>set and remove\<close>

text \<open>
  What a write that is to take the map from \<open>before\<close> to \<open>after\<close> does. When it returns, the engine is in
  order and the live map is \<open>after\<close>; when it throws, the live map is as before. In both cases, cutting
  the log anywhere behind its old end leaves one of the two maps on disk.
\<close>

definition write_outcome :: "platform \<Rightarrow> StorageEngine \<Rightarrow> os \<Rightarrow> log_record list \<Rightarrow> store \<Rightarrow> failure option \<Rightarrow>
    StorageEngine \<Rightarrow> os \<Rightarrow> bool" where
  "write_outcome P e s rs after failed e' t \<longleftrightarrow>
    same_config e e' \<and> file_of t (m_snapshotPath e) = file_of s (m_snapshotPath e) \<and>
    (kind s \<longrightarrow> failed = None \<and> kind t) \<and>
    (case failed of
       None \<Rightarrow> (\<exists>r. engine_inv P e' t (rs @ [r])) \<and> histories_of (m_data e') = after
     | Some x \<Rightarrow> m_data e' = m_data e \<and> (\<exists>m. x = Throws (runtime_error m))) \<and>
    (\<forall>n \<ge> length (the (file_of s (m_walPath e))).
       disk_store P (m_maxHistoryPerKey e) (map_option (take n) (file_of t (m_walPath e))) (file_of t (m_snapshotPath e))
         \<in> {Some (histories_of (m_data e)), Some after})"

lemma write_outcome:
  assumes inv: "engine_inv P e s rs" and w: "m_wal e = Some w"
    and ap: "WAL_append type key blob now w s = (res, w', t)"
    and st: "length key \<le> kMaxFieldSize" "length blob \<le> kMaxFieldSize" "type = PUT \<or> type = DELETE"
    and after: "after = histories_of (recover_visitor P (m_maxHistoryPerKey e) (m_data e) type key blob now)"
    and d: "data_wf (m_maxHistoryPerKey e) d" "histories_of d = after"
  shows "write_outcome P e s rs after (case res of Inl x \<Rightarrow> Some (Throws x) | Inr _ \<Rightarrow> None)
    (case res of Inl x \<Rightarrow> e\<lparr>m_wal := Some w'\<rparr> | Inr _ \<Rightarrow> e\<lparr>m_wal := Some w', m_data := d\<rparr>) t"
proof -
  note a = engine_append [OF inv w ap st, folded after]
  have "file_of s (m_walPath e) = Some (fcontent s (m_fd w))" using apart_file_of engine_inv_wal(3) [OF inv w] by blast
  then have cut: "\<forall>n \<ge> length (the (file_of s (m_walPath e))).
       disk_store P (m_maxHistoryPerKey e) (map_option (take n) (file_of t (m_walPath e))) (file_of t (m_snapshotPath e))
         \<in> {Some (histories_of (m_data e)), Some after}"
    using a(1,4,5) by simp
  show ?thesis
  proof (cases res)
    case (Inl x)
    moreover from Inl a(6) obtain m where "x = runtime_error m" by auto
    moreover have "\<not> kind s" using a(2) Inl by blast
    ultimately show ?thesis using a(1) cut by (simp add: write_outcome_def same_config_def)
  next
    case (Inr u)
    then have "engine_inv P (e\<lparr>m_wal := Some w', m_data := d\<rparr>) t (rs @ [new_record w type key blob now])"
      using a(3) d by simp
    then show ?thesis using Inr a(1,2) cut d(2)
      by (auto simp: write_outcome_def same_config_def)
  qed
qed

lemma engine_inv_data: "engine_inv P e s rs \<Longrightarrow> data_wf (m_maxHistoryPerKey e) (m_data e)"
  by (simp add: engine_inv_def)

text \<open>Both methods are one append, followed by the change of the live map when it has succeeded.\<close>

lemma set_steps:
  assumes "StorageEngine_set P key val duration now e s = (res, e', t)" and "m_wal e = Some w"
    and "length key \<le> kMaxFieldSize" and "length val \<le> engine_kMaxFieldSize"
  obtains r w' where "WAL_append PUT key (serialize P duration val) now w s = (r, w', t)"
    and "res = (case r of Inl x \<Rightarrow> Inl (Throws x) | Inr _ \<Rightarrow> Inr ())"
    and "e' = (case r of Inl x \<Rightarrow> e\<lparr>m_wal := Some w'\<rparr> | Inr _ \<Rightarrow> e\<lparr>m_wal := Some w',
      m_data := put_data (m_maxHistoryPerKey e) key \<lparr>rec_value = val, rec_duration = duration, rec_timestamp = now\<rparr> (m_data e)\<rparr>)"
    and "length (serialize P duration val) \<le> kMaxFieldSize"
proof -
  obtain r w' u where ap: "WAL_append PUT key (serialize P duration val) now w s = (r, w', u)" by (metis prod_cases3)
  have "length (serialize P duration val) \<le> kMaxFieldSize"
    using assms(4) by (simp add: engine_kMaxFieldSize_def kMaxFieldSize_def)
  with assms ap that show ?thesis
    by (auto simp: StorageEngine_set_def Let_def appendCapped_put split: sum.splits)
qed

lemma remove_steps:
  assumes "StorageEngine_remove key now e s = (res, e', t)" and "m_wal e = Some w"
  obtains r w' where "WAL_append DELETE key [] now w s = (r, w', t)"
    and "res = (case r of Inl x \<Rightarrow> Inl (Throws x) | Inr _ \<Rightarrow> Inr (histories_of (m_data e) key \<noteq> None))"
    and "e' = (case r of Inl x \<Rightarrow> e\<lparr>m_wal := Some w'\<rparr> | Inr _ \<Rightarrow> e\<lparr>m_wal := Some w', m_data := AList.delete key (m_data e)\<rparr>)"
proof -
  obtain r w' u where ap: "WAL_append DELETE key [] now w s = (r, w', u)" by (metis prod_cases3)
  with assms that show ?thesis
    by (auto simp: StorageEngine_remove_def Let_def histories_of_def split: sum.splits)
qed

lemma failed_eq:
  "(case r of Inl x \<Rightarrow> Some (Throws x) | Inr _ \<Rightarrow> None) =
    (case (case r of Inl x \<Rightarrow> Inl (Throws x) | Inr _ \<Rightarrow> Inr b) of Inl x \<Rightarrow> Some x | Inr _ \<Rightarrow> None)"
  by (cases r) simp_all

lemma StorageEngine_set_any:
  assumes st: "StorageEngine_set P key val duration now e s = (res, e', t)" and inv: "engine_inv P e s rs"
  shows "if length key > kMaxFieldSize \<or> length val > engine_kMaxFieldSize
    then (\<exists>m. res = Inl (Throws (length_error m))) \<and> e' = e \<and> t = s
    else write_outcome P e s rs
      (spec_put (m_maxHistoryPerKey e) key \<lparr>rec_value = val, rec_duration = duration, rec_timestamp = now\<rparr> (histories_of (m_data e)))
      (case res of Inl x \<Rightarrow> Some x | Inr _ \<Rightarrow> None) e' t"
proof (cases "length key > kMaxFieldSize \<or> length val > engine_kMaxFieldSize")
  case True
  with st show ?thesis by (auto simp: StorageEngine_set_def split: if_splits)
next
  case False
  then have small: "length key \<le> kMaxFieldSize" "length val \<le> engine_kMaxFieldSize" by simp_all
  obtain w where w: "m_wal e = Some w" using engine_inv_some [OF inv] by blast
  from st w small show ?thesis
  proof (rule set_steps)
    fix r w'
    assume ap: "WAL_append PUT key (serialize P duration val) now w s = (r, w', t)"
      and res: "res = (case r of Inl x \<Rightarrow> Inl (Throws x) | Inr _ \<Rightarrow> Inr ())"
      and e': "e' = (case r of Inl x \<Rightarrow> e\<lparr>m_wal := Some w'\<rparr> | Inr _ \<Rightarrow> e\<lparr>m_wal := Some w', m_data :=
        put_data (m_maxHistoryPerKey e) key \<lparr>rec_value = val, rec_duration = duration, rec_timestamp = now\<rparr> (m_data e)\<rparr>)"
      and len: "length (serialize P duration val) \<le> kMaxFieldSize"
    have "write_outcome P e s rs
        (spec_put (m_maxHistoryPerKey e) key \<lparr>rec_value = val, rec_duration = duration, rec_timestamp = now\<rparr> (histories_of (m_data e)))
        (case r of Inl x \<Rightarrow> Some (Throws x) | Inr _ \<Rightarrow> None) e' t"
      unfolding e'
      by (rule write_outcome [OF inv w ap small(1) len])
        (simp_all add: recover_visitor_cases histories_put data_wf_put engine_inv_data [OF inv])
    with False show ?thesis by (simp only: res failed_eq [of r "()"] if_False)
  qed
qed

lemma StorageEngine_remove_any:
  assumes rm: "StorageEngine_remove key now e s = (res, e', t)" and inv: "engine_inv P e s rs"
  shows "if length key > kMaxFieldSize
    then (\<exists>m. res = Inl (Throws (length_error m))) \<and> e' = e \<and> t = s
    else write_outcome P e s rs (spec_remove key (histories_of (m_data e)))
      (case res of Inl x \<Rightarrow> Some x | Inr _ \<Rightarrow> None) e' t \<and>
      (\<forall>found. res = Inr found \<longrightarrow> found = (histories_of (m_data e) key \<noteq> None))"
proof -
  obtain w where w: "m_wal e = Some w" using engine_inv_some [OF inv] by blast
  from rm w show ?thesis
  proof (rule remove_steps)
    fix r w'
    assume ap: "WAL_append DELETE key [] now w s = (r, w', t)"
      and res: "res = (case r of Inl x \<Rightarrow> Inl (Throws x) | Inr _ \<Rightarrow> Inr (histories_of (m_data e) key \<noteq> None))"
      and e': "e' = (case r of Inl x \<Rightarrow> e\<lparr>m_wal := Some w'\<rparr> | Inr _ \<Rightarrow> e\<lparr>m_wal := Some w', m_data := AList.delete key (m_data e)\<rparr>)"
    show ?thesis
    proof (cases "length key > kMaxFieldSize")
      case True
      with ap have "\<exists>m. r = Inl (length_error m)" "w' = w" "t = s" by (auto simp: WAL_append_def)
      with res e' True w show ?thesis by auto
    next
      case False
      then have len: "length key \<le> kMaxFieldSize" "length ([] :: bytes) \<le> kMaxFieldSize" by simp_all
      have "write_outcome P e s rs (spec_remove key (histories_of (m_data e)))
          (case r of Inl x \<Rightarrow> Some (Throws x) | Inr _ \<Rightarrow> None) e' t"
        unfolding e'
        by (rule write_outcome [OF inv w ap len])
          (simp_all add: recover_visitor_cases histories_erase data_wf_delete engine_inv_data [OF inv])
      moreover have "\<forall>found. res = Inr found \<longrightarrow> found = (histories_of (m_data e) key \<noteq> None)"
        using res by (auto split: sum.splits)
      ultimately show ?thesis
        using False by (simp only: res failed_eq [of r "histories_of (m_data e) key \<noteq> None"] if_False simp_thms)
    qed
  qed
qed

end
