(* ===== verification/Engine_Snapshot.thy ===== *)
theory Engine_Snapshot
  imports Engine_Writes
begin

text \<open>
  \<open>snapshot\<close>, in any environment. The live map never changes; on disk, the new snapshot takes over from
  the log before the log is emptied, so between any two steps the two files together stand for the
  same map.
\<close>

section \<open>Saving leaves the log alone\<close>

lemma Snapshot_save_frame:
  assumes sv: "Snapshot_save sp img s = (ok, t)" and wf: "os_wf s" and ap: "apart wp s fd sp"
  shows "apart wp t fd sp \<and> fcontent t fd = fcontent s fd \<and> fstable t fd = fstable s fd \<and> appending t fd = appending s fd \<and>
    file_of t wp = file_of s wp"
proof -
  obtain f where f: "fds s fd = Some f" "names s wp = Some (f_ino f)" "f_ino f < next_ino s" "names s sp \<noteq> Some (f_ino f)"
      "names s (sp @ ''.tmp'') \<noteq> Some (f_ino f)" and n: "wp \<noteq> sp" "wp \<noteq> sp @ ''.tmp''" "separate_names sp s"
    using ap by (auto simp: apart_def)
  note a = Snapshot_save_any [OF sv wf]
  then have o: "others_same sp s t" and wft: "os_wf t" by blast+
  have ft: "fds t fd = Some f" and it: "inodes t (f_ino f) = inodes s (f_ino f)" and nt: "names t wp = Some (f_ino f)"
    using o f n by (simp_all add: others_same_def)
  have tmp: "names t (sp @ ''.tmp'') = None \<or> names t (sp @ ''.tmp'') = names s (sp @ ''.tmp'') \<or>
      names s (sp @ ''.tmp'') = None \<and> names t (sp @ ''.tmp'') = Some (next_ino s)"
    using o by (simp add: others_same_def)
  have spt: "names t sp \<noteq> Some (f_ino f) \<and> separate_names sp t"
  proof (cases "names t sp = names s sp")
    case True
    then show ?thesis using tmp f n(3) os_wf_name [OF wf, of sp] by (auto simp: separate_names_def)
  next
    case False
    with a have "replaced sp img s t" by blast
    then obtain i where i: "names s (sp @ ''.tmp'') = Some i \<or> names s (sp @ ''.tmp'') = None \<and> i = next_ino s"
        "names t sp = Some i" "names t (sp @ ''.tmp'') = None"
      by (auto simp: replaced_def)
    with f show ?thesis by (auto simp: separate_names_def)
  qed
  have "names t (sp @ ''.tmp'') \<noteq> Some (f_ino f)" using tmp f by auto
  moreover have "f_ino f < next_ino t" using os_wf_fd [OF wft ft] by simp
  ultimately have "apart wp t fd sp" using ft nt spt n by (simp add: apart_def)
  with fcontent_frame [OF f(1) ft it] it f(2) nt show ?thesis by (simp add: file_of_def)
qed

section \<open>The map behind a new snapshot\<close>

definition engine_image :: "platform \<Rightarrow> StorageEngine \<Rightarrow> WAL \<Rightarrow> SnapshotImage" where
  "engine_image P e w = \<lparr>si_epoch = m_epoch w, si_state = iter P (exportSnapshotState (m_data e))\<rparr>"

text \<open>Of a log file whose header was cut off while it was written, nothing can be read.\<close>

definition torn_header :: "bytes \<Rightarrow> bool" where
  "torn_header c \<longleftrightarrow> 0 < length c \<and> length c < 16"

lemma recovered_skipped:
  assumes "\<forall>r \<in> set rs. r_epoch r \<le> si_epoch img"
  shows "recovered P cap (Some img) rs = restore_image P cap (si_state img)"
  using replay_skipped [OF assms] by (simp add: recovered_def base_data_def)

lemma disk_store_snapshotted:
  assumes img: "image_of snap = Some img" and m: "histories_of (restore_image P cap (si_state img)) = m"
    and hb: "holds_bytes c rs" and ep: "\<forall>r \<in> set rs. r_epoch r \<le> si_epoch img" and wal: "wal = take n c \<or> wal = take n header_bytes"
  shows "disk_store P cap (Some wal) snap = (if torn_header wal then None else Some m)"
proof -
  from wal obtain c rs where w: "wal = take n c" "holds_bytes c rs" "\<forall>r \<in> set rs. r_epoch r \<le> si_epoch img"
    using hb ep holds_bytes_header by (metis empty_iff list.set(1))
  note len = holds_bytes_len [OF w(2)]
  consider (none) "wal = []" | (torn) "torn_header wal" | (cut) "16 \<le> n" "16 \<le> length wal"
    using w(1) len by (fastforce simp: torn_header_def)
  then show ?thesis
  proof cases
    case none
    then show ?thesis using recovered_skipped [of "[]" img P cap] img m by (simp add: disk_store_def torn_header_def)
  next
    case torn
    then show ?thesis by (auto simp: disk_store_def torn_header_def valid_header_def)
  next
    case cut
    have st: "list_all storable rs" and d: "drop 16 c = log_bytes zero_hash 0 rs" and h: "valid_header (take 16 c)"
      using w(2) by (simp_all add: holds_bytes_def)
    have "drop 16 wal = take (n - 16) (log_bytes zero_hash 0 rs)"
      unfolding d [symmetric] w(1) by (rule drop_take)
    then have "\<exists>en \<in> {Clean, TornTail}. file_scan wal = (verified_list zero_hash 0 (take (complete_count (n - 16) rs) rs), en)"
      unfolding file_scan_def by (simp add: scan_log_cut [OF st])
    then obtain k en where sc: "file_scan wal = (verified_list zero_hash 0 (take k rs), en)" "en = Clean \<or> en = TornTail"
      by blast
    have "valid_header (take 16 wal)" using h cut w(1) by (simp add: min_def)
    then have "disk_store P cap (Some wal) snap = Some (histories_of (recovered P cap (image_of snap) (take k rs)))"
      using disk_store_scan [OF _ sc(1)] sc(2) by auto
    moreover have "\<forall>r \<in> set (take k rs). r_epoch r \<le> si_epoch img" using w(3) by (auto dest: in_set_takeD)
    ultimately show ?thesis using recovered_skipped img m cut(2) by (simp add: torn_header_def)
  qed
qed

lemma engine_image_restores:
  assumes "engine_inv P e s rs" and "m_wal e = Some w" and "good_platform P"
  shows "histories_of (restore_image P (m_maxHistoryPerKey e) (si_state (engine_image P e w))) = histories_of (m_data e)"
    and "\<forall>r \<in> set rs. r_epoch r \<le> si_epoch (engine_image P e w)"
proof -
  show "histories_of (restore_image P (m_maxHistoryPerKey e) (si_state (engine_image P e w))) = histories_of (m_data e)"
    using restore_export [OF assms(3,3) engine_inv_data [OF assms(1)]] by (simp add: engine_image_def)
  show "\<forall>r \<in> set rs. r_epoch r \<le> si_epoch (engine_image P e w)"
    using engine_inv_epochs [OF assms(1)] engine_inv_wal(2) [OF assms(1,2)]
    by (simp add: epochs_ordered_def engine_image_def)
qed

section \<open>snapshot\<close>

lemma snapshot_steps:
  assumes "StorageEngine_snapshot P e s = (res, e', t)" and "m_wal e = Some w"
  obtains (unsaved) "Snapshot_save (m_snapshotPath e) (engine_image P e w) s = (False, t)" "e' = e"
      "res = Inl (Throws (runtime_error (''Failed to write snapshot to disk: '' @ m_snapshotPath e)))"
    | (saved) s1 ok w' where "Snapshot_save (m_snapshotPath e) (engine_image P e w) s = (True, s1)"
      "WAL_reset (WAL_setEpoch (m_epoch w + 1) w) s1 = (ok, w', t)"
      "e' = e\<lparr>m_snapshotEpoch := Some (m_epoch w), m_wal := Some w'\<rparr>"
      "res = (if ok then Inr () else Inl (Throws (runtime_error (''WAL rotation failed after snapshot: '' @ m_walPath e))))"
proof -
  obtain ok1 s1 where sv: "Snapshot_save (m_snapshotPath e) (engine_image P e w) s = (ok1, s1)" by fastforce
  obtain ok2 w' u where rs: "WAL_reset (WAL_setEpoch (m_epoch w + 1) w) s1 = (ok2, w', u)" by (metis prod_cases3)
  have eq: "(res, e', t) = (if \<not> ok1
      then (Inl (Throws (runtime_error (''Failed to write snapshot to disk: '' @ m_snapshotPath e))), e, s1)
      else (if ok2 then Inr () else Inl (Throws (runtime_error (''WAL rotation failed after snapshot: '' @ m_walPath e))),
        e\<lparr>m_snapshotEpoch := Some (m_epoch w), m_wal := Some w'\<rparr>, u))"
    using assms(2) sv rs
    unfolding assms(1) [symmetric] StorageEngine_snapshot_def engine_image_def by (simp add: Let_def)
  show ?thesis
  proof (cases ok1)
    case True
    with eq have "e' = e\<lparr>m_snapshotEpoch := Some (m_epoch w), m_wal := Some w'\<rparr>" "t = u"
        "res = (if ok2 then Inr () else Inl (Throws (runtime_error (''WAL rotation failed after snapshot: '' @ m_walPath e))))"
      by simp_all
    with True sv rs show ?thesis by (intro saved [of s1 ok2 w']) simp_all
  next
    case False
    with eq have "res = Inl (Throws (runtime_error (''Failed to write snapshot to disk: '' @ m_snapshotPath e)))" "e' = e" "t = s1"
      by simp_all
    with False sv unsaved show ?thesis by simp
  qed
qed

text \<open>The engine after a step that has replaced the snapshot by one of its own map.\<close>

lemma engine_inv_snapshotted:
  assumes inv: "engine_inv P e s rs" and w: "m_wal e = Some w" and gp: "good_platform P"
    and fits: "image_fits (engine_image P e w)" and room: "m_epoch w < m_epoch w + 1"
    and f: "file_of t (m_snapshotPath e) = Some (snapshot_file (engine_image P e w))" and wf: "os_wf t"
    and ap: "apart (m_walPath e) t (m_fd w) (m_snapshotPath e)"
    and w': "wal_holds w' t rs'" "m_fd w' = m_fd w" "m_epoch w' = m_epoch w + 1" and rs': "set rs' \<subseteq> set rs"
  shows "engine_inv P (e\<lparr>m_snapshotEpoch := Some (m_epoch w), m_wal := Some w'\<rparr>) t rs'"
proof -
  let ?img = "engine_image P e w" and ?sp = "m_snapshotPath e"
  have st: "stored_image ?sp t = Some ?img" using stored_image_saved [OF fits f] .
  note er = engine_image_restores [OF inv w gp]
  then have old: "\<forall>r \<in> set rs'. r_epoch r \<le> si_epoch ?img" using rs' by blast
  have ep: "si_epoch ?img = m_epoch w" by (simp add: engine_image_def)
  have "epochs_ordered (Some ?img) rs'"
    using old room by (auto simp: epochs_ordered_def next_epoch_def ep intro: order_trans less_imp_le)
  moreover have "histories_of (m_data e) = histories_of (recovered P (m_maxHistoryPerKey e) (Some ?img) rs')"
    using er(1) by (simp add: recovered_skipped [OF old])
  moreover have "length (snapshot_file ?img) < 2 ^ 64" using fits by (simp only: image_fits_def)
  ultimately show ?thesis
    using inv ap wf w' f st ep unfolding engine_inv_def
    by (simp add: next_epoch_def)
qed

lemma StorageEngine_snapshot_any:
  assumes sn: "StorageEngine_snapshot P e s = (res, e', t)" and inv: "engine_inv P e s rs" and w: "m_wal e = Some w"
    and gp: "good_platform P" and fits: "image_fits (engine_image P e w)" and room: "m_epoch w < m_epoch w + 1"
  defines "sp \<equiv> m_snapshotPath e" and "wp \<equiv> m_walPath e" and "new \<equiv> Some (snapshot_file (engine_image P e w))"
  shows "same_config e e' \<and> m_data e' = m_data e \<and> (kind s \<longrightarrow> res = Inr () \<and> kind t) \<and>
    (if res = Inr () then engine_inv P e' t [] \<and> file_of t sp = new \<and> file_of t wp = Some header_bytes
     else (\<exists>m. res = Inl (Throws (runtime_error m))) \<and>
       (engine_inv P e' t rs \<and> file_of t wp = file_of s wp \<and> file_of t sp \<in> {file_of s sp, new} \<or>
        e' = e \<and> file_of t wp = file_of s wp \<and> file_of t sp = new \<or>
        (\<exists>k \<le> 16. file_of t wp = Some (take k header_bytes)) \<and> file_of t sp = new))"
  using sn w
proof (cases rule: snapshot_steps)
  note i = engine_inv_wal [OF inv w]
  have wf: "os_wf s" using inv unfolding engine_inv_def by blast
  have sep: "names s sp = None \<or> names s sp \<noteq> names s (sp @ ''.tmp'')"
    using i(3) by (simp add: apart_def separate_names_def sp_def)
  {
    case unsaved
    note a = Snapshot_save_any [OF unsaved(1) wf] and b = Snapshot_save_file [OF unsaved(1) wf sep [unfolded sp_def]]
    note fr = Snapshot_save_frame [OF unsaved(1) wf i(3)]
    have nk: "\<not> kind s" using a by blast
    from b consider "file_of t sp = file_of s sp" | "file_of t sp = new" unfolding sp_def new_def by blast
    then show ?thesis
    proof cases
      case 1
      then have "stored_image sp t = stored_image sp s" by (rule stored_image_file)
      moreover have "wal_holds w t rs" using i(1) fr by (simp add: wal_holds_def)
      ultimately have "engine_inv P e t rs" using inv w fr a 1 unfolding engine_inv_def sp_def by auto
      with unsaved nk fr 1 show ?thesis by (simp add: wp_def)
    next
      case 2
      with unsaved nk fr show ?thesis by (simp add: wp_def)
    qed
  next
    case (saved s1 ok w')
    define w1 where "w1 = WAL_setEpoch (m_epoch w + 1) w"
    note a = Snapshot_save_any [OF saved(1) wf] and b = Snapshot_save_file [OF saved(1) wf sep [unfolded sp_def]]
    note fr = Snapshot_save_frame [OF saved(1) wf i(3)]
    have fd: "m_fd w1 = m_fd w" "m_epoch w1 = m_epoch w + 1" by (simp_all add: w1_def WAL_setEpoch_def)
    have "appending s1 (m_fd w1)" "m_fd w1 \<noteq> -1" unfolding fd using fr i(4,5) by simp_all
    note r = WAL_reset_any [OF saved(2) [folded w1_def] this, unfolded fd]
    then have of: "only_file (m_fd w) s1 t" by blast
    have ap1: "apart wp s1 (m_fd w) sp" using fr by (simp add: sp_def wp_def)
    note apt = apart_only_file [OF ap1 of]
    have f: "file_of t sp = new" using b apt unfolding sp_def new_def by auto
    have wft: "os_wf t" using only_file_wf [OF of] a by blast
    have wpt: "file_of t wp = Some (fcontent t (m_fd w))" using apart_file_of apt by blast
    have wps: "file_of s wp = Some (fcontent s (m_fd w))" using apart_file_of i(3) unfolding wp_def by blast
    have wh: "wal_holds w1 s1 rs" using i(1) fr by (simp add: wal_holds_def w1_def WAL_setEpoch_def)
    note es = engine_inv_snapshotted [OF inv w gp fits room f [unfolded sp_def new_def] wft apt [THEN conjunct1, unfolded sp_def wp_def]]
    have k: "kind s \<longrightarrow> ok \<and> kind t" using a r by blast
    show ?thesis
    proof (cases ok)
      case True
      with saved(2) [folded w1_def] have "WAL_reset w1 s1 = (True, w', t)" by simp
      from WAL_reset_empties [OF this wh] have "wal_holds w' t []" by simp
      moreover have "m_fd w' = m_fd w" "m_epoch w' = m_epoch w + 1" using r True by (simp_all add: fd)
      ultimately have "engine_inv P e' t []" unfolding saved(3) by (rule es) simp
      moreover have "fcontent t (m_fd w) = header_bytes" using r True by simp
      ultimately show ?thesis using saved True f wpt k by (simp add: same_config_def)
    next
      case False
      with r have w': "w' = w1" and c: "fcontent t (m_fd w) = fcontent s (m_fd w) \<or>
          (\<exists>k\<le>16. fcontent t (m_fd w) = take k header_bytes)" using fr by auto
      have "engine_inv P e' t rs" if "fcontent t (m_fd w) = fcontent s (m_fd w)"
      proof -
        have "appending t (m_fd w)" using i(5) fr only_file_appending [OF of] by simp
        with i(1) that have "wal_holds w' t rs" by (simp add: w' wal_holds_def w1_def WAL_setEpoch_def)
        then show ?thesis unfolding saved(3) by (rule es) (simp_all add: w' fd)
      qed
      with c show ?thesis using saved False f wpt wps k by (auto simp: same_config_def)
    qed
  }
qed

end
