(* ===== verification/Engine_Crash.thy ===== *)
theory Engine_Crash
  imports Engine_Snapshot
begin

text \<open>
  Power failures. \<open>crash_leaves s p\<close> says which contents a failure in the state \<open>s\<close> may leave under a
  name; the operations' effects on both the cached and the stable state bound what is then on disk.
\<close>

section \<open>What a crash leaves\<close>

text \<open>
  Of a file, its stable contents, or its cached contents up to some length. When it has only grown since
  it was last synced, at least the stable part is there.
\<close>

definition survives :: "inode \<Rightarrow> bytes \<Rightarrow> bool" where
  "survives d c \<longleftrightarrow> c = stable d \<or>
     (\<exists>n. c = take n (cached d) \<and> (stable d = take (length (stable d)) (cached d) \<longrightarrow> length (stable d) \<le> n))"

text \<open>Of a name, the file it referred to when its directory was last synced, or the one it refers to now.\<close>

definition crash_leaves :: "os \<Rightarrow> path \<Rightarrow> bytes option \<Rightarrow> bool" where
  "crash_leaves s p file \<longleftrightarrow> (\<exists>i \<in> {names s p, stable_names s p}.
     case i of None \<Rightarrow> file = None | Some j \<Rightarrow> (\<exists>c. file = Some c \<and> survives (inodes s j) c))"

text \<open>Name and contents are on stable storage.\<close>

definition settled :: "os \<Rightarrow> path \<Rightarrow> bool" where
  "settled s p \<longleftrightarrow> stable_names s p = names s p \<and>
     (\<forall>i. names s p = Some i \<longrightarrow> stable (inodes s i) = cached (inodes s i))"

lemma survives_settled: "stable d = cached d \<Longrightarrow> survives d c \<Longrightarrow> c = cached d"
  by (auto simp: survives_def)

lemma crash_leaves_settled: "settled s p \<Longrightarrow> crash_leaves s p file \<Longrightarrow> file = file_of s p"
  by (auto simp: settled_def crash_leaves_def file_of_def dest: survives_settled split: option.splits)

text \<open>A log that has grown since it was synced survives up to a point behind what was synced.\<close>

lemma survives_grown:
  assumes "survives d c" and "cached d = old @ new" and "st = take (length st) old" and "stable d = st \<or> stable d = old @ new"
  shows "\<exists>n. c = take n (old @ new) \<and> length st \<le> n"
proof -
  have pre: "st = take (length st) (old @ new)" and le: "length st \<le> length old"
    using assms(3) by (metis append_take_drop_id append.assoc append_eq_conv_conj, metis length_take min.cobounded1)
  from assms(1) consider "c = stable d" | n where "c = take n (cached d)"
      "stable d = take (length (stable d)) (cached d) \<longrightarrow> length (stable d) \<le> n"
    by (auto simp: survives_def)
  then show ?thesis
  proof cases
    case 1
    show ?thesis
      using assms(4)
    proof
      assume "stable d = st"
      with 1 have "c = st" by simp
      with pre have "c = take (length st) (old @ new)" by simp
      then show ?thesis by blast
    next
      assume "stable d = old @ new"
      with 1 le show ?thesis by (intro exI [of _ "length (old @ new)"]) simp
    qed
  next
    case 2
    with assms(2,4) pre le show ?thesis
      by (elim disjE) (auto intro: exI [of _ n])
  qed
qed

section \<open>A log cut short\<close>

definition durable_inv :: "platform \<Rightarrow> StorageEngine \<Rightarrow> os \<Rightarrow> log_record list \<Rightarrow> bool" where
  "durable_inv P e s rs \<longleftrightarrow> engine_inv P e s rs \<and> wal_synced (the (m_wal e)) s rs \<and>
     stable_names s (m_walPath e) = names s (m_walPath e) \<and> settled s (m_snapshotPath e)"

text \<open>The number of records that the caller has been told of and that may still be lost.\<close>

definition at_risk :: "StorageEngine \<Rightarrow> nat" where
  "at_risk e = m_pendingWrites (the (m_wal e))"

lemma disk_store_cut:
  assumes hb: "holds_bytes c rs" and n: "16 + length (log_bytes zero_hash 0 (take k rs)) \<le> n" and k: "k \<le> length rs"
  shows "\<exists>j. k \<le> j \<and> j \<le> length rs \<and>
    disk_store P cap (Some (take n c)) snap = Some (histories_of (recovered P cap (image_of snap) (take j rs)))"
proof -
  have st: "list_all storable rs" and d: "drop 16 c = log_bytes zero_hash 0 rs" and h: "valid_header (take 16 c)"
    using hb by (simp_all add: holds_bytes_def)
  let ?j = "complete_count (n - 16) rs"
  have "drop 16 (take n c) = take (n - 16) (log_bytes zero_hash 0 rs)" unfolding d [symmetric] by (rule drop_take)
  then have "\<exists>en \<in> {Clean, TornTail}. file_scan (take n c) = (verified_list zero_hash 0 (take ?j rs), en)"
    unfolding file_scan_def by (simp add: scan_log_cut [OF st])
  then obtain en where sc: "file_scan (take n c) = (verified_list zero_hash 0 (take ?j rs), en)" "\<forall>x. en \<noteq> BadAt x" by auto
  have "valid_header (take 16 (take n c))" using h n by (simp add: min_def)
  note disk_store_scan [OF this sc, of P cap snap]
  moreover have "k \<le> ?j" using n k by (intro complete_count_ge [of _ _ zero_hash 0]) auto
  ultimately show ?thesis using complete_count_le [of "n - 16" rs] by auto
qed

lemma wal_inode:
  assumes "apart wp s fd sp"
  obtains i where "names s wp = Some i" "fcontent s fd = cached (inodes s i)" "fstable s fd = stable (inodes s i)"
  using assms by (auto simp: apart_def fcontent_def fstable_def)

lemma synced_bound:
  assumes "wal_synced w s rs"
  shows "16 + length (log_bytes zero_hash 0 (take (length rs - m_pendingWrites w) rs)) \<le> length (fstable s (m_fd w))"
    and "fstable s (m_fd w) = take (length (fstable s (m_fd w))) (fcontent s (m_fd w))"
  using assms by (simp_all add: wal_synced_def)

lemma durable_crash:
  assumes inv: "durable_inv P e s rs" and wal: "crash_leaves s (m_walPath e) wal" and snap: "crash_leaves s (m_snapshotPath e) snap"
  shows "\<exists>j. length rs - at_risk e \<le> j \<and> j \<le> length rs \<and> disk_store P (m_maxHistoryPerKey e) wal snap =
    Some (histories_of (recovered P (m_maxHistoryPerKey e) (stored_image (m_snapshotPath e) s) (take j rs)))"
proof -
  have ei: "engine_inv P e s rs" using inv by (simp add: durable_inv_def)
  obtain w where w: "m_wal e = Some w" using engine_inv_some [OF ei] by blast
  note i = engine_inv_wal [OF ei w]
  have sy: "wal_synced w s rs" and sn: "stable_names s (m_walPath e) = names s (m_walPath e)"
    and se: "settled s (m_snapshotPath e)" using inv w by (simp_all add: durable_inv_def)
  obtain ino where ino: "names s (m_walPath e) = Some ino" "fcontent s (m_fd w) = cached (inodes s ino)"
      "fstable s (m_fd w) = stable (inodes s ino)" using wal_inode [OF i(3)] .
  obtain c where c: "wal = Some c" "survives (inodes s ino) c"
    using wal sn ino(1) by (auto simp: crash_leaves_def)
  note sb = synced_bound [OF sy]
  obtain n where n: "c = take n (fcontent s (m_fd w))" "length (fstable s (m_fd w)) \<le> n"
    using survives_grown [OF c(2), of "fcontent s (m_fd w)" "[]" "fstable s (m_fd w)"] sb(2) ino by auto
  have "image_of snap = stored_image (m_snapshotPath e) s"
    using crash_leaves_settled [OF se snap] by (simp add: stored_image_of)
  moreover have "16 + length (log_bytes zero_hash 0 (take (length rs - at_risk e) rs)) \<le> n"
    using sb(1) n(2) w by (simp add: at_risk_def)
  ultimately show ?thesis using disk_store_cut [OF i(6), of "length rs - at_risk e" n P "m_maxHistoryPerKey e" snap] c(1) n(1) by simp
qed

section \<open>A crash in a write\<close>

lemma settled_only_file:
  assumes "apart wp s fd sp" and "only_file fd s t" and "settled s sp"
  shows "settled t sp"
proof -
  obtain f where f: "fds s fd = Some f" "names s sp \<noteq> Some (f_ino f)" using assms(1) by (auto simp: apart_def)
  have "inodes t i = inodes s i" if "names s sp = Some i" for i
    using only_file_inodes [OF assms(2) f(1), of i] f(2) that by auto
  with assms(2,3) f(1) show ?thesis by (simp add: settled_def only_file_def)
qed

lemma durable_append:
  assumes inv: "durable_inv P e s rs" and w: "m_wal e = Some w"
    and ap: "WAL_append type key blob now w s = (res, w', t)"
    and st: "length key \<le> kMaxFieldSize" "length blob \<le> kMaxFieldSize" "type = PUT \<or> type = DELETE"
  defines "r \<equiv> new_record w type key blob now" and "sp \<equiv> m_snapshotPath e" and "cap \<equiv> m_maxHistoryPerKey e"
  defines "after \<equiv> histories_of (recover_visitor P cap (m_data e) type key blob now)"
  shows "res = Inr () \<Longrightarrow> data_wf cap d \<Longrightarrow> histories_of d = after \<Longrightarrow>
      durable_inv P (e\<lparr>m_wal := Some w', m_data := d\<rparr>) t (rs @ [r])"
    and "m_syncEveryN w' = m_syncEveryN w"
    and "crash_leaves t (m_walPath e) wal \<Longrightarrow> crash_leaves t sp snap \<Longrightarrow>
      disk_store P cap wal snap = Some after \<or>
      (\<exists>j. length rs - at_risk e \<le> j \<and> j \<le> length rs \<and>
        disk_store P cap wal snap = Some (histories_of (recovered P cap (stored_image sp s) (take j rs))))"
proof -
  have ei: "engine_inv P e s rs" and sy: "wal_synced w s rs" and se: "settled s sp"
    and sn: "stable_names s (m_walPath e) = names s (m_walPath e)"
    using inv w by (simp_all add: durable_inv_def sp_def)
  note i = engine_inv_wal [OF ei w] and ea = engine_append [OF ei w ap st]
  have stor: "storable (new_record w type key blob now)"
    using st by (auto simp: storable_new_record type_byte_def as_RecordType_def)
  note a = WAL_append_any [OF ap i(1) stor, folded r_def] and b = WAL_append_bytes [OF ap i(4,5) stor, folded r_def]
  from a have of: "only_file (m_fd w) s t" by blast
  have set: "settled t sp" using settled_only_file [OF _ of se] i(3) by (simp add: sp_def)
  have nt: "names t = names s" "stable_names t = stable_names s" using of by (simp_all add: only_file_def split: option.splits)
  show "m_syncEveryN w' = m_syncEveryN w" using a by blast
  show "durable_inv P (e\<lparr>m_wal := Some w', m_data := d\<rparr>) t (rs @ [r])"
    if "res = Inr ()" "data_wf cap d" "histories_of d = after"
  proof -
    have "engine_inv P (e\<lparr>m_wal := Some w', m_data := d\<rparr>) t (rs @ [r])"
      unfolding r_def using that ea(3) by (simp add: cap_def after_def)
    moreover have "wal_synced w' t (rs @ [r])" using a that(1) sy by blast
    ultimately show ?thesis using set sn by (simp add: durable_inv_def nt sp_def)
  qed
  show "disk_store P cap wal snap = Some after \<or>
      (\<exists>j. length rs - at_risk e \<le> j \<and> j \<le> length rs \<and>
        disk_store P cap wal snap = Some (histories_of (recovered P cap (stored_image sp s) (take j rs))))"
    if wal: "crash_leaves t (m_walPath e) wal" and snap: "crash_leaves t sp snap"
  proof -
    let ?c = "fcontent s (m_fd w)" and ?e = "entry_bytes (m_headHash w) (m_seq w) r" and ?st = "fstable s (m_fd w)"
    have im: "image_of snap = stored_image sp s"
      using crash_leaves_settled [OF set snap] ea(1) by (simp add: stored_image_of sp_def)
    obtain k where k: "fcontent t (m_fd w) = ?c @ take k ?e" using b by blast
    have apt: "apart (m_walPath e) t (m_fd w) (m_snapshotPath e)" using apart_only_file [OF i(3) of] by blast
    obtain ino where ino: "names t (m_walPath e) = Some ino" "fcontent t (m_fd w) = cached (inodes t ino)"
      "fstable t (m_fd w) = stable (inodes t ino)" using wal_inode [OF apt] .
    obtain c where c: "wal = Some c" "survives (inodes t ino) c"
      using wal sn ino(1) by (auto simp: crash_leaves_def nt)
    have "stable (inodes t ino) = ?st \<or> stable (inodes t ino) = ?c @ take k ?e" using b k ino by auto
    from survives_grown [OF c(2) _ synced_bound(2) [OF sy] this] ino k
    obtain n where n: "c = take n (?c @ take k ?e)" "length ?st \<le> n" by auto
    have le: "length ?st \<le> length ?c" using synced_bound(2) [OF sy] by (metis length_take min.cobounded1)
    let ?n = "min n (length ?c + k)"
    have "take n (?c @ take k ?e) = take ?n (?c @ ?e)"
      by (simp add: min_def take_all_iff) (auto simp: min_def)
    then have cut: "c = take ?n (?c @ ?e)" using n(1) by simp
    have hb: "holds_bytes (?c @ ?e) (rs @ [r])"
      using holds_bytes_snoc [OF i(6), of r] stor i(1) by (simp add: wal_holds_def r_def)
    let ?k = "length rs - at_risk e"
    have bd: "16 + length (log_bytes zero_hash 0 (take ?k (rs @ [r]))) \<le> ?n" "?k \<le> length (rs @ [r])"
      using synced_bound(1) [OF sy] n(2) le w by (simp_all add: at_risk_def)
    obtain j where j: "?k \<le> j" "j \<le> length (rs @ [r])"
        "disk_store P cap wal snap = Some (histories_of (recovered P cap (stored_image sp s) (take j (rs @ [r]))))"
      using disk_store_cut [OF hb bd, of P cap snap] cut c(1) im by auto
    show ?thesis
    proof (cases "j \<le> length rs")
      case True
      with j show ?thesis by auto
    next
      case False
      with j(2) have "take j (rs @ [r]) = rs @ [r]" by simp
      moreover have "histories_of (recovered P cap (stored_image sp s) (rs @ [r])) = after"
        unfolding after_def
        by (rule recovered_new_record [OF engine_inv_epochs [OF ei, folded sp_def]])
          (use ei in \<open>simp_all add: engine_inv_def cap_def sp_def r_def new_record_def i(2)\<close>)
      ultimately show ?thesis using j(3) by simp
    qed
  qed
qed

text \<open>
  What a power failure can leave of a write from \<open>before\<close> to \<open>after\<close>: the map after it, or the map of a
  prefix of the log that lacks at most the records that were not yet synced.
\<close>

definition crash_outcome :: "platform \<Rightarrow> StorageEngine \<Rightarrow> os \<Rightarrow> log_record list \<Rightarrow> store \<Rightarrow> store option \<Rightarrow> bool" where
  "crash_outcome P e s rs after disk \<longleftrightarrow> disk = Some after \<or>
    (\<exists>j. length rs - at_risk e \<le> j \<and> j \<le> length rs \<and>
      disk = Some (histories_of (recovered P (m_maxHistoryPerKey e) (stored_image (m_snapshotPath e) s) (take j rs))))"

lemma crash_outcome_synced:
  assumes "crash_outcome P e s rs after disk" and "at_risk e = 0" and "engine_inv P e s rs"
  shows "disk \<in> {Some (histories_of (m_data e)), Some after}"
proof -
  have "histories_of (m_data e) = histories_of (recovered P (m_maxHistoryPerKey e) (stored_image (m_snapshotPath e) s) rs)"
    using assms(3) by (simp only: engine_inv_def)
  with assms(1,2) show ?thesis by (auto simp: crash_outcome_def)
qed

lemma durable_some: "durable_inv P e s rs \<Longrightarrow> \<exists>w. m_wal e = Some w"
  using engine_inv_some by (auto simp: durable_inv_def)

lemma durable_engine: "durable_inv P e s rs \<Longrightarrow> engine_inv P e s rs"
  by (simp add: durable_inv_def)

lemma durable_set:
  assumes st: "StorageEngine_set P key val duration now e s = (res, e', t)" and inv: "durable_inv P e s rs"
    and small: "length key \<le> kMaxFieldSize" "length val \<le> engine_kMaxFieldSize"
  defines "after \<equiv> spec_put (m_maxHistoryPerKey e) key \<lparr>rec_value = val, rec_duration = duration, rec_timestamp = now\<rparr> (histories_of (m_data e))"
  shows "(res = Inr () \<longrightarrow> (\<exists>r. durable_inv P e' t (rs @ [r])) \<and> m_syncEveryN (the (m_wal e')) = m_syncEveryN (the (m_wal e))) \<and>
    (\<forall>wal snap. crash_leaves t (m_walPath e) wal \<and> crash_leaves t (m_snapshotPath e) snap \<longrightarrow>
      crash_outcome P e s rs after (disk_store P (m_maxHistoryPerKey e) wal snap))"
proof -
  obtain w where w: "m_wal e = Some w" using durable_some [OF inv] by blast
  let ?d = "put_data (m_maxHistoryPerKey e) key \<lparr>rec_value = val, rec_duration = duration, rec_timestamp = now\<rparr> (m_data e)"
  from st w small show ?thesis
  proof (rule set_steps)
    fix r w'
    assume ap: "WAL_append PUT key (serialize P duration val) now w s = (r, w', t)"
      and res: "res = (case r of Inl x \<Rightarrow> Inl (Throws x) | Inr _ \<Rightarrow> Inr ())"
      and e': "e' = (case r of Inl x \<Rightarrow> e\<lparr>m_wal := Some w'\<rparr> | Inr _ \<Rightarrow> e\<lparr>m_wal := Some w', m_data := ?d\<rparr>)"
      and len: "length (serialize P duration val) \<le> kMaxFieldSize"
    have v: "histories_of (recover_visitor P (m_maxHistoryPerKey e) (m_data e) PUT key (serialize P duration val) now) = after"
      by (simp add: recover_visitor_cases histories_put after_def)
    note d = durable_append [OF inv w ap small(1) len, simplified, unfolded v]
    have "data_wf (m_maxHistoryPerKey e) ?d" "histories_of ?d = after"
      by (simp_all add: data_wf_put engine_inv_data [OF durable_engine [OF inv]] histories_put after_def)
    note d1 = d(1) [OF _ this]
    have "\<exists>rr. durable_inv P e' t (rs @ [rr])" if "res = Inr ()"
      using that d1 unfolding res e' by (cases r) auto
    moreover have "m_wal e' = Some w'" unfolding e' by (cases r) simp_all
    ultimately show ?thesis using d(2,3) w by (simp add: crash_outcome_def)
  qed
qed

lemma durable_remove:
  assumes rm: "StorageEngine_remove key now e s = (res, e', t)" and inv: "durable_inv P e s rs"
    and small: "length key \<le> kMaxFieldSize"
  shows "(\<forall>found. res = Inr found \<longrightarrow> (\<exists>r. durable_inv P e' t (rs @ [r])) \<and>
      m_syncEveryN (the (m_wal e')) = m_syncEveryN (the (m_wal e))) \<and>
    (\<forall>wal snap. crash_leaves t (m_walPath e) wal \<and> crash_leaves t (m_snapshotPath e) snap \<longrightarrow>
      crash_outcome P e s rs (spec_remove key (histories_of (m_data e))) (disk_store P (m_maxHistoryPerKey e) wal snap))"
proof -
  obtain w where w: "m_wal e = Some w" using durable_some [OF inv] by blast
  let ?after = "spec_remove key (histories_of (m_data e))"
  from rm w show ?thesis
  proof (rule remove_steps)
    fix r w'
    assume ap: "WAL_append DELETE key [] now w s = (r, w', t)"
      and res: "res = (case r of Inl x \<Rightarrow> Inl (Throws x) | Inr _ \<Rightarrow> Inr (histories_of (m_data e) key \<noteq> None))"
      and e': "e' = (case r of Inl x \<Rightarrow> e\<lparr>m_wal := Some w'\<rparr> | Inr _ \<Rightarrow> e\<lparr>m_wal := Some w', m_data := AList.delete key (m_data e)\<rparr>)"
    have v: "histories_of (recover_visitor P (m_maxHistoryPerKey e) (m_data e) DELETE key [] now) = ?after"
      by (simp add: recover_visitor_cases histories_erase)
    note d = durable_append [OF inv w ap small, simplified, unfolded v]
    have "data_wf (m_maxHistoryPerKey e) (AList.delete key (m_data e))" "histories_of (AList.delete key (m_data e)) = ?after"
      by (simp_all add: data_wf_delete engine_inv_data [OF durable_engine [OF inv]] histories_erase)
    note d1 = d(1) [OF _ this]
    have "\<exists>rr. durable_inv P e' t (rs @ [rr])" if "res = Inr found" for found
      using that d1 unfolding res e' by (cases r) auto
    moreover have "m_wal e' = Some w'" unfolding e' by (cases r) simp_all
    ultimately show ?thesis using d(2,3) w by (auto simp: crash_outcome_def)
  qed
qed

section \<open>A crash in a snapshot\<close>

text \<open>The file under the snapshot's name after a save, as a crash finds it.\<close>

lemma save_stable_name:
  assumes "Snapshot_save sp img s = (ok, t)" and "os_wf s"
  shows "names t sp = names s sp \<and> stable_names t = stable_names s \<and> \<not> ok \<or>
    replaced sp img s t \<and> (stable_names t sp = names t sp \<or> stable_names t = stable_names s \<and> \<not> ok)"
proof -
  let ?synced = "\<lambda>q. if dir_of q = dir_of sp then names t q else stable_names s q"
  have at: "stable_names t sp = names t sp" if "stable_names t = ?synced" using fun_cong [OF that, of sp] by simp
  from Snapshot_save_any [OF assms] have
    "names t sp = names s sp \<and> stable_names t = stable_names s \<and> \<not> ok \<or>
     replaced sp img s t \<and> (stable_names t = stable_names s \<or> stable_names t = ?synced) \<and> (ok \<longrightarrow> stable_names t = ?synced)"
    by blast
  with at show ?thesis by blast
qed

lemma save_crash:
  assumes sv: "Snapshot_save sp img s = (ok, t)" and wf: "os_wf s" and sep: "separate_names sp s"
    and se: "settled s sp" and i: "inodes u = inodes t \<or> (\<forall>j. j = ino \<or> inodes u j = inodes t j)" "names s sp \<noteq> Some ino"
      "names t sp \<noteq> Some ino"
    and u: "names u = names t" "stable_names u = stable_names t" and snap: "crash_leaves u sp snap"
  shows "snap = Some (snapshot_file img) \<or> snap = file_of s sp \<and> \<not> ok"
proof -
  note a = Snapshot_save_any [OF sv wf]
  then have os: "others_same sp s t" by blast
  have same: "x = file_of s sp" if "names s sp = n" "(case n of None \<Rightarrow> x = None
      | Some j \<Rightarrow> (\<exists>c. x = Some c \<and> survives (inodes u j) c))" for n x
  proof (cases n)
    case (Some j)
    have "names s (sp @ ''.tmp'') \<noteq> Some j" using sep that(1) Some by (auto simp: separate_names_def)
    then have "inodes t j = inodes s j" using others_same_file [OF os wf, of sp j] that(1) Some by simp
    then have "inodes u j = inodes s j" using i that(1) Some by auto
    with that Some se show ?thesis by (auto simp: file_of_def settled_def dest: survives_settled)
  qed (use that in \<open>simp add: file_of_def\<close>)
  from save_stable_name [OF sv wf] consider (old) "names t sp = names s sp" "stable_names t = stable_names s" "\<not> ok"
    | (new) "replaced sp img s t" "stable_names t sp = names t sp \<or> stable_names t = stable_names s \<and> \<not> ok"
    by blast
  then show ?thesis
  proof cases
    case old
    then have "stable_names u sp = names s sp" "names u sp = names s sp" using se u by (simp_all add: settled_def)
    with snap same [OF refl, of snap] old(3) show ?thesis by (auto simp: crash_leaves_def)
  next
    case new
    then obtain j where j: "names t sp = Some j" "cached (inodes t j) = snapshot_file img"
      "stable (inodes t j) = snapshot_file img" by (auto simp: replaced_def)
    then have "inodes u j = inodes t j" using i by auto
    with j have ju: "stable (inodes u j) = cached (inodes u j)" "cached (inodes u j) = snapshot_file img" by simp_all
    from snap consider "\<exists>c. snap = Some c \<and> survives (inodes u j) c"
      | "stable_names t = stable_names s" "\<not> ok" "case stable_names s sp of None \<Rightarrow> snap = None
          | Some j \<Rightarrow> (\<exists>c. snap = Some c \<and> survives (inodes u j) c)"
      using new(2) j(1) u by (auto simp: crash_leaves_def)
    then show ?thesis
    proof cases
      case 1
      with survives_settled [OF ju(1)] ju(2) show ?thesis by auto
    next
      case 2
      have "stable_names s sp = names s sp" using se by (simp add: settled_def)
      with 2 same [OF refl, of snap] show ?thesis by simp
    qed
  qed
qed

lemma image_of_snapshot_file: "image_fits img \<Longrightarrow> image_of (Some (snapshot_file img)) = Some img"
  by (simp add: image_of_def load_snapshot_file)

lemma save_names:
  assumes "Snapshot_save sp img s = (ok, t)" and "os_wf s" and "q \<noteq> sp" and "q \<noteq> sp @ ''.tmp''" and "stable_names s q = names s q"
  shows "names t q = names s q \<and> stable_names t q = names s q"
  using Snapshot_save_any [OF assms(1,2)] assms(3-5) by (auto simp: others_same_def)

lemma save_settles:
  assumes "Snapshot_save sp img s = (True, t)" and "os_wf s"
  shows "settled t sp"
  using save_stable_name [OF assms] by (auto simp: settled_def replaced_def)

lemma durable_snapshot:
  assumes sn: "StorageEngine_snapshot P e s = (res, e', t)" and inv: "durable_inv P e s rs" and w: "m_wal e = Some w"
    and gp: "good_platform P" and fits: "image_fits (engine_image P e w)" and room: "m_epoch w < m_epoch w + 1"
  shows "(res = Inr () \<longrightarrow> durable_inv P e' t [] \<and> m_syncEveryN (the (m_wal e')) = m_syncEveryN w) \<and>
    (\<forall>wal snap. crash_leaves t (m_walPath e) wal \<and> crash_leaves t (m_snapshotPath e) snap \<longrightarrow>
      crash_outcome P e s rs (histories_of (m_data e)) (disk_store P (m_maxHistoryPerKey e) wal snap) \<or>
      (\<exists>c. wal = Some c \<and> torn_header c \<and> image_of snap = Some (engine_image P e w)))"
  using sn w
proof (cases rule: snapshot_steps)
  let ?sp = "m_snapshotPath e" and ?wp = "m_walPath e" and ?cap = "m_maxHistoryPerKey e" and ?img = "engine_image P e w"
  note ei = durable_engine [OF inv]
  note i = engine_inv_wal [OF ei w] and er = engine_image_restores [OF ei w gp]
  have wf: "os_wf s" using ei unfolding engine_inv_def by blast
  have sy: "wal_synced w s rs" and se: "settled s ?sp" and sn: "stable_names s ?wp = names s ?wp"
    using inv w by (simp_all add: durable_inv_def)
  have ne: "?wp \<noteq> ?sp" "?wp \<noteq> ?sp @ ''.tmp''" and sep: "separate_names ?sp s" using i(3) by (simp_all add: apart_def)
  obtain ino where ino: "names s ?wp = Some ino" "fcontent s (m_fd w) = cached (inodes s ino)"
      "fstable s (m_fd w) = stable (inodes s ino)" using wal_inode [OF i(3)] .
  have fresh: "crash_outcome P e s rs (histories_of (m_data e)) (disk_store P ?cap (Some c) snap) \<or>
      (torn_header c \<and> image_of snap = Some ?img)"
    if "snap = Some (snapshot_file ?img)" "c = take n (fcontent s (m_fd w)) \<or> c = take n header_bytes" for c n snap
  proof -
    have img: "image_of snap = Some ?img" using that(1) image_of_snapshot_file [OF fits] by simp
    from disk_store_snapshotted [OF img er(1) i(6) er(2) that(2)] img show ?thesis by (simp add: crash_outcome_def)
  qed
  {
    case unsaved
    note fr = Snapshot_save_frame [OF unsaved(1) wf i(3)]
    obtain ino' where ino': "names t ?wp = Some ino'" "fcontent t (m_fd w) = cached (inodes t ino')"
      "fstable t (m_fd w) = stable (inodes t ino')" using wal_inode fr by blast
    have nt: "names t ?wp = names s ?wp" "stable_names t ?wp = names s ?wp" using save_names [OF unsaved(1) wf ne sn] by simp_all
    have same: "ino' = ino" using ino(1) ino'(1) nt by simp
    have nsp: "names s ?sp \<noteq> Some ino" "names t ?sp \<noteq> Some ino"
      using i(3) fr ino(1) nt by (auto simp: apart_def)
    have out: "crash_outcome P e s rs (histories_of (m_data e)) (disk_store P ?cap wal snap) \<or>
        (\<exists>c. wal = Some c \<and> torn_header c \<and> image_of snap = Some ?img)"
      if wal: "crash_leaves t ?wp wal" and snap: "crash_leaves t ?sp snap" for wal snap
    proof -
      obtain c where c: "wal = Some c" "survives (inodes t ino) c" using wal nt ino(1) by (auto simp: crash_leaves_def)
      obtain n where n: "c = take n (fcontent s (m_fd w))" "length (fstable s (m_fd w)) \<le> n"
        using survives_grown [OF c(2), of "fcontent s (m_fd w)" "[]" "fstable s (m_fd w)"] synced_bound(2) [OF sy] ino' fr same
        by auto
      from save_crash [OF unsaved(1) wf sep se disjI1 [OF refl] nsp refl refl snap]
      show ?thesis
      proof
        assume "snap = Some (snapshot_file ?img)"
        from fresh [OF this, of c n] n(1) c(1) show ?thesis by auto
      next
        assume "snap = file_of s ?sp \<and> \<not> False"
        then have im: "image_of snap = stored_image ?sp s" by (simp add: stored_image_of)
        have "16 + length (log_bytes zero_hash 0 (take (length rs - at_risk e) rs)) \<le> n"
          using synced_bound(1) [OF sy] n(2) w by (simp add: at_risk_def)
        from disk_store_cut [OF i(6) this, of P ?cap snap] im c(1) n(1)
        show ?thesis by (auto simp: crash_outcome_def)
      qed
    qed
    with unsaved(3) show ?thesis by simp
  next
    case (saved s1 ok w')
    note fr = Snapshot_save_frame [OF saved(1) wf i(3)]
    define w1 where "w1 = WAL_setEpoch (m_epoch w + 1) w"
    have fd: "m_fd w1 = m_fd w" "m_syncEveryN w1 = m_syncEveryN w" by (simp_all add: w1_def WAL_setEpoch_def)
    have app: "appending s1 (m_fd w1)" "m_fd w1 \<noteq> -1" unfolding fd using fr i(4,5) by simp_all
    note r = WAL_reset_any [OF saved(2) [folded w1_def] app, unfolded fd]
      and st = WAL_reset_stable [OF saved(2) [folded w1_def] app, unfolded fd]
    then have of: "only_file (m_fd w) s1 t" by blast
    have apt: "apart ?wp t (m_fd w) ?sp" using apart_only_file fr of by blast
    obtain it where it: "names t ?wp = Some it" "fcontent t (m_fd w) = cached (inodes t it)"
      "fstable t (m_fd w) = stable (inodes t it)" using wal_inode [OF apt] .
    have nt: "names t = names s1" "stable_names t = stable_names s1" using of by (simp_all add: only_file_def split: option.splits)
    have n1: "names s1 ?wp = names s ?wp" "stable_names s1 ?wp = names s ?wp" using save_names [OF saved(1) wf ne sn] by simp_all
    have same: "it = ino" using ino(1) it(1) nt n1 by simp
    obtain f where f: "fds s1 (m_fd w) = Some f" "names s1 ?wp = Some (f_ino f)" using fr by (auto simp: apart_def)
    have others: "\<forall>j. j = ino \<or> inodes t j = inodes s1 j"
      using only_file_inodes [OF of f(1)] f(2) n1 ino(1) by auto
    have nsp: "names s ?sp \<noteq> Some ino" "names s1 ?sp \<noteq> Some ino"
      using i(3) fr ino(1) n1 by (auto simp: apart_def)
    have out: "crash_outcome P e s rs (histories_of (m_data e)) (disk_store P ?cap wal snap) \<or>
        (\<exists>c. wal = Some c \<and> torn_header c \<and> image_of snap = Some ?img)"
      if wal: "crash_leaves t ?wp wal" and snap: "crash_leaves t ?sp snap" for wal snap
    proof -
      obtain c where c: "wal = Some c" "survives (inodes t ino) c" using wal nt n1 ino(1) by (auto simp: crash_leaves_def)
      have new: "snap = Some (snapshot_file ?img)"
        using save_crash [OF saved(1) wf sep se disjI2 [OF others] nsp nt snap] by simp
      have cachd: "fcontent t (m_fd w) = fcontent s (m_fd w) \<or> (\<exists>k. fcontent t (m_fd w) = take k header_bytes)"
        using r fr by (cases ok) (auto intro: exI [of _ 16])
      have stabl: "(\<exists>k. fstable t (m_fd w) = take k (fcontent s (m_fd w))) \<or> (\<exists>k. fstable t (m_fd w) = take k header_bytes)"
        using st fr synced_bound(2) [OF sy] by (metis insert_iff singletonD take_all_iff order_refl)
      have "\<exists>n. c = take n (fcontent s (m_fd w)) \<or> c = take n header_bytes"
        using c(2) cachd stabl unfolding it(2,3) same survives_def by (auto simp: min_def)
      then obtain n where "c = take n (fcontent s (m_fd w)) \<or> c = take n header_bytes" by blast
      from fresh [OF new this] c(1) show ?thesis by auto
    qed
    have "durable_inv P e' t [] \<and> m_syncEveryN (the (m_wal e')) = m_syncEveryN w" if "res = Inr ()"
    proof -
      from that saved(4) have ok: "ok" by (cases ok) simp_all
      have wh: "wal_holds w1 s1 rs" using i(1) fr by (simp add: wal_holds_def w1_def WAL_setEpoch_def)
      have "0 < m_syncEveryN w1" using sy by (auto simp: wal_synced_def fd)
      with WAL_reset_empties [OF _ wh, of w' t] saved(2) ok have "wal_synced w' t []" by (simp add: w1_def)
      moreover have "engine_inv P e' t []" "same_config e e'"
        using StorageEngine_snapshot_any [OF assms(1) ei w gp fits room] that by auto
      moreover have "settled t ?sp" using settled_only_file [OF _ of] fr save_settles saved(1) wf by blast
      moreover have "m_syncEveryN w' = m_syncEveryN w" using r ok by (simp add: fd)
      ultimately show ?thesis using saved(3) nt n1 by (simp add: durable_inv_def same_config_def)
    qed
    with out show ?thesis by blast
  }
qed

section \<open>Becoming durable\<close>

text \<open>The log and its snapshot are in one directory, which saving a snapshot syncs.\<close>

lemma dir_of_append: "CHR ''/'' \<notin> set q \<Longrightarrow> dir_of (p @ q) = dir_of p"
proof -
  assume q: "CHR ''/'' \<notin> set q"
  then have "dropWhile (\<lambda>c. c \<noteq> CHR ''/'') (rev q @ rev p) = dropWhile (\<lambda>c. c \<noteq> CHR ''/'') (rev p)"
    by (intro dropWhile_append2) auto
  with q show ?thesis by (simp add: dir_of_def has_parent_def parent_dir_def)
qed

lemma dir_of_makeSnapshotPath: "dir_of (makeSnapshotPath wp) = dir_of wp"
proof (cases "path_extension wp = ''.wal''")
  case True
  obtain stem where s: "wp = stem @ ''.wal''" "length stem = length wp - 4"
    using path_extension_suffix [of wp] True by auto
  then have "makeSnapshotPath wp = stem @ ''.snap''" using True by (simp add: makeSnapshotPath_def replace_extension_def)
  then show ?thesis using s(1) dir_of_append [of "''.wal''" stem] dir_of_append [of "''.snap''" stem] by simp
next
  case False
  then show ?thesis using dir_of_append [of "''.snap''" wp] by (simp add: makeSnapshotPath_def)
qed

lemma snapshot_makes_durable:
  assumes sn: "StorageEngine_snapshot P e s = (Inr (), e', t)" and ei: "engine_inv P e s rs" and w: "m_wal e = Some w"
    and gp: "good_platform P" and fits: "image_fits (engine_image P e w)" and room: "m_epoch w < m_epoch w + 1"
    and n: "0 < m_syncEveryN w"
  shows "durable_inv P e' t []"
  using sn w
proof (cases rule: snapshot_steps)
  case unsaved
  then show ?thesis by simp
next
  case (saved s1 ok w')
  let ?sp = "m_snapshotPath e" and ?wp = "m_walPath e"
  note i = engine_inv_wal [OF ei w]
  have wf: "os_wf s" and sp: "?sp = makeSnapshotPath ?wp" using ei unfolding engine_inv_def by blast+
  note fr = Snapshot_save_frame [OF saved(1) wf i(3)]
  define w1 where "w1 = WAL_setEpoch (m_epoch w + 1) w"
  have fd: "m_fd w1 = m_fd w" "m_syncEveryN w1 = m_syncEveryN w" by (simp_all add: w1_def WAL_setEpoch_def)
  have ok: "WAL_reset w1 s1 = (True, w', t)" using saved(2,4) by (cases ok) (simp_all add: w1_def)
  have wh: "wal_holds w1 s1 rs" using i(1) fr by (simp add: wal_holds_def w1_def WAL_setEpoch_def)
  have "appending s1 (m_fd w1)" "m_fd w1 \<noteq> -1" unfolding fd using fr i(4,5) by simp_all
  from WAL_reset_any [OF ok this] have of: "only_file (m_fd w) s1 t" by (simp add: fd)
  have "stable_names s1 ?wp = names s1 ?wp"
    using Snapshot_save_any [OF saved(1) wf] dir_of_makeSnapshotPath [of ?wp] by (auto simp: sp)
  then have "stable_names t ?wp = names t ?wp" using of by (simp add: only_file_def split: option.splits)
  moreover have "wal_synced w' t []" using WAL_reset_empties [OF ok wh] n by (simp add: fd)
  moreover have "engine_inv P e' t []" "same_config e e'"
    using StorageEngine_snapshot_any [OF sn ei w gp fits room] by auto
  moreover have "settled t ?sp" using settled_only_file [OF _ of] fr save_settles saved(1) wf by blast
  ultimately show ?thesis using saved(3) by (simp add: durable_inv_def same_config_def)
qed

end
