(* ===== verification/Engine_Runs.thy ===== *)
theory Engine_Runs
  imports Engine_Snapshot
begin

text \<open>
  Closing, opening again, and whole runs of an engine. A run is a list of commands, each of which has
  returned normally, in an environment that may cut transfers short, interrupt and refuse calls;
  \<open>spec_step\<close> is what the commands mean on a map of histories.
\<close>

section \<open>Close and reopen\<close>

lemma StorageEngine_close_any:
  assumes "engine_inv P e s rs"
  shows "file_of (StorageEngine_close e s) q = file_of s q" and "os_wf (StorageEngine_close e s)"
    and "names (StorageEngine_close e s) = names s" and "kind s \<Longrightarrow> kind (StorageEngine_close e s)"
proof -
  obtain w where w: "m_wal e = Some w" using engine_inv_some [OF assms] by blast
  obtain w' t where c: "WAL_close w s = (w', t)" by fastforce
  have t: "StorageEngine_close e s = t" by (simp add: StorageEngine_close_def w c)
  have "os_wf s" using assms unfolding engine_inv_def by blast
  with WAL_close_any [OF c, of rs] engine_inv_wal(1) [OF assms w]
  show "file_of (StorageEngine_close e s) q = file_of s q" "os_wf (StorageEngine_close e s)"
    "names (StorageEngine_close e s) = names s" "kind s \<Longrightarrow> kind (StorageEngine_close e s)"
    by (simp_all add: t file_of_def)
qed

lemma engine_inv_records:
  assumes "engine_inv P e s rs"
  shows "disk_records (file_of s (m_walPath e)) = rs"
proof -
  obtain w where w: "m_wal e = Some w" using engine_inv_some [OF assms] by blast
  note i = engine_inv_wal [OF assms w]
  show ?thesis by (simp add: disk_records_def apart_file_of [OF i(3)] file_scan_holds [OF i(6)])
qed

lemma engine_inv_files_apart:
  assumes "engine_inv P e s rs"
  shows "files_apart (m_walPath e) (m_snapshotPath e) s"
proof -
  obtain w where w: "m_wal e = Some w" using engine_inv_some [OF assms] by blast
  from engine_inv_wal(3) [OF assms w] show ?thesis by (auto simp: files_apart_def apart_def)
qed

lemma engine_reopen:
  assumes inv: "engine_inv P e s rs" and k: "kind s"
  shows "\<exists>e' t. StorageEngine_open P (m_walPath e) (m_maxHistoryPerKey e) n (StorageEngine_close e s) = (Inr e', t) \<and>
    kind t \<and> same_config e e' \<and> engine_inv P e' t rs \<and> histories_of (m_data e') = histories_of (m_data e) \<and>
    stored_image (m_snapshotPath e) t = stored_image (m_snapshotPath e) s"
proof -
  let ?c = "StorageEngine_close e s" and ?wp = "m_walPath e" and ?sp = "m_snapshotPath e"
  note c = StorageEngine_close_any [OF inv]
  have sp: "?sp = makeSnapshotPath ?wp" and ub: "\<forall>f. file_of s ?sp = Some f \<longrightarrow> length f < 2 ^ 64"
    using inv unfolding engine_inv_def by blast+
  have ap: "files_apart ?wp (makeSnapshotPath ?wp) ?c"
    using engine_inv_files_apart [OF inv] c(3) by (simp add: files_apart_def separate_names_def sp)
  have "\<forall>f. file_of ?c (makeSnapshotPath ?wp) = Some f \<longrightarrow> length f < 2 ^ 64" using ub c(1) sp by metis
  note o = StorageEngine_open_kind [OF c(2) c(4) [OF k] ap this, of P "m_maxHistoryPerKey e" n]
  from o engine_inv_disk [OF inv] engine_inv_records [OF inv] engine_inv_epochs [OF inv]
  obtain e' t where e: "StorageEngine_open P ?wp (m_maxHistoryPerKey e) n ?c = (Inr e', t)" "kind t"
      "histories_of (m_data e') = histories_of (m_data e)" "m_walPath e' = ?wp" "m_maxHistoryPerKey e' = m_maxHistoryPerKey e"
      "engine_inv P e' t rs" "file_of t ?sp = file_of s ?sp"
    by (auto simp: c(1) sp [symmetric] stored_image_of)
  have "m_snapshotPath e' = ?sp" using e(4,6) sp unfolding engine_inv_def by metis
  moreover have "stored_image ?sp t = stored_image ?sp s" by (simp add: stored_image_of e(7))
  ultimately show ?thesis using e by (auto simp: same_config_def)
qed

section \<open>Runs\<close>

datatype command = Set bytes bytes double i64 | Remove bytes i64 | TakeSnapshot | Reopen nat

inductive engine_step :: "platform \<Rightarrow> command \<Rightarrow> StorageEngine \<times> os \<Rightarrow> StorageEngine \<times> os \<Rightarrow> bool" for P where
  set: "StorageEngine_set P key val duration now e s = (Inr (), e', t) \<Longrightarrow>
    engine_step P (Set key val duration now) (e, s) (e', t)"
| remove: "StorageEngine_remove key now e s = (Inr found, e', t) \<Longrightarrow> engine_step P (Remove key now) (e, s) (e', t)"
| snapshot: "StorageEngine_snapshot P e s = (Inr (), e', t) \<Longrightarrow> image_fits (engine_image P e (the (m_wal e))) \<Longrightarrow>
    engine_step P TakeSnapshot (e, s) (e', t)"
| reopen: "kind s \<Longrightarrow> StorageEngine_open P (m_walPath e) (m_maxHistoryPerKey e) n (StorageEngine_close e s) = (Inr e', t) \<Longrightarrow>
    engine_step P (Reopen n) (e, s) (e', t)"

inductive engine_run :: "platform \<Rightarrow> command list \<Rightarrow> StorageEngine \<times> os \<Rightarrow> StorageEngine \<times> os \<Rightarrow> bool" for P where
  stop: "engine_run P [] x x"
| step: "engine_step P c x y \<Longrightarrow> engine_run P cs y z \<Longrightarrow> engine_run P (c # cs) x z"

inductive_simps engine_step_simps:
  "engine_step P (Set key val duration now) (e, s) (e', t)"
  "engine_step P (Remove key now) (e, s) (e', t)"
  "engine_step P TakeSnapshot (e, s) (e', t)"
  "engine_step P (Reopen n) (e, s) (e', t)"

fun spec_step :: "nat \<Rightarrow> command \<Rightarrow> store \<Rightarrow> store" where
  "spec_step cap (Set key val duration now) m =
    spec_put cap key \<lparr>rec_value = val, rec_duration = duration, rec_timestamp = now\<rparr> m"
| "spec_step cap (Remove key now) m = spec_remove key m"
| "spec_step cap TakeSnapshot m = m"
| "spec_step cap (Reopen n) m = m"

definition spec_run :: "nat \<Rightarrow> command list \<Rightarrow> store \<Rightarrow> store" where
  "spec_run cap cs m = foldl (\<lambda>m c. spec_step cap c m) m cs"

definition engine_epoch :: "StorageEngine \<Rightarrow> os \<Rightarrow> u64" where
  "engine_epoch e s = next_epoch (stored_image (m_snapshotPath e) s)"

text \<open>Every step keeps the invariant and is the specified step on the map.\<close>

lemma engine_step_refines:
  assumes "engine_step P c (e, s) (e', t)" and inv: "engine_inv P e s rs" and gp: "good_platform P"
    and room: "unat (engine_epoch e s) + 1 < 2 ^ 64"
  shows "same_config e e' \<and> (\<exists>rs'. engine_inv P e' t rs') \<and>
    histories_of (m_data e') = spec_step (m_maxHistoryPerKey e) c (histories_of (m_data e)) \<and>
    unat (engine_epoch e' t) \<le> unat (engine_epoch e s) + 1"
proof (cases c)
  case (Set key val duration now)
  with assms(1) have st: "StorageEngine_set P key val duration now e s = (Inr (), e', t)"
    by (simp add: engine_step_simps)
  from StorageEngine_set_any [OF st inv] Set show ?thesis
    by (auto simp: write_outcome_def engine_epoch_def stored_image_of same_config_def split: if_splits)
next
  case (Remove key now)
  with assms(1) obtain found where st: "StorageEngine_remove key now e s = (Inr found, e', t)"
    by (auto simp: engine_step_simps)
  from StorageEngine_remove_any [OF st inv] Remove show ?thesis
    by (auto simp: write_outcome_def engine_epoch_def stored_image_of same_config_def split: if_splits)
next
  case TakeSnapshot
  with assms(1) have st: "StorageEngine_snapshot P e s = (Inr (), e', t)" "image_fits (engine_image P e (the (m_wal e)))"
    by (simp_all add: engine_step_simps)
  obtain w where w: "m_wal e = Some w" using engine_inv_some [OF inv] by blast
  have ew: "engine_epoch e s = m_epoch w" using engine_inv_wal(2) [OF inv w] by (simp add: engine_epoch_def)
  have r: "unat (m_epoch w + 1) = unat (m_epoch w) + 1" using room unfolding ew by (simp add: unat_word_ariths)
  then have lt: "m_epoch w < m_epoch w + 1" by (simp add: word_less_nat_alt)
  have fits: "image_fits (engine_image P e w)" using st(2) w by simp
  note a = StorageEngine_snapshot_any [OF st(1) inv w gp fits lt]
  then have "stored_image (m_snapshotPath e') t = Some (engine_image P e w)"
    using stored_image_saved [OF fits] by (auto simp: same_config_def)
  then have "engine_epoch e' t = m_epoch w + 1" by (simp add: engine_epoch_def next_epoch_def engine_image_def)
  with a TakeSnapshot r ew show ?thesis by auto
next
  case (Reopen n)
  with assms(1) have st: "kind s"
      "StorageEngine_open P (m_walPath e) (m_maxHistoryPerKey e) n (StorageEngine_close e s) = (Inr e', t)"
    by (simp_all add: engine_step_simps)
  from engine_reopen [OF inv st(1), of n] st(2) Reopen show ?thesis
    by (auto simp: engine_epoch_def same_config_def)
qed

lemma engine_run_refines:
  assumes "engine_run P cs x y" and "engine_inv P (fst x) (snd x) rs" and "good_platform P"
    and "unat (engine_epoch (fst x) (snd x)) + length cs < 2 ^ 64"
  shows "same_config (fst x) (fst y) \<and> (\<exists>rs'. engine_inv P (fst y) (snd y) rs') \<and>
    histories_of (m_data (fst y)) = spec_run (m_maxHistoryPerKey (fst x)) cs (histories_of (m_data (fst x)))"
  using assms(1,2,4)
proof (induction arbitrary: rs)
  case (stop x)
  then show ?case by (auto simp: spec_run_def)
next
  case (step c x y cs z)
  obtain e s e' t where xy: "x = (e, s)" "y = (e', t)" by fastforce
  have room: "unat (engine_epoch e s) + 1 < 2 ^ 64" using step.prems(2) xy by simp
  from engine_step_refines [OF step.hyps(1) [unfolded xy] step.prems(1) [unfolded xy fst_conv snd_conv] assms(3) room]
  obtain rs' where a: "same_config e e'" "engine_inv P e' t rs'"
    "histories_of (m_data e') = spec_step (m_maxHistoryPerKey e) c (histories_of (m_data e))"
    "unat (engine_epoch e' t) \<le> unat (engine_epoch e s) + 1" by blast
  have "unat (engine_epoch e' t) + length cs < 2 ^ 64" using a(4) step.prems(2) xy by simp
  with step.IH [of rs'] a(2) xy have "same_config e' (fst z) \<and> (\<exists>rs'. engine_inv P (fst z) (snd z) rs') \<and>
    histories_of (m_data (fst z)) = spec_run (m_maxHistoryPerKey e') cs (histories_of (m_data e'))" by simp
  moreover have "m_maxHistoryPerKey e' = m_maxHistoryPerKey e" using a(1) by (simp add: same_config_def)
  ultimately show ?case using a(1,3) xy same_config_trans by (auto simp: spec_run_def)
qed

section \<open>Progress\<close>

definition admissible :: "platform \<Rightarrow> StorageEngine \<Rightarrow> command \<Rightarrow> bool" where
  "admissible P e c = (case c of
     Set key val duration now \<Rightarrow> length key \<le> kMaxFieldSize \<and> length val \<le> engine_kMaxFieldSize
   | Remove key now \<Rightarrow> length key \<le> kMaxFieldSize
   | TakeSnapshot \<Rightarrow> image_fits (engine_image P e (the (m_wal e)))
   | Reopen n \<Rightarrow> True)"

text \<open>When no call fails, every admissible command returns normally.\<close>

lemma engine_step_progress:
  assumes inv: "engine_inv P e s rs" and k: "kind s" and gp: "good_platform P"
    and room: "unat (engine_epoch e s) + 1 < 2 ^ 64" and ad: "admissible P e c"
  shows "\<exists>e' t. engine_step P c (e, s) (e', t) \<and> kind t"
proof (cases c)
  case (Set key val duration now)
  obtain res e' t where st: "StorageEngine_set P key val duration now e s = (res, e', t)" by (metis prod_cases3)
  from StorageEngine_set_any [OF st inv] Set ad k have "res = Inr ()" "kind t"
    by (auto simp: admissible_def write_outcome_def split: sum.splits)
  with st Set show ?thesis by (auto intro: engine_step.set)
next
  case (Remove key now)
  obtain res e' t where st: "StorageEngine_remove key now e s = (res, e', t)" by (metis prod_cases3)
  from StorageEngine_remove_any [OF st inv] Remove ad k obtain found where "res = Inr found" "kind t"
    by (auto simp: admissible_def write_outcome_def split: sum.splits)
  with st Remove show ?thesis by (auto intro: engine_step.remove)
next
  case TakeSnapshot
  obtain w where w: "m_wal e = Some w" using engine_inv_some [OF inv] by blast
  obtain res e' t where st: "StorageEngine_snapshot P e s = (res, e', t)" by (metis prod_cases3)
  have "engine_epoch e s = m_epoch w" using engine_inv_wal(2) [OF inv w] by (simp add: engine_epoch_def)
  with room have lt: "m_epoch w < m_epoch w + 1" by (simp add: word_less_nat_alt unat_word_ariths)
  have fits: "image_fits (engine_image P e w)" using ad TakeSnapshot w by (simp add: admissible_def)
  from StorageEngine_snapshot_any [OF st inv w gp fits lt] k have "res = Inr ()" "kind t" by blast+
  with st TakeSnapshot fits w show ?thesis by (auto simp: engine_step_simps)
next
  case (Reopen n)
  from engine_reopen [OF inv k, of n] k Reopen show ?thesis by (auto intro: engine_step.reopen)
qed

end
