(* ===== verification/Sample_Engine.thy ===== *)
theory Sample_Engine
  imports Engine_Crash Engine_Runs Sample_States
begin

text \<open>
  A concrete engine for the witnesses: open on the log of \<open>Sample_States\<close>, with no snapshot yet, on a
  little-endian platform that iterates over a map in its list order.
\<close>

definition sample_platform :: platform where
  "sample_platform = \<lparr>big_endian = False, iter = (\<lambda>st. st)\<rparr>"

definition sample_engine :: StorageEngine where
  "sample_engine = \<lparr>m_data = [], m_wal = Some sample_wal, m_walPath = ''w'', m_snapshotPath = ''w.snap'',
     m_snapshotEpoch = None, m_maxHistoryPerKey = 2\<rparr>"

lemma sample_platform_good [simp]: "good_platform sample_platform"
  by (simp add: good_platform_def sample_platform_def)

lemma sample_engine_simps [simp]:
  "m_data sample_engine = []" "m_wal sample_engine = Some sample_wal" "m_walPath sample_engine = ''w''"
  "m_snapshotPath sample_engine = ''w.snap''" "m_snapshotEpoch sample_engine = None" "m_maxHistoryPerKey sample_engine = 2"
  by (simp_all add: sample_engine_def)

lemma sample_snapshot_path [simp]: "makeSnapshotPath ''w'' = ''w.snap''"
  by (simp add: makeSnapshotPath_def path_extension_def file_name_def)

lemma sample_files [simp]:
  "file_of sample_os ''w'' = Some header_bytes" "file_of sample_os ''w.snap'' = None"
  "stored_image ''w.snap'' sample_os = None" "names sample_os ''w.snap'' = None"
  by (simp_all add: file_of_def sample_os_def sample_inodes_def stored_image_def)

lemma sample_epoch [simp]: "m_epoch sample_wal = 0"
  by (simp add: sample_wal_def)

lemma sample_apart [simp]: "apart ''w'' sample_os 3 ''w.snap''"
  by (simp add: apart_def separate_names_def sample_os_def)

lemma sample_engine_inv [simp]: "engine_inv P sample_engine sample_os []"
  by (simp add: engine_inv_def epochs_ordered_def next_epoch_def recovered_def base_data_def)

lemma sample_durable [simp]: "durable_inv P sample_engine sample_os []"
  by (simp add: durable_inv_def settled_def) (simp add: sample_os_def)

lemma sample_image [simp]: "engine_image sample_platform sample_engine sample_wal = \<lparr>si_epoch = 0, si_state = []\<rparr>"
  by (simp add: engine_image_def exportSnapshotState_def sample_platform_def)

lemma sample_engine_image_fits [simp]: "image_fits \<lparr>si_epoch = 0, si_state = []\<rparr>"
  by (simp add: image_fits_def fits32_def snapshot_file_eq snapshot_payload_eq)

end
