(* ===== verification/Engine_Durability.thy ===== *)
theory Engine_Durability
  imports Engine_Crash Engine_Runs
begin

text \<open>
  Group commit over whole runs: from a snapshot that returned, sets, removals and further snapshots keep the
  engine in a state whose files, after a power failure, open to the map of all but the last few commands,
  fewer than \<open>m_syncEveryN\<close>.
\<close>

lemma spec_run_snoc [simp]: "spec_run cap (cs @ [c]) m = spec_step cap c (spec_run cap cs m)"
  by (simp add: spec_run_def)

text \<open>The records in the log are those of the last commands, in order, and the rest is in the snapshot.\<close>

definition tracks :: "platform \<Rightarrow> nat \<Rightarrow> store \<Rightarrow> command list \<Rightarrow> StorageEngine \<Rightarrow> os \<Rightarrow> log_record list \<Rightarrow> bool" where
  "tracks P n m0 cs e s rs \<longleftrightarrow> durable_inv P e s rs \<and> m_syncEveryN (the (m_wal e)) = n \<and> length rs \<le> length cs \<and>
    (\<forall>j \<le> length rs. histories_of (recovered P (m_maxHistoryPerKey e) (stored_image (m_snapshotPath e) s) (take j rs)) =
      spec_run (m_maxHistoryPerKey e) (take (length cs - length rs + j) cs) m0)"

lemma tracks_live:
  assumes "tracks P n m0 cs e s rs"
  shows "histories_of (m_data e) = spec_run (m_maxHistoryPerKey e) cs m0"
proof -
  have "engine_inv P e s rs" using assms durable_engine by (auto simp: tracks_def)
  then have "histories_of (m_data e) =
      histories_of (recovered P (m_maxHistoryPerKey e) (stored_image (m_snapshotPath e) s) (take (length rs) rs))"
    by (simp only: engine_inv_def take_all order_refl)
  moreover have "length cs - length rs + length rs = length cs" using assms by (simp add: tracks_def)
  ultimately show ?thesis using assms unfolding tracks_def by (metis order_refl take_all)
qed

text \<open>A command that appends a record, and one that empties the log.\<close>

lemma tracks_append:
  assumes tr: "tracks P n m0 cs e s rs" and d: "durable_inv P e' t (rs @ [r])" and "same_config e e'"
    and "m_syncEveryN (the (m_wal e')) = n" and "file_of t (m_snapshotPath e) = file_of s (m_snapshotPath e)"
    and h: "histories_of (m_data e') = spec_step (m_maxHistoryPerKey e) c (histories_of (m_data e))"
  shows "tracks P n m0 (cs @ [c]) e' t (rs @ [r])"
proof -
  let ?cap = "m_maxHistoryPerKey e" and ?img = "stored_image (m_snapshotPath e) s"
  have img: "stored_image (m_snapshotPath e') t = ?img" and cap: "m_maxHistoryPerKey e' = ?cap"
    using assms(3,5) by (simp_all add: stored_image_of same_config_def)
  have "histories_of (m_data e') = histories_of (recovered P ?cap ?img (rs @ [r]))"
    using durable_engine [OF d] unfolding engine_inv_def img cap by blast
  then have last: "histories_of (recovered P ?cap ?img (rs @ [r])) = spec_run ?cap (cs @ [c]) m0"
    using h tracks_live [OF tr] by simp
  have "histories_of (recovered P ?cap ?img (take j (rs @ [r]))) =
      spec_run ?cap (take (length (cs @ [c]) - length (rs @ [r]) + j) (cs @ [c])) m0" if "j \<le> length (rs @ [r])" for j
  proof (cases "j \<le> length rs")
    case True
    moreover have "length cs - length rs + j \<le> length cs" using True tr by (simp add: tracks_def)
    ultimately show ?thesis using tr by (simp add: tracks_def)
  next
    case False
    with that have "j = length (rs @ [r])" by simp
    with last tr show ?thesis by (simp add: tracks_def)
  qed
  with tr d assms(4) show ?thesis by (simp add: tracks_def img cap)
qed

lemma tracks_emptied:
  assumes tr: "tracks P n m0 cs e s rs" and d: "durable_inv P e' t []" and "same_config e e'"
    and "m_syncEveryN (the (m_wal e')) = n" and "histories_of (m_data e') = spec_step (m_maxHistoryPerKey e) c (histories_of (m_data e))"
  shows "tracks P n m0 (cs @ [c]) e' t []"
proof -
  have cap: "m_maxHistoryPerKey e' = m_maxHistoryPerKey e" using assms(3) by (simp add: same_config_def)
  have "histories_of (m_data e') = histories_of (recovered P (m_maxHistoryPerKey e') (stored_image (m_snapshotPath e') t) [])"
    using durable_engine [OF d] unfolding engine_inv_def by blast
  then show ?thesis using assms tracks_live [OF tr] by (simp add: tracks_def cap)
qed

lemma engine_step_tracks:
  assumes st: "engine_step P c (e, s) (e', t)" and tr: "tracks P n m0 cs e s rs" and gp: "good_platform P"
    and room: "unat (engine_epoch e s) + 1 < 2 ^ 64" and "\<forall>n. c \<noteq> Reopen n"
  shows "\<exists>rs'. tracks P n m0 (cs @ [c]) e' t rs'"
proof -
  have d: "durable_inv P e s rs" and n: "m_syncEveryN (the (m_wal e)) = n" using tr by (simp_all add: tracks_def)
  note inv = durable_engine [OF d]
  from engine_step_refines [OF st inv gp room] have cfg: "same_config e e'"
    and h: "histories_of (m_data e') = spec_step (m_maxHistoryPerKey e) c (histories_of (m_data e))" by blast+
  show ?thesis
  proof (cases c)
    case (Set key val duration now)
    with st have s: "StorageEngine_set P key val duration now e s = (Inr (), e', t)" by (simp add: engine_step_simps)
    note a = StorageEngine_set_any [OF s inv]
    have small: "length key \<le> kMaxFieldSize" "length val \<le> engine_kMaxFieldSize" using a by (auto split: if_splits)
    from durable_set [OF s d small] n obtain r where "durable_inv P e' t (rs @ [r])" "m_syncEveryN (the (m_wal e')) = n" by auto
    moreover have "file_of t (m_snapshotPath e) = file_of s (m_snapshotPath e)" using a small by (simp add: write_outcome_def)
    ultimately show ?thesis using tracks_append [OF tr _ cfg _ _ h] by blast
  next
    case (Remove key now)
    with st obtain found where s: "StorageEngine_remove key now e s = (Inr found, e', t)" by (auto simp: engine_step_simps)
    note a = StorageEngine_remove_any [OF s inv]
    have small: "length key \<le> kMaxFieldSize" using a by (auto split: if_splits)
    from durable_remove [OF s d small] n obtain r where "durable_inv P e' t (rs @ [r])" "m_syncEveryN (the (m_wal e')) = n" by auto
    moreover have "file_of t (m_snapshotPath e) = file_of s (m_snapshotPath e)" using a small by (simp add: write_outcome_def)
    ultimately show ?thesis using tracks_append [OF tr _ cfg _ _ h] by blast
  next
    case TakeSnapshot
    with st have s: "StorageEngine_snapshot P e s = (Inr (), e', t)" "image_fits (engine_image P e (the (m_wal e)))"
      by (simp_all add: engine_step_simps)
    obtain w where w: "m_wal e = Some w" using engine_inv_some [OF inv] by blast
    have "engine_epoch e s = m_epoch w" using engine_inv_wal(2) [OF inv w] by (simp add: engine_epoch_def)
    with room have lt: "m_epoch w < m_epoch w + 1" by (simp add: word_less_nat_alt unat_word_ariths)
    from s(2) w have fits: "image_fits (engine_image P e w)" by simp
    from durable_snapshot [OF s(1) d w gp fits lt] n w have "durable_inv P e' t []" "m_syncEveryN (the (m_wal e')) = n" by simp_all
    from tracks_emptied [OF tr this(1) cfg this(2) h] show ?thesis by blast
  qed (use assms(5) in blast)
qed

lemma engine_run_tracks:
  assumes "engine_run P ds x y" and "tracks P n m0 cs (fst x) (snd x) rs" and "good_platform P"
    and "unat (engine_epoch (fst x) (snd x)) + length ds < 2 ^ 64" and "\<forall>n. Reopen n \<notin> set ds"
  shows "m_walPath (fst y) = m_walPath (fst x) \<and> m_snapshotPath (fst y) = m_snapshotPath (fst x) \<and>
    m_maxHistoryPerKey (fst y) = m_maxHistoryPerKey (fst x) \<and> (\<exists>rs'. tracks P n m0 (cs @ ds) (fst y) (snd y) rs')"
  using assms(1,2,4,5)
proof (induction arbitrary: cs rs)
  case (stop x)
  then show ?case by auto
next
  case (step c x y ds z)
  obtain e s e' t where xy: "x = (e, s)" "y = (e', t)" by fastforce
  note st = step.hyps(1) [unfolded xy] and tr = step.prems(1) [unfolded xy fst_conv snd_conv]
  have room: "unat (engine_epoch e s) + 1 < 2 ^ 64" using step.prems(2) xy by simp
  have inv: "engine_inv P e s rs" using tr durable_engine by (auto simp: tracks_def)
  from engine_step_refines [OF st inv assms(3) room] have a: "same_config e e'"
    "unat (engine_epoch e' t) \<le> unat (engine_epoch e s) + 1" by blast+
  from engine_step_tracks [OF st tr assms(3) room] step.prems(3) obtain rs' where
    "tracks P n m0 (cs @ [c]) e' t rs'" by auto
  moreover have "unat (engine_epoch e' t) + length ds < 2 ^ 64" using a(2) step.prems(2) xy by simp
  ultimately have "m_walPath (fst z) = m_walPath e' \<and> m_snapshotPath (fst z) = m_snapshotPath e' \<and>
      m_maxHistoryPerKey (fst z) = m_maxHistoryPerKey e' \<and> (\<exists>rs'. tracks P n m0 ((cs @ [c]) @ ds) (fst z) (snd z) rs')"
    using step.IH [of "cs @ [c]" rs'] step.prems(3) xy by simp
  with a(1) xy show ?case by (simp add: same_config_def)
qed

text \<open>A crash takes fewer than \<open>m_syncEveryN\<close> commands from the end.\<close>

lemma tracks_crash:
  assumes tr: "tracks P n m0 cs e s rs" and "crash_leaves s (m_walPath e) wal" and "crash_leaves s (m_snapshotPath e) snap"
  shows "\<exists>i \<le> length cs. length cs < i + n \<and>
    disk_store P (m_maxHistoryPerKey e) wal snap = Some (spec_run (m_maxHistoryPerKey e) (take i cs) m0)"
proof -
  have d: "durable_inv P e s rs" and le: "length rs \<le> length cs" using tr by (simp_all add: tracks_def)
  from durable_crash [OF d assms(2,3)] obtain j where j: "length rs - at_risk e \<le> j" "j \<le> length rs"
    "disk_store P (m_maxHistoryPerKey e) wal snap =
      Some (histories_of (recovered P (m_maxHistoryPerKey e) (stored_image (m_snapshotPath e) s) (take j rs)))" by blast
  have "at_risk e < n" using d tr by (simp add: durable_inv_def wal_synced_def at_risk_def tracks_def)
  with j le tr show ?thesis by (intro exI [of _ "length cs - length rs + j"]) (auto simp: tracks_def)
qed

lemma snapshot_keeps_sync:
  assumes "StorageEngine_snapshot P e s = (Inr (), e', t)" and "m_wal e = Some w"
  shows "m_syncEveryN (the (m_wal e')) = m_syncEveryN w"
  using assms
proof (cases rule: snapshot_steps)
  case (saved s1 ok w')
  then have "m_syncEveryN w' = m_syncEveryN (WAL_setEpoch (m_epoch w + 1) w)"
    by (auto simp: WAL_reset_def Let_def split: prod.splits if_splits)
  then show ?thesis using saved(3) by (simp add: WAL_setEpoch_def)
qed simp

text \<open>A snapshot that returns is where this begins.\<close>

lemma snapshot_tracks:
  assumes sn: "StorageEngine_snapshot P e s = (Inr (), e', t)" and inv: "engine_inv P e s rs" and w: "m_wal e = Some w"
    and gp: "good_platform P" and fits: "image_fits (engine_image P e w)" and lt: "m_epoch w < m_epoch w + 1"
    and n: "0 < m_syncEveryN w"
  shows "tracks P (m_syncEveryN w) (histories_of (m_data e)) [] e' t []" and "same_config e e'"
    and "engine_epoch e' t = m_epoch w + 1"
proof -
  have d: "durable_inv P e' t []" by (rule snapshot_makes_durable [OF assms])
  from StorageEngine_snapshot_any [OF sn inv w gp fits lt] have a: "same_config e e'" "m_data e' = m_data e"
    "file_of t (m_snapshotPath e) = Some (snapshot_file (engine_image P e w))" by (simp_all split: if_splits)
  have "histories_of (m_data e') = histories_of (recovered P (m_maxHistoryPerKey e') (stored_image (m_snapshotPath e') t) [])"
    using durable_engine [OF d] unfolding engine_inv_def by blast
  moreover have "m_syncEveryN (the (m_wal e')) = m_syncEveryN w" by (rule snapshot_keeps_sync [OF sn w])
  ultimately show "tracks P (m_syncEveryN w) (histories_of (m_data e)) [] e' t []"
    using d a(2) by (simp add: tracks_def spec_run_def)
  have "stored_image (m_snapshotPath e') t = Some (engine_image P e w)"
    using a stored_image_saved [OF fits] by (auto simp: same_config_def)
  then show "engine_epoch e' t = m_epoch w + 1" by (simp add: engine_epoch_def next_epoch_def engine_image_def)
  show "same_config e e'" by (rule a(1))
qed

end
