(* ===== verification/Engine_Properties.thy ===== *)
theory Engine_Properties
  imports Sample_Engine Engine_Durability
begin

text \<open>
  The properties of the storage engine: refinement of a map of histories by whole runs, crash safety of
  every operation, opening as a function of the two files, and the effect of every operation in every
  environment.
\<close>

section \<open>Runs\<close>



text \<open>C33. When no call fails, every admissible operation returns normally.\<close>

theorem admissible_operations_succeed:
  assumes "engine_inv P e s rs" and "kind s" and "good_platform P" and "unat (engine_epoch e s) + 1 < 2 ^ 64"
    and "admissible P e c"
  shows "\<exists>e' t. engine_step P c (e, s) (e', t) \<and> kind t"
  by (rule engine_step_progress [OF assms])

theorem admissible_operations_succeed_witness:
  "\<exists>e' t. engine_step sample_platform TakeSnapshot (sample_engine, sample_os) (e', t) \<and> kind t"
  by (rule admissible_operations_succeed [OF sample_engine_inv sample_kind sample_platform_good])
    (simp_all add: engine_epoch_def next_epoch_def admissible_def)

text \<open>C6. Closing the engine and opening its files again, when no call fails, gives an engine with the same map,
  whatever sequence of operations went before.\<close>

theorem reopen_restores_the_map:
  assumes "engine_inv P e s rs" and "kind s"
  shows "\<exists>e' t. StorageEngine_open P (m_walPath e) (m_maxHistoryPerKey e) n (StorageEngine_close e s) = (Inr e', t) \<and>
    histories_of (m_data e') = histories_of (m_data e) \<and> engine_inv P e' t rs"
  using engine_reopen [OF assms] by blast

theorem reopen_restores_the_map_witness:
  "\<exists>e' t. StorageEngine_open sample_platform ''w'' 2 1 (StorageEngine_close sample_engine sample_os) = (Inr e', t) \<and>
    histories_of (m_data e') = Map.empty"
  using reopen_restores_the_map [OF sample_engine_inv sample_kind, of sample_platform 1]
  by (auto simp: histories_of_def)

text \<open>C4. Opening is a function of the bytes of the two files: when no call fails, the constructor throws exactly
  when the log has no valid header or is damaged, and otherwise its map is the snapshot's image with the
  log's later records replayed on it.\<close>

theorem open_computes_the_map_on_disk:
  assumes "os_wf s" and "kind s" and "files_apart wp (makeSnapshotPath wp) s"
    and "\<forall>f. file_of s (makeSnapshotPath wp) = Some f \<longrightarrow> length f < 2 ^ 64"
  shows "case StorageEngine_open P wp cap n s of
      (Inl x, t) \<Rightarrow> (\<exists>m. x = Throws (runtime_error m)) \<and> disk_store P cap (file_of s wp) (file_of s (makeSnapshotPath wp)) = None
    | (Inr e, t) \<Rightarrow> disk_store P cap (file_of s wp) (file_of s (makeSnapshotPath wp)) = Some (histories_of (m_data e))"
  using StorageEngine_open_kind [OF assms, of P cap n] by (auto split: option.splits)

theorem open_computes_the_map_on_disk_witness:
  "case StorageEngine_open sample_platform ''w'' 2 1 sample_os of
      (Inl x, t) \<Rightarrow> (\<exists>m. x = Throws (runtime_error m)) \<and> disk_store sample_platform 2 (Some header_bytes) None = None
    | (Inr e, t) \<Rightarrow> disk_store sample_platform 2 (Some header_bytes) None = Some (histories_of (m_data e))"
proof -
  have "files_apart ''w'' (makeSnapshotPath ''w'') sample_os"
    by (simp add: files_apart_def separate_names_def) (simp add: sample_os_def)
  from open_computes_the_map_on_disk [OF sample_os_wf sample_kind this, of sample_platform 2 1]
  show ?thesis unfolding sample_snapshot_path sample_files by simp
qed

section \<open>Crashes\<close>

text \<open>C22. Group commit loses fewer than \<open>m_syncEveryN\<close> commands. After a snapshot that returned, let any sets, removals and
  further snapshots return, in an environment that may cut, interrupt and refuse calls; what a power failure then leaves
  opens to the map after all of them but the last few, fewer than \<open>m_syncEveryN\<close>, with nothing missing in between.\<close>

theorem crash_loses_only_pending_records:
  assumes "StorageEngine_snapshot P e0 s0 = (Inr (), e, s)" and "engine_inv P e0 s0 rs" and "m_wal e0 = Some w"
    and "good_platform P" and "image_fits (engine_image P e0 w)" and "0 < m_syncEveryN w"
    and "engine_run P cs (e, s) (e', t)" and "\<forall>n. Reopen n \<notin> set cs" and "unat (m_epoch w) + 1 + length cs < 2 ^ 64"
    and "crash_leaves t (m_walPath e0) wal" and "crash_leaves t (m_snapshotPath e0) snap"
  shows "\<exists>i \<le> length cs. length cs < i + m_syncEveryN w \<and> disk_store P (m_maxHistoryPerKey e0) wal snap =
    Some (spec_run (m_maxHistoryPerKey e0) (take i cs) (histories_of (m_data e0)))"
proof -
  have r: "unat (m_epoch w + 1) = unat (m_epoch w) + 1" using assms(9) by (simp add: unat_word_ariths)
  then have lt: "m_epoch w < m_epoch w + 1" by (simp add: word_less_nat_alt)
  note b = snapshot_tracks [OF assms(1-5) lt assms(6)]
  have "unat (engine_epoch (fst (e, s)) (snd (e, s))) + length cs < 2 ^ 64" using b(3) r assms(9) by simp
  from engine_run_tracks [OF assms(7) _ assms(4) this assms(8)] b(1) obtain rs'
    where "tracks P (m_syncEveryN w) (histories_of (m_data e0)) cs e' t rs'"
      and "m_walPath e' = m_walPath e" "m_snapshotPath e' = m_snapshotPath e" "m_maxHistoryPerKey e' = m_maxHistoryPerKey e"
    by fastforce
  with tracks_crash [of P "m_syncEveryN w" "histories_of (m_data e0)" cs e' t rs' wal snap] b(2) assms(10,11)
  show ?thesis by (simp add: same_config_def)
qed

theorem crash_loses_only_pending_records_witness:
  "\<exists>e s e' t. StorageEngine_snapshot sample_platform sample_engine sample_os = (Inr (), e, s) \<and>
    engine_run sample_platform [Set [107] [118] (Double 5) 7] (e, s) (e', t) \<and>
    (\<forall>wal snap. crash_leaves t ''w'' wal \<and> crash_leaves t ''w.snap'' snap \<longrightarrow>
      disk_store sample_platform 2 wal snap = Some [[107] \<mapsto> [\<lparr>rec_value = [118], rec_duration = Double 5, rec_timestamp = 7\<rparr>]])"
proof -
  let ?c = "Set [107] [118] (Double 5) 7"
  obtain res e s where sn: "StorageEngine_snapshot sample_platform sample_engine sample_os = (res, e, s)"
    by (metis prod_cases3)
  from StorageEngine_snapshot_any [OF sn sample_engine_inv sample_engine_simps(2) sample_platform_good]
  have res: "res = Inr ()" and inv: "engine_inv sample_platform e s []" and k: "kind s" by simp_all
  note sn = sn [unfolded res]
  have n: "m_syncEveryN sample_wal = 1" by (simp add: sample_wal_def)
  have ep: "engine_epoch e s = 1"
    using snapshot_tracks(3) [OF sn sample_engine_inv sample_engine_simps(2) sample_platform_good] n by simp
  have room: "unat (engine_epoch e s) + 1 < 2 ^ 64" using ep by simp
  have "admissible sample_platform e ?c" by (simp add: admissible_def kMaxFieldSize_def engine_kMaxFieldSize_def)
  from engine_step_progress [OF inv k sample_platform_good room this] obtain e' t
    where st: "engine_step sample_platform ?c (e, s) (e', t)" by blast
  then have run: "engine_run sample_platform [?c] (e, s) (e', t)" by (intro engine_run.step [OF st] engine_run.stop)
  have m: "spec_run 2 [?c] (histories_of []) = [[107] \<mapsto> [\<lparr>rec_value = [118], rec_duration = Double 5, rec_timestamp = 7\<rparr>]]"
    by (simp add: spec_run_def spec_put_def histories_of_def)
  have "disk_store sample_platform 2 wal snap = Some [[107] \<mapsto> [\<lparr>rec_value = [118], rec_duration = Double 5, rec_timestamp = 7\<rparr>]]"
    if "crash_leaves t ''w'' wal" "crash_leaves t ''w.snap'' snap" for wal snap
  proof -
    have "\<exists>i \<le> 1. 0 < i \<and> disk_store sample_platform 2 wal snap = Some (spec_run 2 (take i [?c]) (histories_of []))"
      using crash_loses_only_pending_records [OF sn sample_engine_inv sample_engine_simps(2) sample_platform_good _ _ run, of wal snap]
        that n by simp
    then obtain i where i: "i = 1" "disk_store sample_platform 2 wal snap = Some (spec_run 2 (take i [?c]) (histories_of []))"
      by force
    then show ?thesis using m by simp
  qed
  with sn run show ?thesis by blast
qed

text \<open>C3. \<open>set\<close> is atomic against power failures. From a durable state, wherever a crash or an error stops it, what
  the files open to is the map with the record or the map of a prefix of the log that lacks at most the
  pending records; with nothing pending, it is the old map or the new one. When it returns, the state is durable.\<close>

theorem set_is_crash_atomic:
  assumes "StorageEngine_set P key val duration now e s = (res, e', t)" and "durable_inv P e s rs"
    and "length key \<le> kMaxFieldSize" and "length val \<le> engine_kMaxFieldSize"
    and "crash_leaves t (m_walPath e) wal" and "crash_leaves t (m_snapshotPath e) snap"
  defines "after \<equiv> spec_put (m_maxHistoryPerKey e) key \<lparr>rec_value = val, rec_duration = duration, rec_timestamp = now\<rparr> (histories_of (m_data e))"
  shows "crash_outcome P e s rs after (disk_store P (m_maxHistoryPerKey e) wal snap) \<and>
    (at_risk e = 0 \<longrightarrow> disk_store P (m_maxHistoryPerKey e) wal snap \<in> {Some (histories_of (m_data e)), Some after}) \<and>
    (res = Inr () \<longrightarrow> (\<exists>r. durable_inv P e' t (rs @ [r])))"
proof -
  note d = durable_set [OF assms(1-4), folded after_def]
  then have out: "crash_outcome P e s rs after (disk_store P (m_maxHistoryPerKey e) wal snap)" using assms(5,6) by blast
  with crash_outcome_synced [OF out _ durable_engine [OF assms(2)]] d show ?thesis by blast
qed

theorem set_is_crash_atomic_witness:
  "\<exists>res e' t. StorageEngine_set sample_platform [107] [118] (Double 5) 7 sample_engine sample_os = (res, e', t) \<and>
    (\<forall>wal snap. crash_leaves t ''w'' wal \<and> crash_leaves t ''w.snap'' snap \<longrightarrow>
      disk_store sample_platform 2 wal snap \<in> {Some Map.empty,
        Some [[107] \<mapsto> [\<lparr>rec_value = [118], rec_duration = Double 5, rec_timestamp = 7\<rparr>]]})"
proof -
  obtain res e' t where st: "StorageEngine_set sample_platform [107] [118] (Double 5) 7 sample_engine sample_os = (res, e', t)"
    by (metis prod_cases3)
  have small: "length [107 :: 8 word] \<le> kMaxFieldSize" "length [118 :: 8 word] \<le> engine_kMaxFieldSize"
    by (simp_all add: kMaxFieldSize_def engine_kMaxFieldSize_def)
  note a = set_is_crash_atomic [OF st sample_durable small, simplified]
  have "disk_store sample_platform 2 wal snap \<in> {Some Map.empty,
        Some [[107] \<mapsto> [\<lparr>rec_value = [118], rec_duration = Double 5, rec_timestamp = 7\<rparr>]]}"
    if "crash_leaves t ''w'' wal" "crash_leaves t ''w.snap'' snap" for wal snap
  proof -
    have "at_risk sample_engine = 0" by (simp add: at_risk_def sample_wal_def)
    moreover have "histories_of [] = Map.empty" by (simp add: histories_of_def)
    ultimately show ?thesis using a [OF that] by (simp add: spec_put_def)
  qed
  with st show ?thesis by blast
qed

text \<open>The same for \<open>remove\<close>: atomic against power failures, and durable when it returns.\<close>

theorem remove_is_crash_atomic:
  assumes "StorageEngine_remove key now e s = (res, e', t)" and "durable_inv P e s rs" and "length key \<le> kMaxFieldSize"
    and "crash_leaves t (m_walPath e) wal" and "crash_leaves t (m_snapshotPath e) snap"
  shows "crash_outcome P e s rs (spec_remove key (histories_of (m_data e))) (disk_store P (m_maxHistoryPerKey e) wal snap) \<and>
    (at_risk e = 0 \<longrightarrow> disk_store P (m_maxHistoryPerKey e) wal snap \<in>
      {Some (histories_of (m_data e)), Some (spec_remove key (histories_of (m_data e)))}) \<and>
    (\<forall>found. res = Inr found \<longrightarrow> (\<exists>r. durable_inv P e' t (rs @ [r])))"
proof -
  note d = durable_remove [OF assms(1-3)]
  then have out: "crash_outcome P e s rs (spec_remove key (histories_of (m_data e))) (disk_store P (m_maxHistoryPerKey e) wal snap)"
    using assms(4,5) by blast
  with crash_outcome_synced [OF out _ durable_engine [OF assms(2)]] d show ?thesis by blast
qed

theorem remove_is_crash_atomic_witness:
  "\<exists>res e' t. StorageEngine_remove [107] 7 sample_engine sample_os = (res, e', t) \<and>
    (\<forall>wal snap. crash_leaves t ''w'' wal \<and> crash_leaves t ''w.snap'' snap \<longrightarrow>
      disk_store sample_platform 2 wal snap = Some Map.empty)"
proof -
  obtain res e' t where st: "StorageEngine_remove [107] 7 sample_engine sample_os = (res, e', t)" by (metis prod_cases3)
  have small: "length [107 :: 8 word] \<le> kMaxFieldSize" by (simp add: kMaxFieldSize_def)
  note a = remove_is_crash_atomic [OF st sample_durable small, simplified]
  have "disk_store sample_platform 2 wal snap = Some Map.empty"
    if "crash_leaves t ''w'' wal" "crash_leaves t ''w.snap'' snap" for wal snap
  proof -
    have "at_risk sample_engine = 0" by (simp add: at_risk_def sample_wal_def)
    moreover have "histories_of [] = Map.empty" by (simp add: histories_of_def)
    ultimately show ?thesis using a [OF that] by (simp add: spec_remove_def)
  qed
  with st show ?thesis by blast
qed

text \<open>C2. From a durable state, wherever a crash or an error stops \<open>snapshot\<close>, the files open to the live map or to the map of
  a prefix of the log that lacks at most the records that were not yet synced; with none of those, to the live map. The
  only other outcome is a log whose new header was cut off, and then the snapshot file holds the whole live map. When
  it returns, nothing can be lost any more: the state is durable and no record is at risk.\<close>

theorem snapshot_is_crash_atomic:
  assumes "StorageEngine_snapshot P e s = (res, e', t)" and "durable_inv P e s rs" and "m_wal e = Some w"
    and "good_platform P" and "image_fits (engine_image P e w)" and "m_epoch w < m_epoch w + 1"
    and "crash_leaves t (m_walPath e) wal" and "crash_leaves t (m_snapshotPath e) snap"
  shows "(crash_outcome P e s rs (histories_of (m_data e)) (disk_store P (m_maxHistoryPerKey e) wal snap) \<and>
      (at_risk e = 0 \<longrightarrow> disk_store P (m_maxHistoryPerKey e) wal snap = Some (histories_of (m_data e))) \<or>
      (\<exists>c. wal = Some c \<and> torn_header c \<and> image_of snap = Some (engine_image P e w))) \<and>
    (res = Inr () \<longrightarrow> durable_inv P e' t [] \<and> at_risk e' = 0)"
proof -
  note d = durable_snapshot [OF assms(1-6)]
  have "durable_inv P e' t [] \<Longrightarrow> at_risk e' = 0" by (simp add: durable_inv_def wal_synced_def at_risk_def)
  with d assms(7,8) crash_outcome_synced [OF _ _ durable_engine [OF assms(2)], of "histories_of (m_data e)"]
  show ?thesis by blast
qed

theorem snapshot_is_crash_atomic_witness:
  "\<exists>res e' t. StorageEngine_snapshot sample_platform sample_engine sample_os = (res, e', t) \<and>
    (\<forall>wal snap. crash_leaves t ''w'' wal \<and> crash_leaves t ''w.snap'' snap \<longrightarrow>
      disk_store sample_platform 2 wal snap = Some Map.empty \<or>
      (\<exists>c. wal = Some c \<and> torn_header c \<and> image_of snap = Some \<lparr>si_epoch = 0, si_state = []\<rparr>))"
proof -
  obtain res e' t where st: "StorageEngine_snapshot sample_platform sample_engine sample_os = (res, e', t)"
    by (metis prod_cases3)
  have "at_risk sample_engine = 0" by (simp add: at_risk_def sample_wal_def)
  moreover note snapshot_is_crash_atomic [OF st sample_durable sample_engine_simps(2) sample_platform_good]
  moreover have "histories_of [] = Map.empty" by (simp add: histories_of_def)
  ultimately show ?thesis using st by auto
qed

text \<open>C31. A snapshot that returns makes the engine durable, from whatever state of the caches: both names and both
  files are then on stable storage, and the log is empty.\<close>

theorem snapshot_establishes_durability:
  assumes "StorageEngine_snapshot P e s = (Inr (), e', t)" and "engine_inv P e s rs" and "m_wal e = Some w"
    and "good_platform P" and "image_fits (engine_image P e w)" and "m_epoch w < m_epoch w + 1" and "0 < m_syncEveryN w"
  shows "durable_inv P e' t [] \<and> m_data e' = m_data e \<and> file_of t (m_walPath e) = Some header_bytes"
  using snapshot_makes_durable [OF assms] StorageEngine_snapshot_any [OF assms(1-6)] by simp

theorem snapshot_establishes_durability_witness:
  "\<exists>e' t. StorageEngine_snapshot sample_platform sample_engine sample_os = (Inr (), e', t) \<and>
    durable_inv sample_platform e' t []"
proof -
  obtain res e' t where st: "StorageEngine_snapshot sample_platform sample_engine sample_os = (res, e', t)"
    by (metis prod_cases3)
  from StorageEngine_snapshot_any [OF st sample_engine_inv sample_engine_simps(2) sample_platform_good]
  have "res = Inr ()" by simp
  with st have st: "StorageEngine_snapshot sample_platform sample_engine sample_os = (Inr (), e', t)" by simp
  have n: "0 < m_syncEveryN sample_wal" by (simp add: sample_wal_def)
  from snapshot_establishes_durability [OF st sample_engine_inv sample_engine_simps(2) sample_platform_good _ _ n] st
  show ?thesis by auto
qed

section \<open>Single operations\<close>

text \<open>C24. \<open>set\<close> in any environment: oversized fields are rejected before anything happens; otherwise it either
  returns with the record in the live map and on disk, or throws with the live map unchanged, and in both cases
  the log, cut anywhere behind its old end, opens to the old map or to the new one.\<close>

theorem set_outcome:
  assumes "engine_inv P e s rs"
  shows "case StorageEngine_set P key val duration now e s of (res, e', t) \<Rightarrow>
    if length key > kMaxFieldSize \<or> length val > engine_kMaxFieldSize
    then (\<exists>m. res = Inl (Throws (length_error m))) \<and> e' = e \<and> t = s
    else write_outcome P e s rs
      (spec_put (m_maxHistoryPerKey e) key \<lparr>rec_value = val, rec_duration = duration, rec_timestamp = now\<rparr> (histories_of (m_data e)))
      (case res of Inl x \<Rightarrow> Some x | Inr _ \<Rightarrow> None) e' t"
proof -
  obtain res e' t where "StorageEngine_set P key val duration now e s = (res, e', t)" by (metis prod_cases3)
  with StorageEngine_set_any [OF this assms] show ?thesis by simp
qed

theorem set_outcome_witness:
  "case StorageEngine_set sample_platform [107] [118] (Double 5) 7 sample_engine sample_os of (res, e', t) \<Rightarrow>
    res = Inr () \<and> histories_of (m_data e') = [[107] \<mapsto> [\<lparr>rec_value = [118], rec_duration = Double 5, rec_timestamp = 7\<rparr>]]"
proof -
  obtain res e' t where st: "StorageEngine_set sample_platform [107] [118] (Double 5) 7 sample_engine sample_os = (res, e', t)"
    by (metis prod_cases3)
  have e: "histories_of [] = Map.empty" by (simp add: histories_of_def)
  from set_outcome [where P = sample_platform and key = "[107]" and val = "[118]" and duration = "Double 5" and now = 7,
      OF sample_engine_inv] st
  have "write_outcome sample_platform sample_engine sample_os [] [[107] \<mapsto> [\<lparr>rec_value = [118], rec_duration = Double 5, rec_timestamp = 7\<rparr>]]
      (case res of Inl x \<Rightarrow> Some x | Inr _ \<Rightarrow> None) e' t"
    by (simp add: kMaxFieldSize_def engine_kMaxFieldSize_def spec_put_def e)
  with st show ?thesis by (cases res) (simp_all add: write_outcome_def)
qed

text \<open>\<open>remove\<close> in any environment, likewise; when it returns, its result says whether the key was there.\<close>

theorem remove_outcome:
  assumes "engine_inv P e s rs"
  shows "case StorageEngine_remove key now e s of (res, e', t) \<Rightarrow>
    if length key > kMaxFieldSize then (\<exists>m. res = Inl (Throws (length_error m))) \<and> e' = e \<and> t = s
    else write_outcome P e s rs (spec_remove key (histories_of (m_data e))) (case res of Inl x \<Rightarrow> Some x | Inr _ \<Rightarrow> None) e' t \<and>
      (\<forall>found. res = Inr found \<longrightarrow> found = (histories_of (m_data e) key \<noteq> None))"
proof -
  obtain res e' t where "StorageEngine_remove key now e s = (res, e', t)" by (metis prod_cases3)
  with StorageEngine_remove_any [OF this assms] show ?thesis by simp
qed

theorem remove_outcome_witness:
  "case StorageEngine_remove [107] 7 sample_engine sample_os of (res, e', t) \<Rightarrow> res = Inr False"
proof -
  obtain res e' t where st: "StorageEngine_remove [107] 7 sample_engine sample_os = (res, e', t)" by (metis prod_cases3)
  from remove_outcome [where P = sample_platform and key = "[107]" and now = 7, OF sample_engine_inv] st
  show ?thesis by (cases res) (simp_all add: kMaxFieldSize_def write_outcome_def histories_of_def)
qed

text \<open>C23. \<open>snapshot\<close> in any environment: the live map never changes. When it returns, the snapshot file is the
  image of the map and the log is empty; when it throws, the files are still in order, or the new snapshot is
  in place while the log holds its old records or a prefix of a fresh header.\<close>

theorem snapshot_outcome:
  assumes "engine_inv P e s rs" and "m_wal e = Some w" and "good_platform P" and "image_fits (engine_image P e w)"
    and "m_epoch w < m_epoch w + 1"
  defines "new \<equiv> Some (snapshot_file (engine_image P e w))"
  shows "case StorageEngine_snapshot P e s of (res, e', t) \<Rightarrow>
    m_data e' = m_data e \<and> (kind s \<longrightarrow> res = Inr () \<and> kind t) \<and>
    (if res = Inr ()
     then engine_inv P e' t [] \<and> file_of t (m_snapshotPath e) = new \<and> file_of t (m_walPath e) = Some header_bytes
     else (\<exists>m. res = Inl (Throws (runtime_error m))) \<and>
       (engine_inv P e' t rs \<and> file_of t (m_walPath e) = file_of s (m_walPath e) \<and>
          file_of t (m_snapshotPath e) \<in> {file_of s (m_snapshotPath e), new} \<or>
        e' = e \<and> file_of t (m_walPath e) = file_of s (m_walPath e) \<and> file_of t (m_snapshotPath e) = new \<or>
        (\<exists>k \<le> 16. file_of t (m_walPath e) = Some (take k header_bytes)) \<and> file_of t (m_snapshotPath e) = new))"
proof -
  obtain res e' t where sn: "StorageEngine_snapshot P e s = (res, e', t)" by (metis prod_cases3)
  from StorageEngine_snapshot_any [OF sn assms(1-5)] show ?thesis unfolding sn prod.case new_def by blast
qed

theorem snapshot_outcome_witness:
  "case StorageEngine_snapshot sample_platform sample_engine sample_os of (res, e', t) \<Rightarrow>
    res = Inr () \<and> m_data e' = [] \<and> file_of t ''w'' = Some header_bytes"
proof -
  from snapshot_outcome [where P = sample_platform, OF sample_engine_inv sample_engine_simps(2) sample_platform_good]
  show ?thesis by (auto split: prod.splits)
qed

text \<open>What a client reads: after a \<open>set\<close> that returned, \<open>get\<close> gives the value that was set and the history
  has one record more, or is full; other keys read as before. This holds for an engine with and without a log.\<close>

theorem get_after_set:
  assumes "StorageEngine_set P key val duration now e s = (Inr (), e', t)" and "data_wf (m_maxHistoryPerKey e) (m_data e)"
  shows "StorageEngine_get e' key = Some val \<and>
    StorageEngine_historyCount e' key =
      (if m_maxHistoryPerKey e = 0 then StorageEngine_historyCount e key + 1
       else min (m_maxHistoryPerKey e) (StorageEngine_historyCount e key + 1)) \<and>
    (\<forall>k. k \<noteq> key \<longrightarrow> StorageEngine_get e' k = StorageEngine_get e k \<and>
      StorageEngine_historyCount e' k = StorageEngine_historyCount e k) \<and>
    data_wf (m_maxHistoryPerKey e) (m_data e')"
proof -
  let ?cap = "m_maxHistoryPerKey e" and ?r = "\<lparr>rec_value = val, rec_duration = duration, rec_timestamp = now\<rparr>"
  have d: "m_data e' = put_data ?cap key ?r (m_data e)"
    using assms(1) by (auto simp: StorageEngine_set_def Let_def appendCapped_put split: if_splits option.splits sum.splits prod.splits)
  have m: "map_of (m_data e') = spec_put ?cap key ?r (map_of (m_data e))"
    using histories_put [of ?cap key ?r "m_data e"] by (simp add: histories_of_def d)
  have "length h \<le> ?cap" if "map_of (m_data e) key = Some h" "?cap \<noteq> 0" for h
    using that assms(2) by (force simp: data_wf_def dest: map_of_SomeD)
  moreover have "data_wf ?cap (m_data e')" unfolding d by (rule data_wf_put [OF assms(2)])
  ultimately show ?thesis
    unfolding StorageEngine_get_def StorageEngine_historyCount_def m
    by (cases "map_of (m_data e) key") (auto simp: spec_put_def min_def)
qed

theorem get_after_set_witness:
  "\<exists>e' t. StorageEngine_set sample_platform [107] [118] (Double 5) 7 (makeInMemory 2) sample_os = (Inr (), e', t) \<and>
    StorageEngine_get e' [107] = Some [118] \<and> StorageEngine_historyCount e' [107] = 1"
proof -
  obtain e' t where st: "StorageEngine_set sample_platform [107] [118] (Double 5) 7 (makeInMemory 2) sample_os = (Inr (), e', t)"
    by (simp add: StorageEngine_set_def makeInMemory_def kMaxFieldSize_def engine_kMaxFieldSize_def)
  from get_after_set [OF st] st show ?thesis
    by (auto simp: makeInMemory_def StorageEngine_historyCount_def)
qed

text \<open>Without a log nothing touches the file system: \<open>set\<close> and \<open>remove\<close> are the operations of the abstract
  map, \<open>snapshot\<close> throws, and \<open>recover\<close> has undefined behaviour (it dereferences the null log).\<close>

theorem in_memory_engine_is_the_map:
  assumes "m_wal e = None" and "length key \<le> kMaxFieldSize" and "length val \<le> engine_kMaxFieldSize"
  shows "(case StorageEngine_set P key val duration now e s of (res, e', t) \<Rightarrow> res = Inr () \<and> t = s \<and> m_wal e' = None \<and>
      histories_of (m_data e') =
        spec_put (m_maxHistoryPerKey e) key \<lparr>rec_value = val, rec_duration = duration, rec_timestamp = now\<rparr> (histories_of (m_data e))) \<and>
    (case StorageEngine_remove key now e s of (res, e', t) \<Rightarrow> res = Inr (histories_of (m_data e) key \<noteq> None) \<and> t = s \<and>
      m_wal e' = None \<and> histories_of (m_data e') = spec_remove key (histories_of (m_data e))) \<and>
    (case StorageEngine_snapshot P e s of (res, e', t) \<Rightarrow> (\<exists>m. res = Inl (Throws (runtime_error m))) \<and> e' = e \<and> t = s) \<and>
    fst (StorageEngine_recover P e s) = Inl Undefined"
proof (intro conjI)
  show "case StorageEngine_set P key val duration now e s of (res, e', t) \<Rightarrow> res = Inr () \<and> t = s \<and> m_wal e' = None \<and>
      histories_of (m_data e') =
        spec_put (m_maxHistoryPerKey e) key \<lparr>rec_value = val, rec_duration = duration, rec_timestamp = now\<rparr> (histories_of (m_data e))"
    using assms by (simp add: StorageEngine_set_def appendCapped_put histories_put)
  have "(map_of (m_data e) key \<noteq> None) = (histories_of (m_data e) key \<noteq> None)" by (simp add: histories_of_def)
  then show "case StorageEngine_remove key now e s of (res, e', t) \<Rightarrow> res = Inr (histories_of (m_data e) key \<noteq> None) \<and> t = s \<and>
      m_wal e' = None \<and> histories_of (m_data e') = spec_remove key (histories_of (m_data e))"
    using assms(1) by (simp add: StorageEngine_remove_def Let_def histories_erase)
  show "case StorageEngine_snapshot P e s of (res, e', t) \<Rightarrow> (\<exists>m. res = Inl (Throws (runtime_error m))) \<and> e' = e \<and> t = s"
    using assms(1) by (simp add: StorageEngine_snapshot_def)
  show "fst (StorageEngine_recover P e s) = Inl Undefined"
    using assms(1) by (auto simp: StorageEngine_recover_def Let_def split: prod.splits if_splits)
qed

theorem in_memory_engine_is_the_map_witness:
  "case StorageEngine_set sample_platform [107] [118] (Double 5) 7 (makeInMemory 2) sample_os of (res, e', t) \<Rightarrow>
    res = Inr () \<and> t = sample_os \<and> m_wal e' = None \<and>
    histories_of (m_data e') = [[107] \<mapsto> [\<lparr>rec_value = [118], rec_duration = Double 5, rec_timestamp = 7\<rparr>]]"
  using in_memory_engine_is_the_map [where e = "makeInMemory 2" and key = "[107]" and val = "[118]" and P = sample_platform
      and duration = "Double 5" and now = 7 and s = sample_os]
  by (simp add: makeInMemory_def kMaxFieldSize_def engine_kMaxFieldSize_def spec_put_def histories_of_def)

text \<open>C32. No operation ever leaves an empty history, a history longer than the cap, or a key twice in the map,
  whatever fails during it: not \<open>set\<close>, not \<open>remove\<close>, not \<open>snapshot\<close>, and not \<open>recover\<close> on arbitrary files.\<close>

theorem histories_stay_capped:
  assumes "data_wf (m_maxHistoryPerKey e) (m_data e)"
  shows "data_wf (m_maxHistoryPerKey e) (m_data (fst (snd (StorageEngine_set P key val duration now e s)))) \<and>
    data_wf (m_maxHistoryPerKey e) (m_data (fst (snd (StorageEngine_remove key now e s)))) \<and>
    data_wf (m_maxHistoryPerKey e) (m_data (fst (snd (StorageEngine_snapshot P e s)))) \<and>
    data_wf (m_maxHistoryPerKey e) (m_data (fst (snd (StorageEngine_recover P e s))))"
proof (intro conjI)
  let ?cap = "m_maxHistoryPerKey e"
  show "data_wf ?cap (m_data (fst (snd (StorageEngine_set P key val duration now e s))))"
    using assms data_wf_put
    by (auto simp: StorageEngine_set_def Let_def appendCapped_put split: option.splits sum.splits prod.splits)
  show "data_wf ?cap (m_data (fst (snd (StorageEngine_remove key now e s))))"
    using assms data_wf_delete by (auto simp: StorageEngine_remove_def Let_def split: option.splits sum.splits prod.splits)
  show "data_wf ?cap (m_data (fst (snd (StorageEngine_snapshot P e s))))"
    using assms by (auto simp: StorageEngine_snapshot_def Let_def split: option.splits sum.splits prod.splits)
  have log: "data_wf ?cap data'" if "WAL_recover (recover_visitor P ?cap) m data w s = (r, data', w', t)" "data_wf ?cap data"
    for m data w s r data' w' t
  proof -
    obtain vs en where "file_scan (fcontent s (m_fd w)) = (vs, en)" by fastforce
    from WAL_recover_any [OF that(1) this] that(2) show ?thesis by (auto intro: replay_wf)
  qed
  show "data_wf ?cap (m_data (fst (snd (StorageEngine_recover P e s))))"
    by (auto simp: StorageEngine_recover_def Let_def restore_wf intro: log split: option.splits prod.splits)
qed

theorem histories_stay_capped_witness:
  "data_wf 2 (m_data (fst (snd (StorageEngine_set sample_platform [107] [118] (Double 5) 7 sample_engine sample_os))))"
  using histories_stay_capped [where e = sample_engine and P = sample_platform and key = "[107]" and val = "[118]"
      and duration = "Double 5" and now = 7 and s = sample_os] by simp

end
