(* ===== verification/Binary64.thy ===== *)
theory Binary64
  imports Endian
begin

text \<open>
  The arithmetic the store does on a \<open>double\<close>, IEEE 754 binary64 with rounding to nearest, ties to even: addition,
  division, and the conversions from integers. A finite double is a multiple of 2 to the -1074, so values are
  integers in that unit, and \<open>round_bits\<close> rounds an exact quotient of two of them. The payload of a NaN result is
  left open by the standard; there is one here.
\<close>

section \<open>Fields and values\<close>

definition d_sign :: "double \<Rightarrow> bool" where
  "d_sign d \<longleftrightarrow> 2 ^ 63 \<le> unat (bits_of d)"

definition d_exponent :: "double \<Rightarrow> nat" where
  "d_exponent d = unat (bits_of d) div 2 ^ 52 mod 2 ^ 11"

definition d_fraction :: "double \<Rightarrow> nat" where
  "d_fraction d = unat (bits_of d) mod 2 ^ 52"

definition is_nan :: "double \<Rightarrow> bool" where
  "is_nan d \<longleftrightarrow> d_exponent d = 2047 \<and> d_fraction d \<noteq> 0"

definition is_inf :: "double \<Rightarrow> bool" where
  "is_inf d \<longleftrightarrow> d_exponent d = 2047 \<and> d_fraction d = 0"

definition is_finite :: "double \<Rightarrow> bool" where
  "is_finite d \<longleftrightarrow> d_exponent d < 2047"

text \<open>The magnitude of a finite double from its lower 63 bits, in units of 2 to the -1074.\<close>

definition units :: "nat \<Rightarrow> nat" where
  "units n = (if n < 2 ^ 52 then n else (2 ^ 52 + n mod 2 ^ 52) * 2 ^ (n div 2 ^ 52 - 1))"

definition magnitude :: "double \<Rightarrow> nat" where
  "magnitude d = units (unat (bits_of d) mod 2 ^ 63)"

definition signed_units :: "double \<Rightarrow> int" where
  "signed_units d = (if d_sign d then - int (magnitude d) else int (magnitude d))"

definition inf_bits :: nat where "inf_bits = 2047 * 2 ^ 52"

text \<open>The units in 1.\<close>

definition one_units :: nat where "one_units = 2 ^ 1074"

lemma one_units_pos [simp]: "0 < one_units" "one_units \<noteq> 0"
  by (simp_all add: one_units_def)

definition make_double :: "bool \<Rightarrow> nat \<Rightarrow> double" where
  "make_double s n = Double (of_nat (if s then 2 ^ 63 + n else n))"

definition nan_double :: double where
  "nan_double = make_double False (inf_bits + 2 ^ 51)"

section \<open>Rounding\<close>

fun bit_length :: "nat \<Rightarrow> nat" where
  "bit_length n = (if n = 0 then 0 else Suc (bit_length (n div 2)))"

declare bit_length.simps [simp del]

text \<open>The integer nearest to \<open>num / den\<close>, ties to even.\<close>

definition round_even :: "nat \<Rightarrow> nat \<Rightarrow> nat" where
  "round_even num den =
    (let q = num div den; r = num mod den in if 2 * r > den \<or> 2 * r = den \<and> odd q then q + 1 else q)"

lemma round_even_exact: "0 < den \<Longrightarrow> round_even (n * den) den = n"
  by (simp add: round_even_def Let_def)

text \<open>The lower 63 bits of the double nearest to \<open>num / den\<close> units.\<close>

definition round_bits :: "nat \<Rightarrow> nat \<Rightarrow> nat" where
  "round_bits num den =
    (let k = bit_length (num div den) - 53
     in min (k * 2 ^ 52 + round_even num (den * 2 ^ k)) inf_bits)"

section \<open>Operations\<close>

definition double_add :: "double \<Rightarrow> double \<Rightarrow> double" where
  "double_add a b =
    (if is_nan a \<or> is_nan b \<or> is_inf a \<and> is_inf b \<and> d_sign a \<noteq> d_sign b then nan_double
     else if is_inf a then a
     else if is_inf b then b
     else let z = signed_units a + signed_units b
       in if z = 0 then make_double (d_sign a \<and> d_sign b) 0
          else make_double (z < 0) (round_bits (nat \<bar>z\<bar>) 1))"

definition double_div :: "double \<Rightarrow> double \<Rightarrow> double" where
  "double_div a b =
    (let s = (d_sign a \<noteq> d_sign b)
     in if is_nan a \<or> is_nan b \<or> is_inf a \<and> is_inf b \<or> magnitude a = 0 \<and> magnitude b = 0 then nan_double
        else if is_inf a \<or> magnitude b = 0 then make_double s inf_bits
        else if is_inf b then make_double s 0
        else make_double s (round_bits (magnitude a * one_units) (magnitude b)))"

definition double_of_nat :: "nat \<Rightarrow> double" where
  "double_of_nat n = make_double False (round_bits (n * one_units) 1)"

definition double_of_int :: "int \<Rightarrow> double" where
  "double_of_int z = make_double (z < 0) (round_bits (nat \<bar>z\<bar> * one_units) 1)"

section \<open>Fields of a result\<close>

lemma make_double_fields:
  assumes "n < 2 ^ 63"
  shows "d_sign (make_double s n) = s" "d_exponent (make_double s n) = n div 2 ^ 52"
    "d_fraction (make_double s n) = n mod 2 ^ 52" "magnitude (make_double s n) = units n"
proof -
  have u: "unat (bits_of (make_double s n)) = (if s then 2 ^ 63 + n else n)"
    using assms by (simp add: make_double_def unat_of_nat)
  show "d_sign (make_double s n) = s" using assms u by (simp add: d_sign_def)
  have "n div 2 ^ 52 < 2 ^ 11" using assms by (simp add: div_less_iff_less_mult)
  moreover have "(2 ^ 63 + n) div 2 ^ 52 = 2 ^ 11 + n div 2 ^ 52" by simp
  ultimately show "d_exponent (make_double s n) = n div 2 ^ 52" unfolding d_exponent_def u by simp
  have "(2 ^ 52 * 2 ^ 11 + n) mod 2 ^ 52 = n mod 2 ^ 52" by (rule mod_mult_self4)
  then have "(2 ^ 63 + n) mod 2 ^ 52 = n mod 2 ^ 52" by simp
  then show "d_fraction (make_double s n) = n mod 2 ^ 52" unfolding d_fraction_def u by simp
  show "magnitude (make_double s n) = units n" unfolding magnitude_def u using assms by simp
qed

lemma make_double_finite: "n < inf_bits \<Longrightarrow> is_finite (make_double s n)"
  using make_double_fields(2) [of n s] by (simp add: is_finite_def inf_bits_def div_less_iff_less_mult)

lemma finite_bits: "is_finite d \<Longrightarrow> unat (bits_of d) mod 2 ^ 63 < inf_bits"
proof -
  let ?N = "unat (bits_of d)"
  assume "is_finite d"
  then have "?N div 2 ^ 52 mod 2 ^ 11 < 2047" by (simp add: is_finite_def d_exponent_def)
  moreover have "?N mod 2 ^ 63 div 2 ^ 52 = ?N div 2 ^ 52 mod 2 ^ 11"
    using mod_mult2_eq [of ?N "2 ^ 52" "2 ^ 11"] by simp
  ultimately show ?thesis by (simp add: inf_bits_def div_less_iff_less_mult)
qed

lemma finite_not: "is_finite d \<Longrightarrow> \<not> is_nan d \<and> \<not> is_inf d"
  by (simp add: is_finite_def is_nan_def is_inf_def)

lemma nan_double [simp]: "is_nan nan_double"
  using make_double_fields [of "inf_bits + 2 ^ 51" False] by (simp add: nan_double_def is_nan_def inf_bits_def)

section \<open>Correct rounding\<close>

lemma bit_length_bounds: "0 < n \<Longrightarrow> 2 ^ (bit_length n - 1) \<le> n \<and> n < 2 ^ bit_length n \<and> 0 < bit_length n"
proof (induction n rule: bit_length.induct)
  case (1 n)
  show ?case
  proof (cases "n div 2 = 0")
    case True
    with 1 have "n = 1" by simp
    then show ?thesis by (simp add: bit_length.simps)
  next
    case False
    let ?b = "bit_length (n div 2)"
    from 1 False have ih: "2 ^ (?b - 1) \<le> n div 2" "n div 2 < 2 ^ ?b" "0 < ?b" by auto
    have "bit_length n = Suc ?b" using 1 by (subst bit_length.simps) simp
    moreover have "(2 :: nat) ^ ?b = 2 * 2 ^ (?b - 1)" using ih(3) by (cases ?b) simp_all
    then have "(2 :: nat) ^ ?b \<le> n" using ih(1) by linarith
    moreover have "n < 2 * 2 ^ ?b" using ih(2) by linarith
    ultimately show ?thesis by simp
  qed
qed

text \<open>The units of the bits that rounding puts together.\<close>

lemma units_scaled:
  assumes "k = 0 \<or> 2 ^ 52 \<le> q" and "q \<le> 2 ^ 53"
  shows "units (k * 2 ^ 52 + q) = q * 2 ^ k"
proof -
  consider "k = 0" "q < 2 ^ 52" | "2 ^ 52 \<le> q" "q < 2 ^ 53" | "q = 2 ^ 53" using assms by linarith
  then show ?thesis
  proof cases
    case 2
    then have "(k * 2 ^ 52 + q) div 2 ^ 52 = k + 1" "(k * 2 ^ 52 + q) mod 2 ^ 52 = q - 2 ^ 52"
      by (simp_all add: div_nat_eqI mod_nat_eqI)
    with 2 show ?thesis by (simp add: units_def)
  next
    case 3
    then have "(k * 2 ^ 52 + q) div 2 ^ 52 = k + 2" "(k * 2 ^ 52 + q) mod 2 ^ 52 = 0" by simp_all
    with 3 show ?thesis by (simp add: units_def)
  qed (simp add: units_def)
qed

lemma bit_length_eq:
  assumes "2 ^ b \<le> n" and "n < 2 ^ Suc b"
  shows "bit_length n = Suc b"
proof -
  have "0 < n" using assms(1) by (metis gr0I le_zero_eq power_eq_0_iff zero_neq_numeral)
  note l = bit_length_bounds [OF this]
  have "(2 :: nat) ^ (bit_length n - 1) < 2 ^ Suc b" "(2 :: nat) ^ b < 2 ^ bit_length n" using l assms by linarith+
  then have "bit_length n - 1 < Suc b" "b < bit_length n" by (simp_all only: power_strict_increasing_iff one_less_numeral_iff semiring_norm)
  then show ?thesis by linarith
qed

lemma bit_length_small: "n < 2 ^ b \<Longrightarrow> bit_length n \<le> b"
proof (cases "n = 0")
  case False
  assume "n < 2 ^ b"
  moreover note l = bit_length_bounds [of n]
  ultimately have "(2 :: nat) ^ (bit_length n - 1) < 2 ^ b" "0 < bit_length n" using False by linarith+
  then have "bit_length n - 1 < b" by (simp only: power_strict_increasing_iff one_less_numeral_iff semiring_norm)
  then show ?thesis by linarith
qed (simp add: bit_length.simps)

text \<open>The quotient that is kept has 53 bits, or fewer when nothing is cut off.\<close>

lemma kept_bits:
  fixes q0 :: nat
  defines "k \<equiv> bit_length q0 - 53"
  shows "q0 div 2 ^ k < 2 ^ 53 \<and> (k = 0 \<or> 2 ^ 52 \<le> q0 div 2 ^ k)"
proof (cases "k = 0")
  case True
  then have "bit_length q0 \<le> 53" by (simp add: k_def)
  then have "q0 < 2 ^ 53"
  proof (cases "q0 = 0")
    case False
    then have "q0 < 2 ^ bit_length q0" using bit_length_bounds [of q0] by simp
    also have "(2 :: nat) ^ bit_length q0 \<le> 2 ^ 53" using \<open>bit_length q0 \<le> 53\<close> by (intro power_increasing) simp_all
    finally show ?thesis .
  qed simp
  with True show ?thesis by simp
next
  case False
  then have b: "bit_length q0 = k + 53" by (simp add: k_def)
  then have "q0 \<noteq> 0" by (intro notI) (simp add: bit_length.simps [of 0])
  have "2 ^ (k + 52) \<le> q0" "q0 < 2 ^ (k + 53)" using bit_length_bounds [of q0] b \<open>q0 \<noteq> 0\<close> by (simp_all add: add.commute)
  then show ?thesis by (simp add: less_eq_div_iff_mult_less_eq div_less_iff_less_mult power_add mult.commute)
qed

lemma units_multiple:
  assumes "k = 0 \<or> 2 ^ (52 + k) \<le> units m"
  shows "2 ^ k dvd units m"
proof (cases "k = 0")
  case False
  let ?E = "m div 2 ^ 52"
  from False assms have ge: "2 ^ (52 + k) \<le> units m" by simp
  moreover have "m < 2 ^ (52 + k)" if "m < 2 ^ 52"
    using that power_increasing [of 52 "52 + k" "2 :: nat"] by linarith
  ultimately have u: "units m = (2 ^ 52 + m mod 2 ^ 52) * 2 ^ (?E - 1)" by (auto simp: units_def split: if_splits)
  have "2 ^ 52 + m mod 2 ^ 52 < (2 :: nat) ^ 53" using mod_less_divisor [of "2 ^ 52" m] by simp
  then have "units m < 2 ^ 53 * 2 ^ (?E - 1)" unfolding u by (intro mult_strict_right_mono) simp_all
  with ge have "(2 :: nat) ^ (52 + k) < 2 ^ (53 + (?E - 1))" unfolding power_add by linarith
  then have "52 + k < 53 + (?E - 1)" by (simp only: power_strict_increasing_iff one_less_numeral_iff semiring_norm)
  then have "2 ^ k dvd (2 :: nat) ^ (?E - 1)" by (intro le_imp_power_dvd) linarith
  then show ?thesis unfolding u by (rule dvd_mult)
qed simp

lemma nearest_multiple:
  fixes q r d :: nat
  assumes "r < d" and "q' = (if 2 * r > d \<or> 2 * r = d \<and> odd q then q + 1 else q)"
  shows "\<bar>int (q' * d) - int (q * d + r)\<bar> \<le> \<bar>int (j * d) - int (q * d + r)\<bar>"
    and "\<bar>int (q' * d) - int (q * d + r)\<bar> \<le> int r"
proof -
  have own: "\<bar>int (q' * d) - int (q * d + r)\<bar> \<le> int r \<and> \<bar>int (q' * d) - int (q * d + r)\<bar> \<le> int d - int r"
    using assms by (auto simp: algebra_simps split: if_splits)
  then show "\<bar>int (q' * d) - int (q * d + r)\<bar> \<le> int r" by blast
  show "\<bar>int (q' * d) - int (q * d + r)\<bar> \<le> \<bar>int (j * d) - int (q * d + r)\<bar>"
  proof (cases "j \<le> q")
    case True
    then have "j * d \<le> q * d" by simp
    then have "int r \<le> \<bar>int (j * d) - int (q * d + r)\<bar>" by linarith
    with own show ?thesis by linarith
  next
    case False
    then have "(q + 1) * d \<le> j * d" by (intro mult_right_mono) simp_all
    then have "q * d + d \<le> j * d" by simp
    then have "int d - int r \<le> \<bar>int (j * d) - int (q * d + r)\<bar>" by linarith
    with own show ?thesis by linarith
  qed
qed

text \<open>No double is nearer to the quotient than the one \<open>round_bits\<close> returns.\<close>

theorem round_bits_nearest:
  assumes "0 < den" and "round_bits num den < inf_bits" and "m < inf_bits"
  shows "\<bar>int (den * units (round_bits num den)) - int num\<bar> \<le> \<bar>int (den * units m) - int num\<bar>"
proof -
  define q0 where "q0 = num div den"
  define k where "k = bit_length q0 - 53"
  define d where "d = den * 2 ^ k"
  define q where "q = num div d"
  define r where "r = num mod d"
  define q' where "q' = (if 2 * r > d \<or> 2 * r = d \<and> odd q then q + 1 else q)"
  have q: "q = q0 div 2 ^ k" by (simp add: q_def d_def q0_def div_mult2_eq)
  note kept = kept_bits [of q0, folded k_def, folded q]
  have dp: "0 < d" using assms(1) by (simp add: d_def)
  have num: "num = q * d + r" by (simp add: q_def r_def)
  have rd: "r < d" using dp by (simp add: r_def)
  have "round_bits num den = min (k * 2 ^ 52 + q') inf_bits"
    unfolding round_bits_def round_even_def Let_def q'_def q_def r_def d_def k_def q0_def ..
  with assms(2) have n: "round_bits num den = k * 2 ^ 52 + q'" by simp
  have "k = 0 \<or> 2 ^ 52 \<le> q'" "q' \<le> 2 ^ 53" using kept by (auto simp: q'_def)
  from units_scaled [OF this] have u: "den * units (round_bits num den) = q' * d" unfolding n by (simp add: d_def)
  note near = nearest_multiple [OF rd q'_def, folded num]
  show ?thesis
  proof (cases "k = 0 \<or> 2 ^ (52 + k) \<le> units m")
    case True
    then obtain j where "units m = 2 ^ k * j" using units_multiple by blast
    then have "den * units m = j * d" by (simp add: d_def)
    with near(1) [of j] u show ?thesis by simp
  next
    case False
    then have "units m < 2 ^ 52 * 2 ^ k" "2 ^ 52 \<le> q" using kept by (simp_all add: power_add)
    then have "units m \<le> q * 2 ^ k" by (meson le_trans less_imp_le mult_le_mono1)
    then have "den * units m \<le> q * d" unfolding d_def by (metis mult.left_commute mult_le_mono2)
    then have "int r \<le> \<bar>int (den * units m) - int num\<bar>" unfolding num by linarith
    with near(2) u show ?thesis by simp
  qed
qed

text \<open>A value that a double has is not changed.\<close>

theorem round_bits_exact:
  assumes "0 < den" and "m < inf_bits"
  shows "round_bits (den * units m) den = m"
proof (cases "m < 2 ^ 52")
  case True
  then have "bit_length m \<le> 53" by (intro bit_length_small) simp
  with True assms show ?thesis by (simp add: round_bits_def round_even_def units_def Let_def)
next
  case False
  define E where "E = m div 2 ^ 52"
  define F where "F = m mod 2 ^ 52"
  have m: "m = E * 2 ^ 52 + F" by (simp add: E_def F_def)
  have E: "0 < E" using False by (simp add: E_def div_greater_zero_iff)
  have F: "F < 2 ^ 52" by (simp add: F_def)
  have u: "units m = (2 ^ 52 + F) * 2 ^ (E - 1)" using False by (simp add: units_def E_def F_def)
  have "bit_length (units m) = Suc (52 + (E - 1))"
  proof (rule bit_length_eq)
    show "2 ^ (52 + (E - 1)) \<le> units m" unfolding u power_add by (rule mult_right_mono) simp_all
    have "units m < 2 ^ 53 * 2 ^ (E - 1)" unfolding u using F by (intro mult_strict_right_mono) simp_all
    then show "units m < 2 ^ Suc (52 + (E - 1))" by (simp add: power_add)
  qed
  then have k: "bit_length (den * units m div den) - 53 = E - 1" using assms(1) by simp
  have dvd: "den * units m = (2 ^ 52 + F) * (den * 2 ^ (E - 1))" unfolding u by simp
  have "0 < den * 2 ^ (E - 1)" using assms(1) by simp
  then have "den * units m div (den * 2 ^ (E - 1)) = 2 ^ 52 + F" "den * units m mod (den * 2 ^ (E - 1)) = 0"
    unfolding dvd by simp_all
  moreover have "(E - 1) * 2 ^ 52 + (2 ^ 52 + F) = m" unfolding m using E by (cases E) simp_all
  ultimately show ?thesis unfolding round_bits_def round_even_def k Let_def using assms E by simp
qed

end
