(* ===== verification/Engine_Average.thy ===== *)
theory Engine_Average
  imports Engine Binary64
begin

text \<open>
  \<open>StorageEngine::getAverage\<close>, in the arithmetic of the theory \<open>Binary64\<close>: the durations of a key are added in
  the order of its history and divided by their number.
\<close>

definition StorageEngine_getAverage :: "StorageEngine \<Rightarrow> bytes \<Rightarrow> double option" where
  "StorageEngine_getAverage e key =
    (case map_of (m_data e) key of
       None \<Rightarrow> None
     | Some history \<Rightarrow>
         if history \<noteq> []
         then (let sum = foldl (\<lambda>acc r. double_add acc (rec_duration r)) (Double 0) history
               in Some (double_div sum (double_of_nat (length history))))
         else None)"

section \<open>Natural numbers as doubles\<close>

definition holds_nat :: "double \<Rightarrow> nat \<Rightarrow> bool" where
  "holds_nat d n \<longleftrightarrow> is_finite d \<and> \<not> d_sign d \<and> magnitude d = n * one_units"

lemma units_nat_power:
  assumes "n \<le> 2 ^ 53"
  shows "\<exists>x < inf_bits. units x = n * 2 ^ 1074"
proof -
  consider "n = 0" | "n = 2 ^ 53" | "0 < n" "n < 2 ^ 53" using assms by linarith
  then show ?thesis
  proof cases
    case 1
    then show ?thesis by (intro exI [of _ 0]) (simp add: units_def inf_bits_def)
  next
    case 2
    then show ?thesis using units_scaled [of 1074 "2 ^ 53"]
      by (intro exI [of _ "1074 * 2 ^ 52 + 2 ^ 53"]) (simp only: inf_bits_def, simp)
  next
    case 3
    define b where "b = bit_length n"
    note l = bit_length_bounds [OF 3(1), folded b_def]
    have b: "0 < b" "b \<le> 53" using l bit_length_small [OF 3(2)] by (simp_all add: b_def)
    let ?q = "n * 2 ^ (53 - b)" and ?k = "1074 - (53 - b)"
    have "2 ^ (b - 1) * 2 ^ (53 - b) \<le> ?q" "?q < 2 ^ b * 2 ^ (53 - b)" using l by simp_all
    then have q: "2 ^ 52 \<le> ?q" "?q < 2 ^ 53" using b by (simp_all add: power_add [symmetric])
    have "units (?k * 2 ^ 52 + ?q) = ?q * 2 ^ ?k" using q by (intro units_scaled) simp_all
    also have "\<dots> = n * 2 ^ ((53 - b) + ?k)" by (simp only: power_add mult.assoc)
    also have "(53 - b) + ?k = 1074" using b by simp
    finally have "units (?k * 2 ^ 52 + ?q) = n * 2 ^ 1074" .
    moreover have "?k * 2 ^ 52 + ?q < inf_bits"
    proof -
      have "?k * 2 ^ 52 \<le> 1074 * 2 ^ 52" by (intro mult_right_mono) simp_all
      moreover have "(1074 :: nat) * 2 ^ 52 + 2 ^ 53 < 2047 * 2 ^ 52" by simp
      ultimately show ?thesis using q(2) unfolding inf_bits_def by linarith
    qed
    ultimately show ?thesis by blast
  qed
qed

lemmas units_nat = units_nat_power [folded one_units_def]

lemma inf_bits_63: "x < inf_bits \<Longrightarrow> x < 2 ^ 63"
  by (simp add: inf_bits_def)

lemma make_double_units: "x < inf_bits \<Longrightarrow> units x = n * one_units \<Longrightarrow> holds_nat (make_double False x) n"
  using make_double_fields [OF inf_bits_63, of x False] make_double_finite by (simp add: holds_nat_def)

lemma round_nat: "n \<le> 2 ^ 53 \<Longrightarrow> holds_nat (make_double False (round_bits (n * one_units) 1)) n"
proof -
  assume "n \<le> 2 ^ 53"
  from units_nat [OF this] obtain x where x: "x < inf_bits" "units x = n * one_units" by blast
  have "round_bits (n * one_units) 1 = x" using round_bits_exact [of 1 x] x by simp
  with make_double_units [OF x] show ?thesis by simp
qed

lemma holds_nat_of_nat: "n \<le> 2 ^ 53 \<Longrightarrow> holds_nat (double_of_nat n) n"
  unfolding double_of_nat_def by (rule round_nat)

lemma holds_nat_zero: "holds_nat (Double 0) 0"
  by (simp add: holds_nat_def is_finite_def d_exponent_def d_sign_def magnitude_def units_def)

text \<open>Sums of natural numbers are exact up to 2 to the 53.\<close>

lemma holds_nat_add:
  assumes "holds_nat a m" and "holds_nat b n" and "m + n \<le> 2 ^ 53"
  shows "holds_nat (double_add a b) (m + n)"
proof -
  have z: "signed_units a + signed_units b = int ((m + n) * one_units)"
    using assms(1,2) by (simp add: holds_nat_def signed_units_def algebra_simps)
  have nn: "\<not> is_nan a" "\<not> is_nan b" "\<not> is_inf a" "\<not> is_inf b" "\<not> d_sign a"
    using assms(1,2) finite_not by (auto simp: holds_nat_def)
  have zero: "int ((m + n) * one_units) = 0 \<longleftrightarrow> m + n = 0" by (simp only: of_nat_eq_0_iff mult_eq_0_iff one_units_pos simp_thms)
  show ?thesis
  proof (cases "m + n = 0")
    case True
    then have "double_add a b = make_double False 0" using nn z unfolding double_add_def Let_def z by simp
    moreover have "holds_nat (make_double False 0) 0" by (rule make_double_units) (simp_all add: units_def inf_bits_def)
    ultimately show ?thesis using True by simp
  next
    case False
    have "double_add a b = make_double False (round_bits ((m + n) * one_units) 1)"
      using nn zero False unfolding double_add_def Let_def z
      by (simp only: simp_thms if_False abs_of_nat nat_int of_nat_less_0_iff)
    with round_nat [OF assms(3)] show ?thesis by simp
  qed
qed

lemma holds_nat_sum:
  "list_all2 (\<lambda>r n. holds_nat (rec_duration r) n) h ns \<Longrightarrow> holds_nat acc m \<Longrightarrow> m + sum_list ns \<le> 2 ^ 53 \<Longrightarrow>
    holds_nat (foldl (\<lambda>acc r. double_add acc (rec_duration r)) acc h) (m + sum_list ns)"
proof (induction h ns arbitrary: acc m rule: list_all2_induct)
  case (Cons r h n ns)
  have "holds_nat (double_add acc (rec_duration r)) (m + n)"
    using Cons.prems Cons.hyps by (intro holds_nat_add) simp_all
  with Cons.IH [of "double_add acc (rec_duration r)" "m + n"] Cons.prems show ?case by (simp add: add.assoc)
qed simp

section \<open>Quotients\<close>

lemma round_bits_small:
  assumes "num div den < 2 ^ b" and "b \<le> 2097"
  shows "round_bits num den < inf_bits"
proof -
  define k where "k = bit_length (num div den) - 53"
  have "k \<le> 2044" using bit_length_small [OF assms(1)] assms(2) by (simp add: k_def)
  then have kb: "k * 2 ^ 52 \<le> 2044 * 2 ^ 52" by (intro mult_right_mono) simp_all
  define q where "q = num div (den * 2 ^ k)"
  have "q < 2 ^ 53" using kept_bits [of "num div den", folded k_def] by (simp add: q_def div_mult2_eq)
  then have "k * 2 ^ 52 + (if c then q + 1 else q) < inf_bits" for c using kb by (simp add: inf_bits_def)
  then show ?thesis unfolding round_bits_def round_even_def Let_def k_def [symmetric] q_def [symmetric] by (simp add: min_less_iff_disj)
qed

text \<open>The quotient of two natural numbers is the double nearest to it.\<close>

lemma holds_nat_div:
  assumes "holds_nat a m" and "holds_nat b n" and "0 < n" and "m \<le> 2 ^ 53"
  shows "\<exists>x < inf_bits. double_div a b = make_double False x \<and> x = round_bits (m * one_units * one_units) (n * one_units)"
proof -
  have "double_div a b = make_double False (round_bits (m * one_units * one_units) (n * one_units))"
    using assms finite_not [of a] finite_not [of b] by (simp add: double_div_def holds_nat_def Let_def)
  moreover have "round_bits (m * one_units * one_units) (n * one_units) < inf_bits"
  proof (rule round_bits_small)
    have "m * one_units * one_units div (n * one_units) = m * one_units div n" by simp
    also have "\<dots> \<le> m * one_units" by (rule div_le_dividend)
    also have "\<dots> \<le> 2 ^ 53 * one_units" using assms(4) by (rule mult_right_mono) simp
    also have "\<dots> < 2 ^ 1128" by (simp only: one_units_def power_add [symmetric]) (rule power_strict_increasing, simp_all)
    finally show "m * one_units * one_units div (n * one_units) < 2 ^ 1128" .
  qed simp
  ultimately show ?thesis by blast
qed

lemma nearest_quotient:
  assumes "0 < n" and "x = round_bits (m * one_units * one_units) (n * one_units)" and "x < inf_bits" and "is_finite d'"
  shows "\<bar>int n * int (units x) - int m * int one_units\<bar> \<le> \<bar>int n * signed_units d' - int m * int one_units\<bar>"
proof -
  let ?s = "int one_units"
  have near: "\<bar>int n * int (units x) - int m * ?s\<bar> \<le> \<bar>int n * int (units y) - int m * ?s\<bar>" if "y < inf_bits" for y
  proof -
    have "\<bar>int (n * one_units * units x) - int (m * one_units * one_units)\<bar> \<le>
        \<bar>int (n * one_units * units y) - int (m * one_units * one_units)\<bar>"
      using round_bits_nearest [OF _ _ that, of "n * one_units" "m * one_units * one_units"] assms(1-3) by simp
    moreover have "\<bar>int (n * one_units * units z) - int (m * one_units * one_units)\<bar> = ?s * \<bar>int n * int (units z) - int m * ?s\<bar>" for z
    proof -
      have "int (n * one_units * units z) - int (m * one_units * one_units) = ?s * (int n * int (units z) - int m * ?s)"
        by (simp add: algebra_simps)
      then show ?thesis by (simp add: abs_mult)
    qed
    ultimately have "?s * \<bar>int n * int (units x) - int m * ?s\<bar> \<le> ?s * \<bar>int n * int (units y) - int m * ?s\<bar>" by simp
    then show ?thesis by (rule mult_left_le_imp_le) simp
  qed
  let ?y = "unat (bits_of d') mod 2 ^ 63"
  show ?thesis
  proof (cases "d_sign d'")
    case False
    then show ?thesis using near [OF finite_bits [OF assms(4)]] by (simp add: signed_units_def magnitude_def)
  next
    case True
    have "\<bar>int n * int (units x) - int m * ?s\<bar> \<le> int m * ?s"
      using near [of 0] by (simp add: units_def inf_bits_def)
    moreover have "signed_units d' \<le> 0" using True by (simp add: signed_units_def)
    then have "int n * signed_units d' \<le> 0" by (simp add: mult_nonneg_nonpos)
    moreover have "0 \<le> int m * ?s" by simp
    ultimately show ?thesis by linarith
  qed
qed

text \<open>The average of natural numbers is the double nearest to their mean.\<close>

lemma average_nearest:
  assumes "map_of (m_data e) key = Some h" and "h \<noteq> []" and "length h \<le> 2 ^ 53"
    and "list_all2 (\<lambda>r n. holds_nat (rec_duration r) n) h ns" and "sum_list ns \<le> 2 ^ 53"
  shows "\<exists>d. StorageEngine_getAverage e key = Some d \<and> is_finite d \<and>
    (\<forall>d'. is_finite d' \<longrightarrow> \<bar>int (length h) * signed_units d - int (sum_list ns) * int one_units\<bar> \<le>
      \<bar>int (length h) * signed_units d' - int (sum_list ns) * int one_units\<bar>)"
proof -
  let ?sum = "foldl (\<lambda>sum r. double_add sum (rec_duration r)) (Double 0) h"
  have a: "holds_nat ?sum (sum_list ns)" using holds_nat_sum [OF assms(4) holds_nat_zero] assms(5) by simp
  have b: "holds_nat (double_of_nat (length h)) (length h)" using assms(3) by (rule holds_nat_of_nat)
  have n: "0 < length h" using assms(2) by simp
  from holds_nat_div [OF a b n assms(5)] obtain x where x: "x < inf_bits"
      "double_div ?sum (double_of_nat (length h)) = make_double False x"
      "x = round_bits (sum_list ns * one_units * one_units) (length h * one_units)" by blast
  let ?d = "make_double False x"
  have "StorageEngine_getAverage e key = Some ?d" using assms(1,2) x(2) by (simp add: StorageEngine_getAverage_def Let_def)
  moreover have "signed_units ?d = int (units x)"
    using make_double_fields(1,4) [OF inf_bits_63 [OF x(1)], of False] by (simp add: signed_units_def)
  ultimately show ?thesis using nearest_quotient [OF n x(3,1)] make_double_finite [OF x(1)] by auto
qed

end
