(* ===== verification/FastTrace.thy ===== *)
theory FastTrace
  imports Engine_Average
begin

text \<open>
  \<^verbatim>\<open>include/FastTrace.hpp\<close>: the scope timer. The two clock readings are arguments, in nanoseconds, which is the
  tick of \<open>high_resolution_clock\<close> in the GNU library. \<open>Timer_elapsed\<close> is the conversion to a \<open>double\<close> of milliseconds,
  \<open>to_string_double\<close> is \<open>std::to_string\<close>, that is \<open>printf\<close> with \<^verbatim>\<open>%f\<close>, and \<open>trace_scope\<close> what the end of a
  scope with \<open>TRACE_SCOPE\<close> does. It happens in a destructor, so an exception of \<open>set\<close> ends the process: then the
  first component is \<open>False\<close>.
\<close>

definition Timer_elapsed :: "i64 \<Rightarrow> i64 \<Rightarrow> double" where
  "Timer_elapsed m_start finish = double_div (double_of_int (sint (finish - m_start))) (double_of_nat 1000000)"

text \<open>The magnitude in millionths, to nearest, ties to even.\<close>

definition millionths :: "double \<Rightarrow> nat" where
  "millionths d =
    round_even (magnitude d * 1000000) one_units"

definition to_string_double :: "double \<Rightarrow> string" where
  "to_string_double d =
    (if d_sign d then ''-'' else '''') @
    (if is_nan d then ''nan''
     else if is_inf d then ''inf''
     else let q = millionths d; frac = to_string (q mod 1000000)
       in to_string (q div 1000000) @ ''.'' @ replicate (6 - length frac) (CHR ''0'') @ frac)"

definition trace_scope :: "platform \<Rightarrow> bytes \<Rightarrow> i64 \<Rightarrow> i64 \<Rightarrow> i64 \<Rightarrow> StorageEngine \<Rightarrow> os \<Rightarrow> bool \<times> StorageEngine \<times> os" where
  "trace_scope P name m_start finish now e s =
    (let ms = Timer_elapsed m_start finish
     in case StorageEngine_set P name (ascii (to_string_double ms @ '' ms'')) ms now e s of
          (Inl _, e, s) \<Rightarrow> (False, e, s)
        | (Inr _, e, s) \<Rightarrow> (True, e, s))"

section \<open>Whole milliseconds\<close>

lemma length_to_string: "n < 10 ^ b \<Longrightarrow> length (to_string n) \<le> max 1 b"
proof (induction n arbitrary: b rule: to_string.induct)
  case (1 n)
  show ?case
  proof (cases "n < 10")
    case True
    then show ?thesis by (subst to_string.simps) simp
  next
    case False
    then obtain c where b: "b = Suc c" using "1.prems" by (cases b) auto
    then have "n div 10 < 10 ^ c" using "1.prems" by (simp add: div_less_iff_less_mult mult.commute)
    moreover from this False have "c \<noteq> 0" by (cases c) auto
    ultimately have "length (to_string (n div 10)) \<le> c" using "1.IH" [OF False, of c] by simp
    with False b show ?thesis by (subst to_string.simps) simp
  qed
qed

lemma holds_nat_of_int: "n \<le> 2 ^ 53 \<Longrightarrow> holds_nat (double_of_int (int n)) n"
  using round_nat [of n] by (simp add: double_of_int_def)

lemma Timer_elapsed_whole:
  assumes "sint (finish - m_start) = int (k * 1000000)" and "k * 1000000 \<le> 2 ^ 53"
  shows "holds_nat (Timer_elapsed m_start finish) k"
proof -
  have a: "holds_nat (double_of_int (int (k * 1000000))) (k * 1000000)" using assms(2) by (rule holds_nat_of_int)
  have b: "holds_nat (double_of_nat 1000000) 1000000" by (rule holds_nat_of_nat) simp
  from holds_nat_div [OF a b _ assms(2)] obtain x where x: "x < inf_bits"
      "double_div (double_of_int (int (k * 1000000))) (double_of_nat 1000000) = make_double False x"
      "x = round_bits (k * 1000000 * one_units * one_units) (1000000 * one_units)" by auto
  have "k \<le> 2 ^ 53" using assms(2) by linarith
  from units_nat [OF this] obtain y where y: "y < inf_bits" "units y = k * one_units" by blast
  have e: "k * 1000000 * one_units * one_units = 1000000 * one_units * units y" unfolding y(2) by (simp only: ac_simps)
  have "x = y" unfolding x(3) e using y(1) by (intro round_bits_exact) simp_all
  with make_double_units [OF y] x(2) assms(1) show ?thesis by (simp add: Timer_elapsed_def)
qed

lemma to_string_double_whole:
  assumes "holds_nat d k"
  shows "to_string_double d = to_string k @ ''.000000''"
proof -
  have m: "magnitude d = k * one_units" "\<not> d_sign d" "\<not> is_nan d" "\<not> is_inf d"
    using assms finite_not [of d] by (auto simp: holds_nat_def)
  have e: "k * one_units * 1000000 = k * 1000000 * one_units" by (simp only: ac_simps)
  have "millionths d = k * 1000000" unfolding millionths_def m(1) e by (rule round_even_exact) simp
  moreover have "replicate 5 (CHR ''0'') = ''00000''" by (simp add: eval_nat_numeral)
  moreover have "to_string 0 = ''0''" by (simp add: to_string.simps char_of_def bit_Suc_0_iff)
  ultimately show ?thesis using m(2-4) by (simp add: to_string_double_def Let_def)
qed

text \<open>What such a scope does to the engine.\<close>

lemma put_history:
  "\<exists>h. map_of (appendCapped cap data key val duration now) key =
      Some (h @ [\<lparr>rec_value = val, rec_duration = duration, rec_timestamp = now\<rparr>]) \<and>
    (cap = 0 \<longrightarrow> h = (case map_of data key of None \<Rightarrow> [] | Some h \<Rightarrow> h))"
  by (auto simp: appendCapped_def Let_def kUnlimitedHistory_def)

lemma trace_scope_whole:
  assumes "trace_scope P name m_start finish now e s = (ok, e', t)"
    and "sint (finish - m_start) = int (k * 1000000)" and "k * 1000000 \<le> 2 ^ 53"
  shows "(ok \<longrightarrow> m_data e' = appendCapped (m_maxHistoryPerKey e) (m_data e) name (ascii (to_string k @ ''.000000 ms''))
      (Timer_elapsed m_start finish) now) \<and>
    (m_wal e = None \<and> length name \<le> kMaxFieldSize \<longrightarrow> ok \<and> t = s \<and> m_wal e' = None \<and>
      m_maxHistoryPerKey e' = m_maxHistoryPerKey e)"
proof -
  let ?ms = "Timer_elapsed m_start finish" and ?val = "ascii (to_string k @ ''.000000 ms'')"
  have v: "ascii (to_string_double ?ms @ '' ms'') = ?val"
    by (simp add: to_string_double_whole [OF Timer_elapsed_whole [OF assms(2,3)]])
  have "k < 10 ^ 16" using assms(3) by simp
  from length_to_string [OF this] have len: "length ?val \<le> engine_kMaxFieldSize"
    by (simp add: ascii_def engine_kMaxFieldSize_def kMaxFieldSize_def)
  obtain res e1 t1 where st: "StorageEngine_set P name ?val ?ms now e s = (res, e1, t1)" by (metis prod_cases3)
  have "(ok, e', t) = (case res of Inl _ \<Rightarrow> False | Inr _ \<Rightarrow> True, e1, t1)"
    using assms(1) unfolding trace_scope_def Let_def v st by (cases res) simp_all
  moreover have "m_data e1 = appendCapped (m_maxHistoryPerKey e) (m_data e) name ?val ?ms now" if "res = Inr u" for u
    using st that len by (auto simp: StorageEngine_set_def Let_def split: if_splits option.splits prod.splits sum.splits)
  moreover have "res = Inr () \<and> t1 = s \<and> m_wal e1 = None \<and> m_maxHistoryPerKey e1 = m_maxHistoryPerKey e"
    if "m_wal e = None" "length name \<le> kMaxFieldSize"
    using st that len by (auto simp: StorageEngine_set_def)
  ultimately show ?thesis by (cases res) auto
qed

end
