(* ===== verification/ExampleMain.thy ===== *)
theory ExampleMain
  imports FastTrace
begin

text \<open>
  \<^verbatim>\<open>src/main.cpp\<close>: the example program. It traces five calls of \<open>heavyOperation\<close> inside one outer scope, on an engine
  in memory, and prints what the engine has recorded. The clock readings are arguments: the outer scope's start,
  a start, an end and a time stamp for every call, and an end and a time stamp for the outer scope.
  \<open>print_double\<close> is the default output format of a stream, \<open>printf\<close> with \<^verbatim>\<open>%g\<close>.
\<close>

section \<open>Printing a double\<close>

text \<open>For a value below 1: the power of ten that first lifts it to 1 or more.\<close>

function lift_exponent :: "nat \<Rightarrow> nat" where
  "lift_exponent m = (if m = 0 \<or> one_units \<le> m then 0 else Suc (lift_exponent (10 * m)))"
  by pat_completeness auto
termination by (relation "measure (\<lambda>m. one_units - m)") auto

declare lift_exponent.simps [simp del]

text \<open>The decimal exponent before rounding, and the six digits rounded from it.\<close>

definition decimal_exponent :: "nat \<Rightarrow> int" where
  "decimal_exponent m =
    (if one_units \<le> m then int (length (to_string (m div one_units))) - 1 else - int (lift_exponent m))"

definition six_digits :: "nat \<Rightarrow> int \<Rightarrow> nat" where
  "six_digits m x =
    (if x \<le> 5 then round_even (m * 10 ^ nat (5 - x)) one_units else round_even m (one_units * 10 ^ nat (x - 5)))"

definition strip_zeros :: "string \<Rightarrow> string" where
  "strip_zeros s = rev (dropWhile (\<lambda>c. c = CHR ''0'') (rev s))"

definition with_fraction :: "string \<Rightarrow> string \<Rightarrow> string" where
  "with_fraction whole frac = (if strip_zeros frac = [] then whole else whole @ ''.'' @ strip_zeros frac)"

definition print_magnitude :: "nat \<Rightarrow> string" where
  "print_magnitude m =
    (if m = 0 then ''0''
     else let x0 = decimal_exponent m; d0 = six_digits m x0;
              x = (if d0 = 1000000 then x0 + 1 else x0); digits = to_string (if d0 = 1000000 then 100000 else d0)
       in if x < -4 \<or> 6 \<le> x
          then (let e = to_string (nat \<bar>x\<bar>)
            in with_fraction (take 1 digits) (drop 1 digits) @ ''e'' @ (if x < 0 then ''-'' else ''+'') @
               replicate (2 - length e) (CHR ''0'') @ e)
          else if x < 0 then with_fraction ''0'' (replicate (nat (- x - 1)) (CHR ''0'') @ digits)
          else with_fraction (take (nat x + 1) digits) (drop (nat x + 1) digits))"

definition print_double :: "double \<Rightarrow> string" where
  "print_double d =
    (if d_sign d then ''-'' else '''') @
    (if is_nan d then ''nan'' else if is_inf d then ''inf'' else print_magnitude (magnitude d))"

section \<open>The program\<close>

definition heavyOperation :: "platform \<Rightarrow> i64 \<times> i64 \<times> i64 \<Rightarrow> StorageEngine \<Rightarrow> os \<Rightarrow> bool \<times> StorageEngine \<times> os" where
  "heavyOperation P clock db s =
    (case clock of (m_start, finish, now) \<Rightarrow> trace_scope P (ascii ''HeavyOperation'') m_start finish now db s)"

text \<open>The loop: it stops early only when a destructor ends the process.\<close>

fun heavy_loop :: "platform \<Rightarrow> (i64 \<times> i64 \<times> i64) list \<Rightarrow> StorageEngine \<Rightarrow> os \<Rightarrow> bool \<times> StorageEngine \<times> os" where
  "heavy_loop P [] db s = (True, db, s)"
| "heavy_loop P (clock # clocks) db s =
    (case heavyOperation P clock db s of (ok, db, s) \<Rightarrow> if ok then heavy_loop P clocks db s else (False, db, s))"

definition newline :: bytes where "newline = [10]"

definition metrics_text :: "StorageEngine \<Rightarrow> bytes" where
  "metrics_text metrics =
    newline @ ascii ''Measured metrics in StorageEngine:'' @ newline @
    ascii ''Operation time: '' @
      (case StorageEngine_get metrics (ascii ''HeavyOperation'') of None \<Rightarrow> ascii ''N/A'' | Some t \<Rightarrow> t) @ newline @
    ascii ''Average time: '' @ ascii (print_double
      (case StorageEngine_getAverage metrics (ascii ''HeavyOperation'') of None \<Rightarrow> Double 0 | Some d \<Rightarrow> d)) @ ascii '' ms'' @ newline @
    ascii ''Total runtime: '' @
      (case StorageEngine_get metrics (ascii ''TotalMainRuntime'') of None \<Rightarrow> ascii ''N/A'' | Some t \<Rightarrow> t) @ newline"

text \<open>\<open>None\<close>: the process was ended by an exception in a destructor.\<close>

definition example_main :: "platform \<Rightarrow> i64 \<Rightarrow> (nat \<Rightarrow> i64 \<times> i64 \<times> i64) \<Rightarrow> i64 \<times> i64 \<Rightarrow> os \<Rightarrow> (nat \<times> bytes) option \<times> os" where
  "example_main P t0 clocks last_clock s =
    (case heavy_loop P (map clocks [0..<5]) (makeInMemory kUnlimitedHistory) s of (ok, metrics, s) \<Rightarrow>
      if \<not> ok then (None, s)
      else case trace_scope P (ascii ''TotalMainRuntime'') t0 (fst last_clock) (snd last_clock) metrics s of (ok, metrics, s) \<Rightarrow>
        if \<not> ok then (None, s)
        else (Some (0, ascii ''Starting application with FastTrace...'' @ newline @ metrics_text metrics), s))"

section \<open>A run in whole milliseconds\<close>

definition whole_ms :: "i64 \<Rightarrow> i64 \<Rightarrow> nat \<Rightarrow> bool" where
  "whole_ms m_start finish k \<longleftrightarrow> sint (finish - m_start) = int (k * 1000000) \<and> k * 1000000 \<le> 2 ^ 53"

definition ms_record :: "Record \<Rightarrow> nat \<Rightarrow> bool" where
  "ms_record r k \<longleftrightarrow> rec_value r = ascii (to_string k @ ''.000000 ms'') \<and> holds_nat (rec_duration r) k"

text \<open>On an engine in memory without a cap, every traced scope appends its record.\<close>

lemma trace_scope_memory:
  assumes "whole_ms m_start finish k" and "m_wal e = None" and "m_maxHistoryPerKey e = 0" and "length name \<le> kMaxFieldSize"
  shows "\<exists>e' r. trace_scope P name m_start finish now e s = (True, e', s) \<and> m_wal e' = None \<and> m_maxHistoryPerKey e' = 0 \<and>
    map_of (m_data e') = (map_of (m_data e))(name \<mapsto> (case map_of (m_data e) name of None \<Rightarrow> [] | Some h \<Rightarrow> h) @ [r]) \<and> ms_record r k"
proof -
  obtain ok e' t where tr: "trace_scope P name m_start finish now e s = (ok, e', t)" by (metis prod_cases3)
  have w: "sint (finish - m_start) = int (k * 1000000)" "k * 1000000 \<le> 2 ^ 53" using assms(1) by (simp_all add: whole_ms_def)
  let ?r = "\<lparr>rec_value = ascii (to_string k @ ''.000000 ms''), rec_duration = Timer_elapsed m_start finish, rec_timestamp = now\<rparr>"
  from trace_scope_whole [OF tr w] assms have t: "ok" "t = s" "m_wal e' = None" "m_maxHistoryPerKey e' = 0"
    "map_of (m_data e') = (map_of (m_data e))(name \<mapsto> (case map_of (m_data e) name of None \<Rightarrow> [] | Some h \<Rightarrow> h) @ [?r])"
    by (auto simp: appendCapped_def Let_def kUnlimitedHistory_def)
  have "trace_scope P name m_start finish now e s = (True, e', s)" using tr t(1,2) by simp
  moreover have "ms_record ?r k" using Timer_elapsed_whole [OF w] by (simp add: ms_record_def)
  ultimately show ?thesis using t(3-5) by blast
qed

lemma heavy_loop_memory:
  assumes "list_all2 (\<lambda>clock k. case clock of (m_start, finish, now) \<Rightarrow> whole_ms m_start finish k) clocks ks"
    and "m_wal e = None" and "m_maxHistoryPerKey e = 0"
  shows "\<exists>e' rs. heavy_loop P clocks e s = (True, e', s) \<and> m_wal e' = None \<and> m_maxHistoryPerKey e' = 0 \<and>
    list_all2 ms_record rs ks \<and> map_of (m_data e') = (if ks = [] then map_of (m_data e) else (map_of (m_data e))
      (ascii ''HeavyOperation'' \<mapsto> (case map_of (m_data e) (ascii ''HeavyOperation'') of None \<Rightarrow> [] | Some h \<Rightarrow> h) @ rs))"
  using assms
proof (induction clocks ks arbitrary: e rule: list_all2_induct)
  case Nil
  then show ?case by simp
next
  case (Cons clock clocks k ks)
  obtain m_start finish now where c: "clock = (m_start, finish, now)" by (metis prod_cases3)
  have name: "length (ascii ''HeavyOperation'') \<le> kMaxFieldSize" by (simp add: ascii_def kMaxFieldSize_def)
  from trace_scope_memory [OF _ Cons.prems name, of m_start finish k P now s] Cons.hyps(1) c obtain e1 r where
    t: "trace_scope P (ascii ''HeavyOperation'') m_start finish now e s = (True, e1, s)" "m_wal e1 = None" "m_maxHistoryPerKey e1 = 0"
      "map_of (m_data e1) = (map_of (m_data e))(ascii ''HeavyOperation'' \<mapsto>
        (case map_of (m_data e) (ascii ''HeavyOperation'') of None \<Rightarrow> [] | Some h \<Rightarrow> h) @ [r])" "ms_record r k"
    by auto
  from Cons.IH [OF t(2,3)] obtain e' rs where
    i: "heavy_loop P clocks e1 s = (True, e', s)" "m_wal e' = None" "m_maxHistoryPerKey e' = 0" "list_all2 ms_record rs ks"
      "map_of (m_data e') = (if ks = [] then map_of (m_data e1) else (map_of (m_data e1))
        (ascii ''HeavyOperation'' \<mapsto> (case map_of (m_data e1) (ascii ''HeavyOperation'') of None \<Rightarrow> [] | Some h \<Rightarrow> h) @ rs))"
    by blast
  have "heavy_loop P (clock # clocks) e s = (True, e', s)" using t(1) i(1) c by (simp add: heavyOperation_def)
  moreover have "list_all2 ms_record (r # rs) (k # ks)" using t(5) i(4) by simp
  moreover have "ks = [] \<Longrightarrow> rs = []" using i(4) by simp
  ultimately show ?case using i(2,3,5) t(4) by (intro exI [of _ e'] exI [of _ "r # rs"]) auto
qed

end
