(* ===== verification/Average_Properties.thy ===== *)
theory Average_Properties
  imports ExampleMain
begin

text \<open>The properties of \<open>getAverage\<close> and of the scope timer that feeds it.\<close>

section \<open>The average\<close>

text \<open>C28. For durations that are natural numbers with a sum of at most 2 to the 53, \<open>getAverage\<close> returns the double nearest
  to their exact mean, although it rounds after every addition: no finite double is nearer.\<close>

theorem average_is_nearest:
  assumes "map_of (m_data e) key = Some h" and "h \<noteq> []" and "length h \<le> 2 ^ 53"
    and "list_all2 (\<lambda>r n. holds_nat (rec_duration r) n) h ns" and "sum_list ns \<le> 2 ^ 53"
  shows "\<exists>d. StorageEngine_getAverage e key = Some d \<and> is_finite d \<and>
    (\<forall>d'. is_finite d' \<longrightarrow> \<bar>int (length h) * signed_units d - int (sum_list ns) * int one_units\<bar> \<le>
      \<bar>int (length h) * signed_units d' - int (sum_list ns) * int one_units\<bar>)"
  by (rule average_nearest [OF assms])

theorem average_is_nearest_witness:
  "\<exists>d. StorageEngine_getAverage (makeInMemory 0\<lparr>m_data := [([107],
      [\<lparr>rec_value = [], rec_duration = double_of_nat 1, rec_timestamp = 0\<rparr>,
       \<lparr>rec_value = [], rec_duration = double_of_nat 2, rec_timestamp = 0\<rparr>])]\<rparr>) [107] = Some d \<and> is_finite d \<and>
    (\<forall>d'. is_finite d' \<longrightarrow> \<bar>2 * signed_units d - 3 * int one_units\<bar> \<le> \<bar>2 * signed_units d' - 3 * int one_units\<bar>)"
  using average_is_nearest [where ns = "[1, 2]" and key = "[107]" and e = "makeInMemory 0\<lparr>m_data := [([107],
      [\<lparr>rec_value = [], rec_duration = double_of_nat 1, rec_timestamp = 0\<rparr>,
       \<lparr>rec_value = [], rec_duration = double_of_nat 2, rec_timestamp = 0\<rparr>])]\<rparr>"]
    holds_nat_of_nat [of 1] holds_nat_of_nat [of 2]
  by simp

lemma double_add_nan: "is_nan a \<or> is_nan b \<Longrightarrow> is_nan (double_add a b)"
  unfolding double_add_def by auto

lemma sum_nan: "is_nan acc \<or> (\<exists>r \<in> set h. is_nan (rec_duration r)) \<Longrightarrow>
    is_nan (foldl (\<lambda>sum r. double_add sum (rec_duration r)) acc h)"
  by (induction h arbitrary: acc) (auto intro: double_add_nan)

text \<open>\<open>getAverage\<close> answers for exactly the keys for which \<open>get\<close> does, and a single NaN among the durations makes the
  average NaN.\<close>

theorem average_is_defined_with_get:
  "(StorageEngine_getAverage e key = None \<longleftrightarrow> StorageEngine_get e key = None) \<and>
   (\<forall>h r. map_of (m_data e) key = Some h \<and> r \<in> set h \<and> is_nan (rec_duration r) \<longrightarrow>
      (\<exists>d. StorageEngine_getAverage e key = Some d \<and> is_nan d))"
proof -
  have "is_nan (double_div a b)" if "is_nan a" for a b using that by (simp add: double_div_def Let_def)
  moreover have "is_nan (foldl (\<lambda>sum r. double_add sum (rec_duration r)) (Double 0) h)"
    if "r \<in> set h" "is_nan (rec_duration r)" for r h
    using that by (intro sum_nan) blast
  ultimately show ?thesis
    by (auto simp: StorageEngine_getAverage_def StorageEngine_get_def Let_def split: option.splits)
qed

section \<open>The timer\<close>

text \<open>The end of a traced scope that took \<open>k\<close> whole milliseconds records the text \<open>k.000000 ms\<close> as the newest value of
  the scope's name and the exact number \<open>k\<close> as its duration; without a log, and with a name within the cap, it
  cannot fail.\<close>

theorem trace_scope_records:
  assumes "sint (finish - m_start) = int (k * 1000000)" and "k * 1000000 \<le> 2 ^ 53"
  shows "case trace_scope P name m_start finish now e s of (ok, e', t) \<Rightarrow>
    (ok \<longrightarrow> StorageEngine_get e' name = Some (ascii (to_string k @ ''.000000 ms'')) \<and>
      (\<exists>h. map_of (m_data e') name = Some h \<and> h \<noteq> [] \<and> holds_nat (rec_duration (last h)) k)) \<and>
    (m_wal e = None \<and> length name \<le> kMaxFieldSize \<longrightarrow> ok \<and> t = s)"
proof -
  note d = Timer_elapsed_whole [OF assms]
  obtain ok e' t where tr: "trace_scope P name m_start finish now e s = (ok, e', t)" by (metis prod_cases3)
  let ?val = "ascii (to_string k @ ''.000000 ms'')" and ?ms = "Timer_elapsed m_start finish"
  from put_history [of "m_maxHistoryPerKey e" "m_data e" name ?val ?ms now] obtain h where
    "map_of (appendCapped (m_maxHistoryPerKey e) (m_data e) name ?val ?ms now) name =
      Some (h @ [\<lparr>rec_value = ?val, rec_duration = ?ms, rec_timestamp = now\<rparr>])" by blast
  with trace_scope_whole [OF tr assms] d tr show ?thesis by (auto simp: StorageEngine_get_def)
qed

theorem trace_scope_records_witness:
  "case trace_scope P [84] 5 2000005 0 (makeInMemory 0) s of (ok, e', t) \<Rightarrow>
    ok \<and> StorageEngine_get e' [84] = Some (ascii (to_string 2 @ ''.000000 ms''))"
proof -
  have "sint (2000005 - 5 :: i64) = int (2 * 1000000)" by simp
  from trace_scope_records [OF this, where P = P and name = "[84]" and now = 0 and e = "makeInMemory 0" and s = s] show ?thesis
    by (auto simp: makeInMemory_def kMaxFieldSize_def split: prod.splits)
qed

section \<open>The example program\<close>

text \<open>C29. When every scope of the example program takes a whole number of milliseconds, it exits with 0 and prints the last
  operation's time, the double nearest to the exact mean of the five operations, and the total time, without touching
  the system.\<close>

theorem example_reports_the_metrics:
  assumes "\<And>i. i < 5 \<Longrightarrow> case clocks i of (m_start, finish, now) \<Rightarrow> whole_ms m_start finish (ks i)"
    and "whole_ms t0 t1 total_ms" and "(\<Sum>i\<leftarrow>[0..<5]. ks i) \<le> 2 ^ 53"
  shows "\<exists>d. example_main P t0 clocks (t1, now) s =
      (Some (0, ascii ''Starting application with FastTrace...'' @ newline @
        newline @ ascii ''Measured metrics in StorageEngine:'' @ newline @
        ascii (''Operation time: '' @ to_string (ks 4) @ ''.000000 ms'') @ newline @
        ascii (''Average time: '' @ print_double d @ '' ms'') @ newline @
        ascii (''Total runtime: '' @ to_string total_ms @ ''.000000 ms'') @ newline), s) \<and>
    is_finite d \<and> (\<forall>d'. is_finite d' \<longrightarrow> \<bar>5 * signed_units d - int (\<Sum>i\<leftarrow>[0..<5]. ks i) * int one_units\<bar> \<le>
      \<bar>5 * signed_units d' - int (\<Sum>i\<leftarrow>[0..<5]. ks i) * int one_units\<bar>)"
proof -
  let ?op = "ascii ''HeavyOperation''" and ?tot = "ascii ''TotalMainRuntime''" and ?ks = "map ks [0..<5]"
  have l: "list_all2 (\<lambda>clock k. case clock of (m_start, finish, now) \<Rightarrow> whole_ms m_start finish k) (map clocks [0..<5]) ?ks"
    using assms(1) by (simp add: list_all2_conv_all_nth)
  from heavy_loop_memory [OF l, of "makeInMemory kUnlimitedHistory" P s] obtain e rs where
    h: "heavy_loop P (map clocks [0..<5]) (makeInMemory kUnlimitedHistory) s = (True, e, s)" "m_wal e = None"
      "m_maxHistoryPerKey e = 0" "list_all2 ms_record rs ?ks" "map_of (m_data e) ?op = Some rs" "map_of (m_data e) ?tot = None"
    by (auto simp: makeInMemory_def kUnlimitedHistory_def ascii_def)
  from trace_scope_memory [OF assms(2) h(2,3), of ?tot P now s] h(5,6) obtain e' r where
    t: "trace_scope P ?tot t0 t1 now e s = (True, e', s)" "map_of (m_data e') ?op = Some rs" "map_of (m_data e') ?tot = Some [r]"
      "ms_record r total_ms"
    by (auto simp: ascii_def kMaxFieldSize_def)
  have len: "length rs = 5" using list_all2_lengthD [OF h(4)] by simp
  then have ne: "rs \<noteq> []" by auto
  have "ms_record (rs ! 4) (?ks ! 4)" using list_all2_nthD [OF h(4), of 4] len by simp
  then have last: "rec_value (last rs) = ascii (to_string (ks 4) @ ''.000000 ms'')"
    using len ne by (simp add: last_conv_nth ms_record_def del: upt_rec_numeral)
  have "list_all2 (\<lambda>r n. holds_nat (rec_duration r) n) rs ?ks" using h(4) by (rule list_all2_mono) (simp add: ms_record_def)
  from average_nearest [OF t(2) ne _ this] len assms(3) obtain d where
    d: "StorageEngine_getAverage e' ?op = Some d" "is_finite d" "\<forall>d'. is_finite d' \<longrightarrow>
      \<bar>5 * signed_units d - int (\<Sum>i\<leftarrow>[0..<5]. ks i) * int one_units\<bar> \<le>
      \<bar>5 * signed_units d' - int (\<Sum>i\<leftarrow>[0..<5]. ks i) * int one_units\<bar>"
    by auto
  have "StorageEngine_get e' ?op = Some (ascii (to_string (ks 4) @ ''.000000 ms''))"
    using t(2) ne last by (simp add: StorageEngine_get_def)
  moreover have "StorageEngine_get e' ?tot = Some (ascii (to_string total_ms @ ''.000000 ms''))"
    using t(3,4) by (simp add: StorageEngine_get_def ms_record_def)
  ultimately have "metrics_text e' = newline @ ascii ''Measured metrics in StorageEngine:'' @ newline @
      ascii (''Operation time: '' @ to_string (ks 4) @ ''.000000 ms'') @ newline @
      ascii (''Average time: '' @ print_double d @ '' ms'') @ newline @
      ascii (''Total runtime: '' @ to_string total_ms @ ''.000000 ms'') @ newline"
    using d(1) by (simp add: metrics_text_def ascii_def)
  then have "example_main P t0 clocks (t1, now) s =
      (Some (0, ascii ''Starting application with FastTrace...'' @ newline @
        newline @ ascii ''Measured metrics in StorageEngine:'' @ newline @
        ascii (''Operation time: '' @ to_string (ks 4) @ ''.000000 ms'') @ newline @
        ascii (''Average time: '' @ print_double d @ '' ms'') @ newline @
        ascii (''Total runtime: '' @ to_string total_ms @ ''.000000 ms'') @ newline), s)"
    using h(1) t(1) by (simp add: example_main_def)
  with d show ?thesis by blast
qed

theorem example_reports_the_metrics_witness:
  "\<forall>P s. snd (example_main P 0 (\<lambda>_. (0, 50000000, 0)) (250000000, 0) s) = s"
proof (intro allI)
  fix P s
  have "whole_ms 0 50000000 50" "whole_ms 0 250000000 250" by (simp_all add: whole_ms_def)
  moreover have "(\<Sum>i\<leftarrow>[0..<5]. (50 :: nat)) \<le> 2 ^ 53" by (simp add: sum_list_triv)
  ultimately show "snd (example_main P 0 (\<lambda>_. (0, 50000000, 0)) (250000000, 0) s) = s"
    using example_reports_the_metrics [where clocks = "\<lambda>_. (0, 50000000, 0)" and ks = "\<lambda>_. 50" and total_ms = 250
      and ?t0.0 = 0 and ?t1.0 = 250000000 and now = 0 and P = P and s = s]
    by auto
qed

end
