(* ===== verification/VerifyTool.thy ===== *)
theory VerifyTool
  imports Sample_States
begin

text \<open>
  \<^verbatim>\<open>tools/verify.cpp\<close>: the command line verifier. \<open>verify_main\<close> is \<open>main\<close>: it takes the argument vector and the
  system, and returns how the process ended, what it wrote to \<open>std::cout\<close> and to \<open>std::cerr\<close>, and the system it
  leaves behind. The calls it makes of the class \<open>WAL\<close> are those of the theory \<open>WAL\<close>.
\<close>

section \<open>The program\<close>

text \<open>A process returns from \<open>main\<close> or dies of an exception that no handler catches.\<close>

datatype process_end = Exit nat | Terminate

definition endl :: string where "endl = [CHR 0x0A]"

text \<open>\<open>std::filesystem::exists\<close>: it throws when the file's status cannot be determined.\<close>

definition fs_exists :: "path \<Rightarrow> os \<Rightarrow> (exn + bool) \<times> os" where
  "fs_exists p s0 =
    (case next_ctl s0 of (ok, s) \<Rightarrow>
      (if ok then Inr (names s p \<noteq> None) else Inl (runtime_error (''filesystem error: status '' @ p)), s))"

definition hex :: string where "hex = ''0123456789abcdef''"

definition hex_byte :: "byte \<Rightarrow> string" where
  "hex_byte b = [hex ! unat (drop_bit 4 b), hex ! unat (b AND 0x0F)]"

definition toHex :: "Sha256Digest \<Rightarrow> string" where
  "toHex d = concat (map hex_byte d)"

fun what :: "exn \<Rightarrow> string" where
  "what (runtime_error m) = m"
| "what (length_error m) = m"

text \<open>The \<open>switch\<close> over the verdict: the exit code and the report.\<close>

definition verify_report :: "RecoveryResult \<Rightarrow> nat \<times> string" where
  "verify_report r =
    (let entries = to_string (unat (entriesVerified r)); offset = to_string (unat (tamperOffset r))
     in case status r of
       Ok \<Rightarrow> (0, ''OK    chain intact - '' @ entries @ '' entries verified'' @ endl @ ''      head: '' @ toHex (headHash r) @ endl)
     | TruncatedTail \<Rightarrow> (0, ''WARN  torn tail after '' @ entries @ '' entries (incomplete final write)'' @ endl)
     | Malformed \<Rightarrow> (2, ''ERROR field exceeds the size limit at offset '' @ offset @ '' (after '' @ entries @
         '' valid entries)'' @ endl @ ''      not tamper evidence: a foreign or stale file'' @ endl)
     | Tampered \<Rightarrow> (1, ''FAIL  TAMPERING DETECTED at offset '' @ offset @ '' (after '' @ entries @ '' valid entries)'' @ endl))"

text \<open>The log object is destroyed, and so closed, when its block is left.\<close>

definition verify_main :: "string list \<Rightarrow> os \<Rightarrow> (process_end \<times> string \<times> string) \<times> os" where
  "verify_main argv s =
    (if length argv \<noteq> 2 then ((Exit 2, '''', ''usage: litespeed-verify <wal-file>'' @ endl), s)
     else case fs_exists (argv ! 1) s of (found, s) \<Rightarrow>
       case found of
         Inl _ \<Rightarrow> ((Terminate, '''', ''''), s)
       | Inr there \<Rightarrow>
           if \<not> there then ((Exit 2, '''', ''error: no such file: '' @ argv ! 1 @ endl), s)
           else case WAL_open (argv ! 1) 1 s of
             (Inl e, s) \<Rightarrow> ((Exit 2, '''', ''error: '' @ what e @ endl), s)
           | (Inr wal, s) \<Rightarrow>
               case WAL_verify wal s of (r, s) \<Rightarrow>
                 case verify_report r of (code, out) \<Rightarrow> ((Exit code, out, ''''), snd (WAL_close wal s)))"

section \<open>Printed numbers and digests\<close>

lemma to_string_val: "foldl (\<lambda>a c. 10 * a + (of_char c - 48)) 0 (to_string n) = n"
proof (induction n rule: to_string.induct)
  case (1 n)
  then show ?case by (subst to_string.simps) (auto simp: of_char_of)
qed

lemma to_string_inj: "to_string m = to_string n \<longleftrightarrow> m = n"
  by (metis to_string_val)

lemma to_string_digits: "c \<in> set (to_string n) \<Longrightarrow> 48 \<le> (of_char c :: nat)"
proof (induction n rule: to_string.induct)
  case (1 n)
  then show ?case by (subst (asm) (2) to_string.simps) (auto simp: of_char_of split: if_splits)
qed

text \<open>A number followed by a blank ends where the blank begins.\<close>

lemma to_string_blank:
  assumes "to_string m @ CHR '' '' # xs = to_string n @ CHR '' '' # ys"
  shows "m = n \<and> xs = ys"
proof -
  have t: "takeWhile (\<lambda>c. 48 \<le> (of_char c :: nat)) (to_string k @ CHR '' '' # zs) = to_string k" for k zs
    by (subst takeWhile_append2) (auto dest: to_string_digits)
  have "to_string m = to_string n" using arg_cong [OF assms, of "takeWhile (\<lambda>c. 48 \<le> (of_char c :: nat))"] unfolding t .
  with assms show ?thesis by (simp add: to_string_inj)
qed

lemma nibbles: "unat (drop_bit 4 b) = unat b div 16" "unat (b AND 0x0F) = unat b mod 16" for b :: byte
proof -
  have "b AND 0x0F = take_bit 4 b" by (simp add: take_bit_eq_mask mask_eq_exp_minus_1)
  then have "unat (b AND 0x0F) = take_bit 4 (unat b)" by (simp only: unsigned_take_bit_eq)
  then show "unat (b AND 0x0F) = unat b mod 16" by (simp add: take_bit_eq_mod)
qed (simp add: drop_bit_eq_div unat_div)

lemma hex_inj: "i < 16 \<Longrightarrow> j < 16 \<Longrightarrow> hex ! i = hex ! j \<Longrightarrow> i = j"
  by (rule nth_eq_iff_index_eq [THEN iffD1, of hex]) (simp_all add: hex_def)

lemma hex_byte_inj: "hex_byte a = hex_byte b \<Longrightarrow> a = b"
proof -
  assume h: "hex_byte a = hex_byte b"
  have "unat x < 256" for x :: byte using unsigned_less [of x] by simp
  with h have "unat a div 16 = unat b div 16" "unat a mod 16 = unat b mod 16"
    by (auto simp: hex_byte_def nibbles less_mult_imp_div_less intro!: hex_inj)
  then have "unat a = unat b" by (metis div_mult_mod_eq)
  then show "a = b" by (simp add: word_unat_eq_iff)
qed

lemma toHex_inj: "length d = length e \<Longrightarrow> toHex d = toHex e \<Longrightarrow> d = e"
  by (induction d e rule: list_induct2) (auto simp: toHex_def hex_byte_def intro: hex_byte_inj)

lemma length_toHex: "length (toHex d) = 2 * length d"
  by (induction d) (simp_all add: toHex_def hex_byte_def)

section \<open>What the program may change\<close>

lemma WAL_open_names:
  assumes o: "WAL_open p n s = (r, t)" and wf: "os_wf s" and f: "file_of s p \<noteq> None"
  shows "names t = names s"
proof -
  obtain fd s1 where op: "sys_open_creat p True False s = (fd, s1)" by fastforce
  define w0 where "w0 = \<lparr>m_path = p, m_fd = fd, m_epoch = 0, m_seq = 0, m_headHash = zero_hash,
      m_syncEveryN = (if n < 1 then 1 else n), m_pendingWrites = 0\<rparr>"
  obtain z s2 where st: "sys_fstat_size fd s1 = (z, s2)" by fastforce
  obtain ok s3 where h: "WAL_validateHeader w0 s2 = (ok, s3)" by fastforce
  obtain ok' s3' where h': "WAL_writeHeader w0 s2 = (ok', s3')" by fastforce
  have cl: "names (snd (sys_close fd u)) = names u" for u by (cases "sys_close fd u") (simp add: sys_close_any)
  have n2: "names s2 = names s1" using sys_fstat_size_any [OF st] same_files_simps(1) by blast
  have n1: "names s1 = names s"
    using sys_open_creat_any [OF op wf] f by (auto simp: file_of_def same_files_simps(1) map_upd_triv)
  have v: "names s3 = names s2" using validateHeader_any [OF h] by (simp add: only_file_def)
  have w: "names s3' = names s2" if "fd \<noteq> -1"
  proof -
    from sys_open_creat_any [OF op wf] that obtain i where "fds s1 fd = Some \<lparr>f_ino = i, f_off = 0, f_append = True\<rparr>" by auto
    then have "at_end s2 (m_fd w0)" using sys_fstat_size_any [OF st] same_files_simps(4) [of s1 s2]
      by (simp add: at_end_def w0_def)
    from writeHeader_any [OF h' this] show ?thesis by (simp add: only_file_def)
  qed
  show ?thesis
    using o [unfolded WAL_open_def op prod.case Let_def w0_def [symmetric]] st h h' cl n1 n2 v w
    by (auto split: if_splits option.splits)
qed

text \<open>A constructor that throws has changed no file, unless it was opening an empty or a new one.\<close>

lemma WAL_open_fails:
  assumes o: "WAL_open p n s = (Inl e, t)" and wf: "os_wf s" and f: "file_of s p = Some (b # c)"
  shows "names t = names s \<and> (\<forall>q. file_of t q = file_of s q)"
proof -
  have ex: "names t = names s \<and> (\<forall>q. file_of t q = file_of s q)"
    if "names t = names s" "\<And>j. cached (inodes t j) = cached (inodes s j)"
    using that by (simp add: file_of_def)
  obtain fd s1 where op: "sys_open_creat p True False s = (fd, s1)" by fastforce
  have closed: "names (snd (sys_close fd u)) = names u \<and> inodes (snd (sys_close fd u)) = inodes u" for u
    by (cases "sys_close fd u") (simp add: sys_close_any)
  define w0 where "w0 = \<lparr>m_path = p, m_fd = fd, m_epoch = 0, m_seq = 0, m_headHash = zero_hash,
      m_syncEveryN = (if n < 1 then 1 else n), m_pendingWrites = 0\<rparr>"
  obtain z s2 where st: "sys_fstat_size fd s1 = (z, s2)" by fastforce
  obtain ok s3 where h: "WAL_validateHeader w0 s2 = (ok, s3)" by fastforce
  note o' = o [unfolded WAL_open_def op prod.case Let_def w0_def [symmetric]]
  note oc = sys_open_creat_any [OF op wf]
  show ?thesis
  proof (cases "fd = -1")
    case True
    with o' oc have "t = s1" "same_files s s1" by auto
    then show ?thesis using ex same_files_simps(1,3) by simp
  next
    case nn: False
    with oc f obtain i where i: "names s p = Some i" and f1: "fds s1 fd = Some \<lparr>f_ino = i, f_off = 0, f_append = True\<rparr>"
      and n1: "names s1 = (names s)(p \<mapsto> i)" and in1: "\<And>j. j \<noteq> i \<Longrightarrow> inodes s1 j = inodes s j"
      and c1: "cached (inodes s1 i) = b # c"
      by (auto simp: file_of_def)
    have all1: "cached (inodes s1 j) = cached (inodes s j)" for j
      using in1 [of j] c1 f i by (cases "j = i") (simp_all add: file_of_def)
    have names1: "names s1 = names s" using n1 i by auto
    have fc1: "fcontent s1 fd = b # c" using f1 c1 by (simp add: fcontent_def)
    note sz = sys_fstat_size_any [OF st] and v = validateHeader_any [OF h]
    have same: "same_files s1 s2" and z: "z = None \<or> z = Some (Suc (length c))" using sz fc1 by auto
    have same2: "names s2 = names s1" "inodes s2 = inodes s1" "fds s2 = fds s1" using same_files_simps [OF same] by simp_all
    from z show ?thesis
    proof
      assume "z = None"
      with o' nn st have "t = snd (sys_close fd s2)" by simp
      then show ?thesis using names1 all1 same2 closed [of s2] by (intro ex) auto
    next
      assume "z = Some (Suc (length c))"
      with o' nn st h have t: "t = snd (sys_close fd s3)" by (auto split: if_splits)
      have of: "only_file fd s2 s3" and c3: "fcontent s3 fd = fcontent s2 fd" using v by (simp_all add: w0_def)
      have f2: "fds s2 fd = Some \<lparr>f_ino = i, f_off = 0, f_append = True\<rparr>" using f1 same2 by simp
      from only_file_ino [OF of f2] obtain k where f3: "fds s3 fd = Some \<lparr>f_ino = i, f_off = k, f_append = True\<rparr>" by auto
      have "cached (inodes s3 j) = cached (inodes s2 j)" for j
        using only_file_inodes [OF of f2, of j] c3 f2 f3 by (cases "j = i") (simp_all add: fcontent_def)
      moreover have "names s3 = names s2" using of by (simp add: only_file_def)
      ultimately show ?thesis using t names1 all1 same2 closed [of s3] by (intro ex) auto
    qed
  qed
qed

text \<open>Whatever fails, the verdict is that of the file, the one on no entries, or a torn tail.\<close>

lemma WAL_verify_verdict:
  assumes "WAL_verify w s = (r, t)"
  shows "r = chain_result (fcontent s (m_fd w)) \<or> r = RecoveryResult_default \<or> status r = TruncatedTail"
proof -
  obtain u where wc: "walkChain w None None False () s = (r, u, t)"
    using assms by (auto simp: WAL_verify_def split: prod.splits)
  obtain vs e where sc: "file_scan (fcontent s (m_fd w)) = (vs, e)" by fastforce
  from walkChain_any [OF wc sc] sc show ?thesis by (auto simp: chain_result_def) (simp add: result_of_def)
qed

text \<open>From opening to closing, when the constructor returns: the contents of the file are what \<open>verify\<close> reads.\<close>

lemma verify_steps:
  assumes op: "WAL_open p 1 s = (Inr w, t)" and wf: "os_wf s" and f: "file_of s p = Some c"
    and v: "WAL_verify w t = (r, u)"
  shows "(let d = if c = [] then header_bytes else c in
    names (snd (WAL_close w u)) = names s \<and> file_of (snd (WAL_close w u)) p = Some d \<and>
    (c \<noteq> [] \<longrightarrow> (\<forall>j. cached (inodes (snd (WAL_close w u)) j) = cached (inodes s j)) \<and>
      (\<forall>q. file_of (snd (WAL_close w u)) q = file_of s q)) \<and> valid_header (take 16 d) \<and>
    (r = chain_result d \<or> r = RecoveryResult_default \<or> status r = TruncatedTail) \<and>
    os_wf (snd (WAL_close w u)) \<and> (kind t \<longrightarrow> r = chain_result d \<and> kind (snd (WAL_close w u))))"
proof -
  let ?d = "if c = [] then header_bytes else c"
  note a = WAL_open_any [OF op wf]
  obtain i fo where i: "names s p = Some i" "fds t (m_fd w) = Some fo" "f_ino fo = i" "names t = names s"
    and j: "\<And>j. j \<noteq> i \<Longrightarrow> inodes t j = inodes s j"
    using a f by (auto simp: file_of_def map_upd_triv)
  have c: "fcontent t (m_fd w) = ?d" and h: "valid_header (take 16 ?d)"
    using a f by (cases c; auto)+
  note r = WAL_verify_any [OF v]
  have of: "only_file (m_fd w) t u" using r by blast
  obtain k where k: "fds u (m_fd w) = Some (fo\<lparr>f_off := k\<rparr>)" using only_file_ino [OF of i(2)] by blast
  have ui: "cached (inodes u i) = ?d" using r c k i(3) by (simp add: fcontent_def)
  have nu: "names u = names s" using of i(4) by (simp add: only_file_def)
  have uj: "inodes u j = inodes s j" if "j \<noteq> i" for j
    using only_file_inodes [OF of i(2), of j] j [OF that] that i(3) by simp
  obtain w' x where cl: "WAL_close w u = (w', x)" by fastforce
  from WAL_close_any [OF cl] have x: "names x = names s" "\<And>j. cached (inodes x j) = cached (inodes u j)" using nu by auto
  have all: "cached (inodes x j) = cached (inodes s j)" if "c \<noteq> []" for j
    using x ui uj f i(1) that by (cases "j = i") (simp_all add: file_of_def)
  then have "file_of x q = file_of s q" if "c \<noteq> []" for q using x that by (simp add: file_of_def)
  moreover have nn: "m_fd w \<noteq> -1" and wft: "os_wf t" using a by blast+
  have eq: "w = \<lparr>m_path = p, m_fd = m_fd w, m_epoch = 0, m_seq = 0, m_headHash = zero_hash,
      m_syncEveryN = (if (1 :: nat) < 1 then 1 else 1), m_pendingWrites = 0\<rparr>" using a by blast
  have "m_pendingWrites w = 0" using arg_cong [OF eq, of m_pendingWrites] by simp
  then have close: "sys_close (m_fd w) u = (fst (sys_close (m_fd w) u), x)"
    using cl nn by (auto simp: WAL_close_def intro: prod_eqI)
  have "r = chain_result ?d \<and> kind x" if "kind t"
    using WAL_verify_kind [OF v nn _ that] c i(2) sys_close_any [OF close] by auto
  moreover have "os_wf x" using only_file_wf [OF of wft] WAL_close_any [OF cl] by blast
  ultimately show ?thesis using all x ui i(1) h WAL_verify_verdict [OF v] c cl
    by (simp add: Let_def file_of_def)
qed

end
