(* ===== verification/Demo.thy ===== *)
theory Demo
  imports VerifyTool
begin

text \<open>
  \<^verbatim>\<open>tools/demo.cpp\<close>: the end-to-end demonstration. An agent records three events and closes the log, a verifier
  passes it, an attacker flips one byte of the first event through plain file streams, and the verifier runs
  again. \<open>demo_main\<close> is \<open>main\<close>, with one definition per block of it; it returns how the process ended, what
  it wrote to \<open>std::cout\<close>, and the system. An exception leaves \<open>main\<close> and ends the process.
\<close>

section \<open>The C and C++ library\<close>

text \<open>\<open>std::remove\<close>.\<close>

definition sys_unlink :: "path \<Rightarrow> os \<Rightarrow> bool \<times> os" where
  "sys_unlink p s0 =
    (case next_ctl s0 of (ok, s) \<Rightarrow>
      if ok \<and> names s p \<noteq> None then (True, s\<lparr>names := (names s)(p := None)\<rparr>) else (False, s))"

text \<open>The buffer of an \<open>std::ofstream\<close> goes out in one loop, which retries short and interrupted writes.\<close>

lemma sys_write_consumes:
  assumes "sys_write fd data s = (r, t)" and "data \<noteq> []"
  shows "length (xfers t) \<le> length (xfers s) \<and> (r = Rc 0 \<or> r = Eintr \<longrightarrow> length (xfers t) < length (xfers s))"
  using assms
  by (auto simp: sys_write_def next_xfer_def do_write_def Let_def set_offset_def set_content_def
      split: option.splits xfer.splits list.splits if_splits)

function stream_write :: "int \<Rightarrow> bytes \<Rightarrow> os \<Rightarrow> os" where
  "stream_write fd data s =
    (if data = [] then s
     else case sys_write fd data s of (r, t) \<Rightarrow>
       (case r of
          Eintr \<Rightarrow> stream_write fd data t
        | Err \<Rightarrow> t
        | Rc n \<Rightarrow> stream_write fd (drop n data) t))"
  by pat_completeness auto
termination
proof (relation "measure (\<lambda>(fd, data, s). length data + length (xfers s))")
  fix fd and data :: bytes and s r t n
  assume "data \<noteq> []" "(r, t) = sys_write fd data s" "r = Rc n"
  with sys_write_consumes [of fd data s r t]
  show "((fd, drop n data, t), fd, data, s) \<in> measure (\<lambda>(fd, data, s). length data + length (xfers s))"
    by (cases n; cases data) auto
qed (auto dest: sys_write_consumes [OF sym])

declare stream_write.simps [simp del]

text \<open>\<open>std::ofstream\<close> with \<open>binary | trunc\<close>, \<open>write\<close> and \<open>close\<close>; a stream that is not open writes nothing.\<close>

definition ofstream_write :: "path \<Rightarrow> bytes \<Rightarrow> os \<Rightarrow> os" where
  "ofstream_write p data s =
    (case sys_open_creat p False True s of (fd, s) \<Rightarrow>
      if fd = -1 then s else snd (sys_close fd (stream_write fd data s)))"

text \<open>\<open>std::search\<close> for a needle that is not empty: the position of its first occurrence.\<close>

definition search :: "bytes \<Rightarrow> bytes \<Rightarrow> nat option" where
  "search hay needle = find (\<lambda>i. take (length needle) (drop i hay) = needle) [0..<length hay]"

section \<open>The program\<close>

definition backslash :: string where "backslash = [CHR 0x5C]"

definition kDemoWal :: path where "kDemoWal = ''/tmp/litespeed_demo.wal''"

definition firstValue :: bytes where
  "firstValue = ascii (''C:'' @ backslash @ ''Temp'' @ backslash @ ''evil.exe'')"

definition toHexPrefix :: "Sha256Digest \<Rightarrow> nat \<Rightarrow> string" where
  "toHexPrefix d n = concat (map hex_byte (take n d))"

definition printVerify :: "RecoveryResult \<Rightarrow> string" where
  "printVerify r =
    (let entries = to_string (unat (entriesVerified r)); offset = to_string (unat (tamperOffset r))
     in case status r of
       Ok \<Rightarrow> ''[verify]   chain intact - '' @ entries @ '' entries verified  [OK]'' @ endl
     | TruncatedTail \<Rightarrow> ''[verify]   torn tail after '' @ entries @ '' entries'' @ endl
     | Malformed \<Rightarrow> ''[verify]   field over the size limit at offset '' @ offset @ '' - foreign or stale file'' @ endl
     | Tampered \<Rightarrow> ''[verify]   TAMPERING DETECTED at offset '' @ offset @ '' (after '' @ entries @
         '' valid entries)  [FAIL]'' @ endl)"

definition demo_title :: string where
  "demo_title = ''LiteSpeedStore - tamper-evidence demo'' @ endl @
     ''====================================='' @ endl @ endl"

definition demo_closing :: string where
  "demo_closing = endl @ ''The edited entry breaks its own hash, and every later entry chains'' @ endl @
     ''onto the old value - so a single byte invalidates the rest.'' @ endl"

text \<open>Block 1: the agent's three events, and the checkpoint it prints.\<close>

definition demo_agent_text :: "Checkpoint \<Rightarrow> string" where
  "demo_agent_text cp = ''[agent]    recorded 3 events to '' @ kDemoWal @ endl @
     ''[agent]    checkpoint to anchor remotely:  seq='' @ to_string (unat (cp_seq cp)) @ ''  head='' @
     toHexPrefix (cp_head cp) 8 @ ''...'' @ endl @ endl"

definition demo_agent :: "os \<Rightarrow> (exn + string) \<times> os" where
  "demo_agent s =
    (case WAL_open kDemoWal 1 s of
       (Inl x, s) \<Rightarrow> (Inl x, s)
     | (Inr w, s) \<Rightarrow>
     case WAL_append PUT (ascii ''process.start'') firstValue 1 w s of
       (Inl x, w, s) \<Rightarrow> (Inl x, s)
     | (Inr _, w, s) \<Rightarrow>
     case WAL_append PUT (ascii ''net.connect'') (ascii ''203.0.113.7:443'') 2 w s of
       (Inl x, w, s) \<Rightarrow> (Inl x, s)
     | (Inr _, w, s) \<Rightarrow>
     case WAL_append PUT (ascii ''file.delete'')
         (ascii (''C:'' @ backslash @ ''Windows'' @ backslash @ ''prefetch'' @ backslash @ ''evil.pf'')) 3 w s of
       (Inl x, w, s) \<Rightarrow> (Inl x, s)
     | (Inr _, w, s) \<Rightarrow> (Inr (demo_agent_text (WAL_head w)), snd (WAL_close w s)))"

text \<open>Blocks 2 and 4: the verifier.\<close>

definition demo_verifier :: "os \<Rightarrow> (exn + string) \<times> os" where
  "demo_verifier s =
    (case WAL_open kDemoWal 1 s of
       (Inl x, s) \<Rightarrow> (Inl x, s)
     | (Inr w, s) \<Rightarrow> case WAL_verify w s of (r, s) \<Rightarrow> (Inr (printVerify r), snd (WAL_close w s)))"

text \<open>Block 3: the attacker.\<close>

definition demo_attacker_text :: "nat \<Rightarrow> string" where
  "demo_attacker_text target = ''[attacker] flipped 1 byte at offset '' @ to_string target @
     '' (inside event #0's recorded data)'' @ endl @ endl"

definition demo_attacker :: "os \<Rightarrow> string \<times> os" where
  "demo_attacker s =
    (case ifstream_read kDemoWal s of (inp, s) \<Rightarrow>
      let data = (case inp of None \<Rightarrow> [] | Some bs \<Rightarrow> bs)
      in case search data firstValue of
        None \<Rightarrow> ('''', s)
      | Some target \<Rightarrow>
          (demo_attacker_text target, ofstream_write kDemoWal (data[target := data ! target XOR 0x20]) s))"

definition demo_main :: "os \<Rightarrow> (process_end \<times> string) \<times> os" where
  "demo_main s =
    (case sys_unlink kDemoWal s of (_, s) \<Rightarrow>
     case demo_agent s of
       (Inl _, s) \<Rightarrow> ((Terminate, demo_title), s)
     | (Inr agent, s) \<Rightarrow>
     case demo_verifier s of
       (Inl _, s) \<Rightarrow> ((Terminate, demo_title @ agent), s)
     | (Inr before, s) \<Rightarrow>
     case demo_attacker s of (attack, s) \<Rightarrow>
     case demo_verifier s of
       (Inl _, s) \<Rightarrow> ((Terminate, demo_title @ agent @ before @ endl @ attack), s)
     | (Inr verdict, s) \<Rightarrow>
         ((Exit 0, demo_title @ agent @ before @ endl @ attack @ verdict @ demo_closing), snd (sys_unlink kDemoWal s)))"

section \<open>The library calls when no call fails\<close>

lemma stream_write_kind:
  "at_end s fd \<Longrightarrow> kind s \<Longrightarrow> stream_write fd data s = t \<Longrightarrow>
    kind t \<and> only_file fd s t \<and> fcontent t fd = fcontent s fd @ data"
proof (induction fd data s arbitrary: t rule: stream_write.induct)
  case (1 fd data s)
  show ?case
  proof (cases "data = []")
    case True
    with "1.prems" show ?thesis by (simp add: stream_write.simps [of fd "[]" s])
  next
    case False
    obtain r u where w: "sys_write fd data s = (r, u)" by fastforce
    note a = sys_write_any [OF w "1.prems"(1)] and k = sys_write_kind [OF w "1.prems"(1,2)]
    have of: "only_file fd s u" using a by blast
    show ?thesis
    proof (cases r)
      case (Rc n)
      with "1.prems"(3) False w have "stream_write fd (drop n data) u = t" by (simp add: stream_write.simps [of fd data s])
      from "1.IH"(1) [OF False w [symmetric] Rc _ _ this] a k Rc have "kind t \<and> only_file fd u t \<and>
        fcontent t fd = fcontent s fd @ take n data @ drop n data" by simp
      with of show ?thesis by (auto intro: only_file_trans)
    next
      case Eintr
      with "1.prems"(3) False w have "stream_write fd data u = t" by (simp add: stream_write.simps [of fd data s])
      from "1.IH"(2) [OF False w [symmetric] Eintr _ _ this] a k Eintr have "kind t \<and> only_file fd u t \<and>
        fcontent t fd = fcontent s fd @ data" by simp
      with of show ?thesis by (auto intro: only_file_trans)
    next
      case Err
      with k show ?thesis by simp
    qed
  qed
qed

text \<open>The demo's file is a fresh inode under its own name; every other file is as it was.\<close>

definition demo_file :: "os \<Rightarrow> os \<Rightarrow> bytes \<Rightarrow> bool" where
  "demo_file s0 s c \<longleftrightarrow> os_wf s \<and> kind s \<and> names s = (names s0)(kDemoWal \<mapsto> next_ino s0) \<and>
     cached (inodes s (next_ino s0)) = c \<and> (\<forall>j < next_ino s0. cached (inodes s j) = cached (inodes s0 j))"

lemma demo_file_of: "demo_file s0 s c \<Longrightarrow> file_of s kDemoWal = Some c"
  by (simp add: demo_file_def file_of_def)

lemma ofstream_write_kind:
  assumes "demo_file s0 s c"
  shows "demo_file s0 (ofstream_write kDemoWal data s) data"
proof -
  have wf: "os_wf s" and k: "kind s" and n: "names s = (names s0)(kDemoWal \<mapsto> next_ino s0)"
    and old: "\<And>j. j < next_ino s0 \<Longrightarrow> cached (inodes s j) = cached (inodes s0 j)"
    using assms by (simp_all add: demo_file_def)
  obtain fd t where op: "sys_open_creat kDemoWal False True s = (fd, t)" by fastforce
  from sys_open_creat_any [OF op wf] k n have nn: "fd \<noteq> -1" and kt: "kind t" and wft: "os_wf t"
    and f: "fds t fd = Some \<lparr>f_ino = next_ino s0, f_off = 0, f_append = False\<rparr>" and nt: "names t = names s"
    and it: "\<And>j. j \<noteq> next_ino s0 \<Longrightarrow> inodes t j = inodes s j" and ct: "cached (inodes t (next_ino s0)) = []"
    by auto
  obtain u where u: "stream_write fd data t = u" by blast
  from stream_write_kind [OF _ kt u] f ct have ku: "kind u" and of: "only_file fd t u" and cu: "fcontent u fd = data"
    by (auto simp: at_end_def fcontent_def)
  obtain b x where cl: "sys_close fd u = (b, x)" by fastforce
  from sys_close_any [OF cl] have x: "names x = names u" "inodes x = inodes u" "os_wf u \<Longrightarrow> os_wf x" "kind x" using ku by auto
  from only_file_ino [OF of f] cu have "cached (inodes u (next_ino s0)) = data" by (auto simp: fcontent_def)
  moreover have "cached (inodes u j) = cached (inodes s0 j)" if "j < next_ino s0" for j
    using only_file_inodes [OF of f, of j] it [of j] old [OF that] that by simp
  moreover have "names u = names t" using of by (simp add: only_file_def)
  moreover have "ofstream_write kDemoWal data s = x" using op nn u cl by (simp add: ofstream_write_def)
  ultimately show ?thesis using x only_file_wf [OF of wft] nt n by (simp add: demo_file_def)
qed

lemma demo_verifier_kind:
  assumes d: "demo_file s0 s c" and h: "valid_header (take 16 c)" and ne: "c \<noteq> []"
  shows "\<exists>t. demo_verifier s = (Inr (printVerify (chain_result c)), t) \<and> demo_file s0 t c"
proof -
  have wf: "os_wf s" and k: "kind s" using d by (simp_all add: demo_file_def)
  note f = demo_file_of [OF d]
  from WAL_open_kind [OF wf k, of kDemoWal 1] f h ne obtain w t where op: "WAL_open kDemoWal 1 s = (Inr w, t)" and kt: "kind t"
    by (cases c) auto
  obtain r u where v: "WAL_verify w t = (r, u)" by fastforce
  from verify_steps [OF op wf f v] kt ne have x: "r = chain_result c" "kind (snd (WAL_close w u))" "os_wf (snd (WAL_close w u))"
      "names (snd (WAL_close w u)) = names s" "\<And>j. cached (inodes (snd (WAL_close w u)) j) = cached (inodes s j)"
    by (simp_all add: Let_def)
  then have "demo_file s0 (snd (WAL_close w u)) c" using d by (simp add: demo_file_def)
  with op v x(1) show ?thesis by (simp add: demo_verifier_def)
qed

text \<open>The three events, and the log they make.\<close>

definition demo_records :: "log_record list" where
  "demo_records =
    [\<lparr>r_type = PUT, r_key = ascii ''process.start'', r_value = firstValue, r_ts = 1, r_epoch = 0\<rparr>,
     \<lparr>r_type = PUT, r_key = ascii ''net.connect'', r_value = ascii ''203.0.113.7:443'', r_ts = 2, r_epoch = 0\<rparr>,
     \<lparr>r_type = PUT, r_key = ascii ''file.delete'',
      r_value = ascii (''C:'' @ backslash @ ''Windows'' @ backslash @ ''prefetch'' @ backslash @ ''evil.pf''), r_ts = 3, r_epoch = 0\<rparr>]"

definition demo_log :: bytes where
  "demo_log = header_bytes @ log_bytes zero_hash 0 demo_records"

lemma demo_storable: "list_all storable demo_records"
  by (simp add: demo_records_def storable_def ascii_def backslash_def firstValue_def kMaxFieldSize_def
      type_byte_def as_RecordType_def)

text \<open>One append of the agent.\<close>

lemma demo_append:
  assumes ap: "WAL_append type key val ts w s = (res, w', t)" and k: "kind s" and h: "wal_holds w s rs" and e: "m_epoch w = 0"
    and c: "fcontent s (m_fd w) = header_bytes @ log_bytes zero_hash 0 rs"
    and st: "storable \<lparr>r_type = type, r_key = key, r_value = val, r_ts = ts, r_epoch = 0\<rparr>"
  defines "rs' \<equiv> rs @ [\<lparr>r_type = type, r_key = key, r_value = val, r_ts = ts, r_epoch = 0\<rparr>]"
  shows "res = Inr () \<and> kind t \<and> only_file (m_fd w) s t \<and> m_fd w' = m_fd w \<and> wal_holds w' t rs' \<and> m_epoch w' = 0 \<and>
    fcontent t (m_fd w) = header_bytes @ log_bytes zero_hash 0 rs'"
proof -
  have r: "new_record w type key val ts = \<lparr>r_type = type, r_key = key, r_value = val, r_ts = ts, r_epoch = 0\<rparr>"
    using e by (simp add: new_record_def)
  have w: "m_fd w \<noteq> -1" "appending s (m_fd w)" "m_seq w = of_nat (length rs)" "m_headHash w = log_head zero_hash 0 rs"
    using h by (simp_all add: wal_holds_def)
  from WAL_append_any [OF ap h, unfolded r, OF st] k e
  have "res = Inr ()" "kind t" "only_file (m_fd w) s t" "m_fd w' = m_fd w" "wal_holds w' t rs'" "m_epoch w' = 0"
    unfolding rs'_def by auto
  moreover from WAL_append_bytes [OF ap w(1,2), unfolded r, OF st] calculation(1) c w(3,4)
  have "fcontent t (m_fd w) = header_bytes @ log_bytes zero_hash 0 rs'"
    unfolding rs'_def by (simp add: log_bytes_append)
  ultimately show ?thesis by blast
qed

lemma demo_agent_kind:
  assumes wf: "os_wf s" and k: "kind s" and n: "names s kDemoWal = None"
  shows "\<exists>t. demo_agent s = (Inr (demo_agent_text \<lparr>cp_seq = 3, cp_head = log_head zero_hash 0 demo_records\<rparr>), t) \<and>
    demo_file s t demo_log"
proof -
  have fn: "file_of s kDemoWal = None" using n by (simp add: file_of_def)
  from WAL_open_kind [OF wf k, of kDemoWal 1] fn obtain w t where op: "WAL_open kDemoWal 1 s = (Inr w, t)" and kt: "kind t" by auto
  note a = WAL_open_any [OF op wf]
  have eq: "w = \<lparr>m_path = kDemoWal, m_fd = m_fd w, m_epoch = 0, m_seq = 0, m_headHash = zero_hash,
      m_syncEveryN = (if (1 :: nat) < 1 then 1 else 1), m_pendingWrites = 0\<rparr>" using a by blast
  have w: "m_seq w = 0" "m_headHash w = zero_hash" "m_epoch w = 0"
    using arg_cong [OF eq, of m_seq] arg_cong [OF eq, of m_headHash] arg_cong [OF eq, of m_epoch] by simp_all
  have nn: "m_fd w \<noteq> -1" and app: "appending t (m_fd w)" and wft: "os_wf t" using a by blast+
  have c: "fcontent t (m_fd w) = header_bytes" using a fn by simp
  obtain f where f: "fds t (m_fd w) = Some f" "f_ino f = next_ino s" and nt: "names t = (names s)(kDemoWal \<mapsto> next_ino s)"
    and it: "\<And>j. j \<noteq> next_ino s \<Longrightarrow> inodes t j = inodes s j"
    using a n by auto
  have h: "wal_holds w t []" using nn app c w by (simp add: wal_holds_def holds_bytes_header)
  have st: "storable r" if "r \<in> set demo_records" for r using demo_storable that by (simp add: list_all_iff)
  note sts = st [unfolded demo_records_def]
  obtain r1 w1 t1 where a1: "WAL_append PUT (ascii ''process.start'') firstValue 1 w t = (r1, w1, t1)" by (metis prod_cases3)
  obtain r2 w2 t2 where a2: "WAL_append PUT (ascii ''net.connect'') (ascii ''203.0.113.7:443'') 2 w1 t1 = (r2, w2, t2)"
    by (metis prod_cases3)
  obtain r3 w3 t3 where a3: "WAL_append PUT (ascii ''file.delete'')
      (ascii (''C:'' @ backslash @ ''Windows'' @ backslash @ ''prefetch'' @ backslash @ ''evil.pf'')) 3 w2 t2 = (r3, w3, t3)"
    by (metis prod_cases3)
  from demo_append [OF a1 kt h w(3)] c sts
  have b1: "r1 = Inr ()" "kind t1" "only_file (m_fd w) t t1" "m_fd w1 = m_fd w" "wal_holds w1 t1 (take 1 demo_records)" "m_epoch w1 = 0"
    "fcontent t1 (m_fd w1) = header_bytes @ log_bytes zero_hash 0 (take 1 demo_records)"
    by (auto simp: demo_records_def)
  from demo_append [OF a2 b1(2,5,6,7)] sts
  have b2: "r2 = Inr ()" "kind t2" "only_file (m_fd w) t1 t2" "m_fd w2 = m_fd w" "wal_holds w2 t2 (take 2 demo_records)" "m_epoch w2 = 0"
    "fcontent t2 (m_fd w2) = header_bytes @ log_bytes zero_hash 0 (take 2 demo_records)"
    using b1(4) by (auto simp: demo_records_def)
  from demo_append [OF a3 b2(2,5,6,7)] sts
  have b3: "r3 = Inr ()" "kind t3" "only_file (m_fd w) t2 t3" "m_fd w3 = m_fd w" "wal_holds w3 t3 demo_records"
    "fcontent t3 (m_fd w) = demo_log"
    using b2(4) by (auto simp: demo_records_def demo_log_def)
  have of: "only_file (m_fd w) t t3" using b1(3) b2(3) b3(3) by (blast intro: only_file_trans)
  obtain w' x where cl: "WAL_close w3 t3 = (w', x)" by fastforce
  from WAL_close_any [OF cl, of demo_records] b3 only_file_wf [OF of wft] have x: "names x = names t3" "os_wf x" "kind x"
      "\<And>j. cached (inodes x j) = cached (inodes t3 j)" by auto
  from only_file_ino [OF of f(1)] f(2) b3(6) have "cached (inodes t3 (next_ino s)) = demo_log" by (auto simp: fcontent_def)
  moreover have "cached (inodes t3 j) = cached (inodes s j)" if "j < next_ino s" for j
    using only_file_inodes [OF of f(1), of j] f(2) it [of j] that by simp
  moreover have "names t3 = names t" using of by (simp add: only_file_def)
  ultimately have "demo_file s x demo_log" using x nt by (simp add: demo_file_def)
  moreover have "WAL_head w3 = \<lparr>cp_seq = 3, cp_head = log_head zero_hash 0 demo_records\<rparr>"
    using b3(5) by (simp add: WAL_head_def wal_holds_def demo_records_def)
  ultimately show ?thesis using op a1 a2 a3 b1(1) b2(1) b3(1) cl by (simp add: demo_agent_def)
qed

section \<open>The attack\<close>

text \<open>The recorded value stands at offset 66, and nowhere before.\<close>

definition demo_fixed :: bytes where
  "demo_fixed = fixed_part 0 1 0 (ascii ''process.start'') firstValue PUT"

lemma demo_literals:
  "firstValue = [67, 58, 92, 84, 101, 109, 112, 92, 101, 118, 105, 108, 46, 101, 120, 101]"
  "ascii ''process.start'' = [112, 114, 111, 99, 101, 115, 115, 46, 115, 116, 97, 114, 116]"
  by (simp_all add: firstValue_def ascii_def backslash_def)

lemma demo_fixed: "demo_fixed = [0, 0, 0, 0, 0, 0, 0, 0, 1, 0, 0, 0, 0, 0, 0, 0, 0, 0, 0, 0, 0, 0, 0, 0, 13, 0, 0, 0, 16, 0, 0, 0, 1]"
  unfolding demo_fixed_def demo_literals by code_simp

lemma header_literal: "header_bytes = [87, 83, 76, 49, 2, 0, 0, 0, 0, 0, 0, 0, 0, 0, 0, 0]"
  unfolding header_bytes_def by code_simp

lemma search_first:
  assumes "needle \<noteq> []" and "\<And>i. i < length pre \<Longrightarrow> take (length needle) (drop i (pre @ needle @ post)) \<noteq> needle"
  shows "search (pre @ needle @ post) needle = Some (length pre)"
  unfolding search_def find_Some_iff
  using assms by (intro exI [of _ "length pre"]) auto

lemma demo_log_split:
  "\<exists>crc post. length crc = 4 \<and>
    demo_log = (header_bytes @ crc @ demo_fixed @ ascii ''process.start'') @ firstValue @ post"
  by (rule exI [of _ "putLE32 [] (CRC32_calculate (entry_body zero_hash 0 (demo_records ! 0)))"])
    (simp add: demo_log_def demo_records_def entry_bytes_def entry_body_def entry_fixed_def demo_fixed_def)

lemma demo_search: "search demo_log firstValue = Some 66"
proof -
  from demo_log_split obtain crc post where crc: "length crc = 4"
    and log: "demo_log = (header_bytes @ crc @ demo_fixed @ ascii ''process.start'') @ firstValue @ post" by blast
  let ?tail = "demo_fixed @ ascii ''process.start'' @ firstValue @ post"
  let ?front = "demo_fixed @ ascii ''process.start''"
  have len: "length header_bytes = 16" "length ?front = 46" "length firstValue = 16"
    by (simp_all add: demo_fixed demo_literals)
  have ll: "82 \<le> length demo_log" by (simp add: log crc demo_fixed demo_literals)
  have "take 16 (drop i demo_log) \<noteq> firstValue" if i: "i < 66" for i
  proof
    assume eq: "take 16 (drop i demo_log) = firstValue"
    have at: "demo_log ! (i + k) = firstValue ! k" if "k < 16" for k
    proof -
      have "firstValue ! k = take 16 (drop i demo_log) ! k" using eq by simp
      also have "\<dots> = demo_log ! (i + k)" using that i ll by simp
      finally show ?thesis by simp
    qed
    have first: "demo_log ! i = 67" using at [of 0] by (simp add: demo_literals)
    consider "i < 16" | "16 \<le> i" "i < 20" | "20 \<le> i" by linarith
    then show False
    proof cases
      case 1
      then have "demo_log ! i \<in> set header_bytes" unfolding log using len by (simp add: nth_append)
      with first show False by (simp add: header_literal)
    next
      case 2
      then have "demo_log ! 20 = firstValue ! (20 - i)" using at [of "20 - i"] by simp
      moreover have "demo_log ! 20 = 0" unfolding log using len crc by (simp add: nth_append demo_fixed)
      moreover have "firstValue ! (20 - i) \<in> set firstValue" using 2 len by (intro nth_mem) simp
      ultimately show False by (simp add: demo_literals)
    next
      case 3
      then have "demo_log ! i = ?front ! (i - 20)" unfolding log using len crc i by (auto simp: nth_append)
      moreover have "?front ! (i - 20) \<in> set ?front" using i 3 len by (intro nth_mem) simp
      ultimately show False using first by (simp add: demo_fixed demo_literals)
    qed
  qed
  then have none: "take (length firstValue) (drop i ((header_bytes @ crc @ ?front) @ firstValue @ post)) \<noteq> firstValue"
    if "i < length (header_bytes @ crc @ ?front)" for i
    using that len crc unfolding log by simp
  have "firstValue \<noteq> []" by (simp add: demo_literals)
  from search_first [OF this none] len crc show ?thesis unfolding log by simp
qed

text \<open>The flipped byte lies in the first entry, behind its length fields.\<close>

lemma demo_attack_byte: "demo_log ! 66 = 67"
proof -
  from demo_log_split obtain crc post where crc: "length crc = 4"
    and log: "demo_log = (header_bytes @ crc @ demo_fixed @ ascii ''process.start'') @ firstValue @ post" by blast
  let ?pre = "header_bytes @ crc @ demo_fixed @ ascii ''process.start''"
  have len: "length ?pre = 66" using crc by (simp add: demo_fixed demo_literals)
  have "(?pre @ firstValue @ post) ! length ?pre = 67" by (simp only: nth_append_length demo_literals append_Cons)
  then show ?thesis unfolding len log .
qed

definition demo_forged :: bytes where
  "demo_forged = demo_log[66 := 99]"

lemma demo_forged_result:
  "chain_result demo_forged =
    \<lparr>status = Tampered, entriesVerified = 0, tamperOffset = 16, tamperSeq = 0, headHash = zero_hash\<rparr>"
proof -
  let ?r = "demo_records ! 0"
  let ?e = "entry_bytes zero_hash 0 ?r" and ?rest = "log_bytes (entry_hash zero_hash 0 ?r) 1 (tl demo_records)"
  have log: "demo_log = header_bytes @ ?e @ ?rest" by (simp add: demo_log_def demo_records_def)
  have len: "length ?e = 98" by (simp add: length_entry_bytes demo_records_def demo_literals)
  have "?e ! 50 = 67" using demo_attack_byte len unfolding log by (simp add: nth_append)
  moreover have "storable ?r" using demo_storable by (simp add: demo_records_def)
  ultimately have "scan_entry (?e[50 := 99] @ ?rest) zero_hash 0 = Bad Tampered"
    by (intro damaged_entry_tampered) (simp_all add: len not_length_byte_def)
  moreover have "?e[50 := 99] @ ?rest \<noteq> []" using len by auto
  moreover have "demo_forged = header_bytes @ ?e[50 := 99] @ ?rest"
    using len unfolding demo_forged_def log by (simp add: list_update_append)
  moreover have "scan_log bs prev seq = ([], BadAt x)" if "scan_entry bs prev seq = Bad x" "bs \<noteq> []" for bs prev seq x
    using that by (subst scan_log.simps) simp
  ultimately have "scan_log (drop 16 demo_forged) zero_hash 0 = ([], BadAt Tampered)"
    by (metis drop_append_exact length_header_bytes)
  then show ?thesis by (simp add: chain_result_def file_scan_def result_of_def)
qed

lemma demo_log_result:
  "chain_result demo_log =
    \<lparr>status = Ok, entriesVerified = 3, tamperOffset = 0, tamperSeq = 0, headHash = log_head zero_hash 0 demo_records\<rparr>"
proof -
  have h: "holds_bytes demo_log demo_records" using demo_storable by (simp add: holds_bytes_def demo_log_def)
  show ?thesis by (simp add: chain_result_def file_scan_holds [OF h] result_of_def) (simp add: demo_records_def)
qed

lemma demo_attacker_kind:
  assumes "demo_file s0 s demo_log"
  shows "\<exists>t. demo_attacker s = (demo_attacker_text 66, t) \<and> demo_file s0 t demo_forged"
proof -
  have wf: "os_wf s" and k: "kind s" using assms by (simp_all add: demo_file_def)
  obtain inp u where rd: "ifstream_read kDemoWal s = (inp, u)" by fastforce
  from ifstream_read_any [OF rd wf] k assms demo_file_of [OF assms] have inp: "inp = Some demo_log" and u: "demo_file s0 u demo_log"
    by (auto simp: demo_file_def)
  have "demo_log[66 := demo_log ! 66 XOR 0x20] = demo_forged" by (simp add: demo_attack_byte demo_forged_def)
  with rd inp ofstream_write_kind [OF u, of demo_forged] show ?thesis
    by (simp add: demo_attacker_def demo_search)
qed

text \<open>A name that nothing else is linked to goes, and the other files stay.\<close>

lemma sys_unlink_kind:
  assumes "sys_unlink p s = (b, t)" and "kind s"
  shows "kind t \<and> names t = (names s)(p := None) \<and> inodes t = inodes s \<and> fds t = fds s \<and> next_ino t = next_ino s \<and> next_fd t = next_fd s"
proof -
  obtain ok u where nx: "next_ctl s = (ok, u)" by fastforce
  from next_ctl_same [OF nx] have same: "same_files s u" by simp
  from assms nx next_ctl_kind [OF nx assms(2)] same_files_simps [OF same] show ?thesis
    by (auto simp: sys_unlink_def split: if_splits)
qed

lemma demo_main_kind:
  assumes "os_wf s" and "kind s"
  shows "\<exists>t. demo_main s =
     ((Exit 0, demo_title @ demo_agent_text \<lparr>cp_seq = 3, cp_head = log_head zero_hash 0 demo_records\<rparr> @
       printVerify (chain_result demo_log) @ endl @ demo_attacker_text 66 @ printVerify (chain_result demo_forged) @ demo_closing), t) \<and>
     names t = (names s)(kDemoWal := None) \<and> (\<forall>q. q \<noteq> kDemoWal \<longrightarrow> file_of t q = file_of s q)"
proof -
  obtain b s0 where u0: "sys_unlink kDemoWal s = (b, s0)" by fastforce
  note a = sys_unlink_kind [OF u0 assms(2)]
  have wf: "os_wf s0" using a assms(1) by (simp add: os_wf_def)
  from demo_agent_kind [OF wf] a obtain s1 where ag: "demo_agent s0 = (Inr (demo_agent_text
      \<lparr>cp_seq = 3, cp_head = log_head zero_hash 0 demo_records\<rparr>), s1)" and d1: "demo_file s0 s1 demo_log" by auto
  have h: "take 16 demo_log = header_bytes" "take 16 demo_forged = header_bytes" "demo_log \<noteq> []" "demo_forged \<noteq> []"
    by (simp_all add: demo_log_def demo_forged_def header_literal)
  from demo_verifier_kind [OF d1] h obtain s2 where v1: "demo_verifier s1 = (Inr (printVerify (chain_result demo_log)), s2)"
    and d2: "demo_file s0 s2 demo_log" by auto
  from demo_attacker_kind [OF d2] obtain s3 where at: "demo_attacker s2 = (demo_attacker_text 66, s3)" and d3: "demo_file s0 s3 demo_forged"
    by blast
  from demo_verifier_kind [OF d3] h obtain s4 where v2: "demo_verifier s3 = (Inr (printVerify (chain_result demo_forged)), s4)"
    and d4: "demo_file s0 s4 demo_forged" by auto
  obtain b' t where u1: "sys_unlink kDemoWal s4 = (b', t)" by fastforce
  have "kind s4" using d4 by (simp add: demo_file_def)
  note z = sys_unlink_kind [OF u1 this]
  have "names t = (names s)(kDemoWal := None)" using z d4 a by (auto simp: demo_file_def)
  moreover have "file_of t q = file_of s q" if "q \<noteq> kDemoWal" for q
  proof (cases "names s q")
    case (Some i)
    with that a z d4 os_wf_name [OF assms(1) Some] show ?thesis by (simp add: file_of_def demo_file_def)
  qed (use that a z d4 in \<open>simp add: file_of_def demo_file_def\<close>)
  ultimately show ?thesis using u0 ag v1 at v2 u1 by (simp add: demo_main_def)
qed

end
