(* ===== verification/Fuzz.thy ===== *)
theory Fuzz
  imports Demo
begin

text \<open>
  \<^verbatim>\<open>fuzz/fuzz_wal.cpp\<close> and \<^verbatim>\<open>fuzz/fuzz_snapshot.cpp\<close>: the two libFuzzer entry points. Each writes its input behind a
  header of its own making to a temporary file, runs the parser under test on it, and removes the file. The
  process number is an argument; both entry points always return 0.
\<close>

section \<open>Writing the temporary file\<close>

text \<open>The harnesses' own loop gives up at the first \<open>write\<close> that does not return a positive count.\<close>

function raw_write :: "int \<Rightarrow> bytes \<Rightarrow> os \<Rightarrow> os" where
  "raw_write fd buf s =
    (if length buf > 0
     then (case sys_write fd buf s of (r, s) \<Rightarrow>
       (case r of
          Rc n \<Rightarrow> if n = 0 then s else raw_write fd (drop n buf) s
        | Eintr \<Rightarrow> s
        | Err \<Rightarrow> s))
     else s)"
  by pat_completeness auto
termination by (relation "measure (\<lambda>(fd, buf, s). length buf)") auto

declare raw_write.simps [simp del]

definition fuzz_wal_path :: "nat \<Rightarrow> path" where
  "fuzz_wal_path pid = ''/tmp/fuzz_wal_'' @ to_string pid @ ''.wal''"

definition fuzz_wal_header :: bytes where
  "fuzz_wal_header = [0x57, 0x53, 0x4C, 0x31, 0x02, 0, 0, 0, 0, 0, 0, 0, 0, 0, 0, 0]"

definition fuzz_wal :: "nat \<Rightarrow> bytes \<Rightarrow> os \<Rightarrow> nat \<times> os" where
  "fuzz_wal pid data s =
    (case sys_open_creat (fuzz_wal_path pid) False True s of (fd, s) \<Rightarrow>
      if fd = -1 then (0, s)
      else
        let s = raw_write fd fuzz_wal_header s; s = raw_write fd data s; s = snd (sys_close fd s);
            s = (case WAL_open (fuzz_wal_path pid) 1 s of
                   (Inl _, s) \<Rightarrow> s
                 | (Inr w, s) \<Rightarrow>
                     case WAL_recover (\<lambda>_ _ _ _ _. ()) None () w s of (_, _, w, s) \<Rightarrow> snd (WAL_close w s))
        in (0, snd (sys_unlink (fuzz_wal_path pid) s)))"

definition fuzz_snap_path :: "nat \<Rightarrow> path" where
  "fuzz_snap_path pid = ''/tmp/fuzz_snap_'' @ to_string pid @ ''.snap''"

definition fuzz_snap_file :: "bytes \<Rightarrow> bytes" where
  "fuzz_snap_file data =
    (let file = putLE32 [] 0x534E4150; file = putLE32 file 1; file = putLE32 file (CRC32_calculate data) in file @ data)"

definition fuzz_snapshot :: "nat \<Rightarrow> bytes \<Rightarrow> os \<Rightarrow> nat \<times> os" where
  "fuzz_snapshot pid data s =
    (case sys_open_creat (fuzz_snap_path pid) False True s of (fd, s) \<Rightarrow>
      if fd = -1 then (0, s)
      else
        let s = raw_write fd (fuzz_snap_file data) s; s = snd (sys_close fd s);
            s = snd (Snapshot_load (fuzz_snap_path pid) SnapshotImage_default s)
        in (0, snd (sys_unlink (fuzz_snap_path pid) s)))"

section \<open>Runs without failures and signals\<close>

definition undisturbed :: "os \<Rightarrow> bool" where
  "undisturbed s \<longleftrightarrow> kind s \<and> Intr \<notin> set (xfers s)"

lemma sys_write_undisturbed:
  assumes w: "sys_write fd buf s = (r, t)" and e: "at_end s fd" and u: "undisturbed s" and ne: "buf \<noteq> []"
  shows "undisturbed t \<and> (\<exists>n. r = Rc n \<and> n \<noteq> 0)"
proof -
  obtain x v where nx: "next_xfer s = (x, v)" by fastforce
  have x: "x \<noteq> Intr \<and> set (xfers v) \<subseteq> set (xfers s)"
    using nx u by (auto simp: next_xfer_def undisturbed_def split: list.splits if_splits)
  have "xfers t = xfers v" using w nx
    by (auto simp: sys_write_def do_write_def Let_def set_offset_def set_content_def split: option.splits xfer.splits)
  moreover have "r \<noteq> Eintr" using w nx x by (auto simp: sys_write_def do_write_def Let_def split: option.splits xfer.splits)
  ultimately show ?thesis using sys_write_kind [OF w e] u x ne by (cases r) (auto simp: undisturbed_def)
qed

lemma raw_write_undisturbed:
  "at_end s fd \<Longrightarrow> undisturbed s \<Longrightarrow> raw_write fd buf s = t \<Longrightarrow>
    undisturbed t \<and> at_end t fd \<and> only_file fd s t \<and> fcontent t fd = fcontent s fd @ buf"
proof (induction fd buf s arbitrary: t rule: raw_write.induct)
  case (1 fd buf s)
  show ?case
  proof (cases "buf = []")
    case True
    with "1.prems" show ?thesis by (simp add: raw_write.simps [of fd "[]" s])
  next
    case False
    obtain r u where w: "sys_write fd buf s = (r, u)" by fastforce
    from sys_write_undisturbed [OF w "1.prems"(1,2) False] obtain n where u: "undisturbed u" and n: "r = Rc n" "n \<noteq> 0" by auto
    from sys_write_any [OF w "1.prems"(1)] n have a: "only_file fd s u" "at_end u fd"
      "fcontent u fd = fcontent s fd @ take n buf" by simp_all
    from "1.prems"(3) False w n have "raw_write fd (drop n buf) u = t" by (simp add: raw_write.simps [of fd buf s])
    from "1.IH" [OF _ w [symmetric] n a(2) u this] False a show ?thesis by (auto intro: only_file_trans)
  qed
qed

lemma sys_close_fds: "sys_close fd s = (b, t) \<Longrightarrow> kind s \<Longrightarrow> fds t = (fds s)(fd := None)"
  using next_ctl_kind [of s "fst (next_ctl s)" "snd (next_ctl s)"] next_ctl_same [of s "fst (next_ctl s)" "snd (next_ctl s)"]
  by (auto simp: sys_close_def kind_def same_files_def split: prod.splits)

text \<open>The temporary file is written in full and its descriptor is closed.\<close>

lemma dump_undisturbed:
  assumes op: "sys_open_creat p False True s = (fd, s1)" and wf: "os_wf s" and u: "undisturbed s"
    and w: "raw_write fd a s1 = s2" "raw_write fd b s2 = s3" and cl: "sys_close fd s3 = (x, t)"
  shows "fd \<noteq> -1 \<and> os_wf t \<and> kind t \<and> fds t = fds s \<and> file_of t p = Some (a @ b) \<and> names t = (names s)(p := names t p)"
proof -
  have k: "kind s" using u by (simp add: undisturbed_def)
  from sys_open_creat_any [OF op wf] k obtain i where nn: "fd \<noteq> -1" and wf1: "os_wf s1" and k1: "kind s1" and fresh: "fds s fd = None"
    and f: "fds s1 fd = Some \<lparr>f_ino = i, f_off = 0, f_append = False\<rparr>" and n1: "names s1 = (names s)(p \<mapsto> i)"
    and g: "\<And>g. g \<noteq> fd \<Longrightarrow> fds s1 g = fds s g" and c1: "cached (inodes s1 i) = []"
    by auto
  have "xfers s1 = xfers s" using op next_ctl_same [of s "fst (next_ctl s)" "snd (next_ctl s)"]
    by (auto simp: sys_open_creat_def new_fd_def fresh_inode_def set_content_def split: prod.splits option.splits if_splits)
  then have u1: "undisturbed s1" using u k1 by (simp add: undisturbed_def)
  have "at_end s1 fd" using f c1 by (simp add: at_end_def)
  from raw_write_undisturbed [OF this u1 w(1)] have u2: "undisturbed s2" "at_end s2 fd" "only_file fd s1 s2"
    "fcontent s2 fd = a" using f c1 by (simp_all add: fcontent_def)
  from raw_write_undisturbed [OF u2(2,1) w(2)] u2 have u3: "undisturbed s3" "only_file fd s1 s3" "fcontent s3 fd = a @ b"
    by (auto intro: only_file_trans)
  have k3: "kind s3" using u3 by (simp add: undisturbed_def)
  obtain m where m: "fds s3 fd = Some \<lparr>f_ino = i, f_off = m, f_append = False\<rparr>" using only_file_ino [OF u3(2) f] by auto
  note c = sys_close_any [OF cl] and fd = sys_close_fds [OF cl k3]
  have "fds s3 g = fds s g" if "g \<noteq> fd" for g using u3(2) g [OF that] that by (simp add: only_file_def)
  then have "fds t = fds s" using fd fresh by auto
  moreover have "names s3 = names s1" using u3(2) by (simp add: only_file_def)
  ultimately show ?thesis using nn c k3 only_file_wf [OF u3(2) wf1] u3(3) m n1
    by (auto simp: file_of_def fcontent_def)
qed

text \<open>Opening, recovering and closing leave every descriptor as it was.\<close>

lemma recover_run_kind:
  assumes wf: "os_wf u" and k: "kind u" and f: "file_of u p = Some c" and h: "valid_header (take 16 c)" and ne: "c \<noteq> []"
  shows "\<exists>w v r st w' x. WAL_open p 1 u = (Inr w, v) \<and> WAL_recover f0 m st0 w v = (r, st, w', x) \<and> r = chain_result c \<and>
    kind (snd (WAL_close w' x)) \<and> fds (snd (WAL_close w' x)) = fds u \<and> names (snd (WAL_close w' x)) = names u"
proof -
  from WAL_open_kind [OF wf k, of p 1] f h ne obtain w v where op: "WAL_open p 1 u = (Inr w, v)" and kv: "kind v"
    by (cases c) auto
  note a = WAL_open_any [OF op wf]
  have eq: "w = \<lparr>m_path = p, m_fd = m_fd w, m_epoch = 0, m_seq = 0, m_headHash = zero_hash,
      m_syncEveryN = (if (1 :: nat) < 1 then 1 else 1), m_pendingWrites = 0\<rparr>" using a by blast
  have nn: "m_fd w \<noteq> -1" and app: "appending v (m_fd w)" and fresh: "fds u (m_fd w) = None"
    and g: "\<And>g. g \<noteq> m_fd w \<Longrightarrow> fds v g = fds u g" using a by blast+
  have nv: "names v = names u" using a f by (auto simp: file_of_def map_upd_triv)
  have c: "fcontent v (m_fd w) = c" using a f ne by (cases c) simp_all
  have hv: "valid_header (take 16 (fcontent v (m_fd w)))" using c h by simp
  obtain r st w' x where rc: "WAL_recover f0 m st0 w v = (r, st, w', x)" by (metis prod_cases4)
  obtain vs e where sc: "file_scan (fcontent v (m_fd w)) = (vs, e)" by fastforce
  note b = WAL_recover_kind [OF rc nn app kv sc hv]
  have of: "only_file (m_fd w) v x" and kx: "kind x" and r: "r = chain_result c" using b sc c by (simp_all add: chain_result_def)
  have w': "m_fd w' = m_fd w" "m_pendingWrites w' = 0"
    using b arg_cong [OF eq, of m_pendingWrites] by (auto split: if_splits)
  obtain o1 y where cl: "sys_close (m_fd w) x = (o1, y)" by fastforce
  have y: "snd (WAL_close w' x) = y" using w' nn cl by (simp add: WAL_close_def)
  have "fds y h = fds u h" for h
    using sys_close_fds [OF cl kx] fresh g [of h] of by (cases "h = m_fd w") (auto simp: only_file_def)
  then have "fds y = fds u" ..
  moreover have "names y = names u" using sys_close_any [OF cl] of nv by (simp add: only_file_def)
  moreover have "kind y" using sys_close_any [OF cl] kx by simp
  ultimately show ?thesis using op rc r y by blast
qed

lemma ifstream_read_fds:
  assumes rd: "ifstream_read p s = (res, t)" and wf: "os_wf s" and k: "kind s"
  shows "fds t = fds s"
proof -
  obtain fd s1 where o: "sys_open_read p s = (fd, s1)" by fastforce
  note op = sys_open_read_any [OF o wf]
  show ?thesis
  proof (cases "fd = -1")
    case True
    with rd o op same_files_simps(4) [of s s1] show ?thesis by (auto simp: ifstream_read_def)
  next
    case False
    obtain bs s2 where sl: "slurp fd [] s1 = (bs, s2)" by fastforce
    obtain x s3 where cl: "sys_close fd s2 = (x, s3)" by fastforce
    have "only_file fd s1 s2" "kind s2" using slurp_any [OF sl] op k False by auto
    moreover have "t = s3" using rd o sl cl False by (simp add: ifstream_read_def)
    ultimately have "fds t h = fds s h" for h
      using sys_close_fds [OF cl] op False by (cases "h = fd") (auto simp: only_file_def)
    then show ?thesis ..
  qed
qed

text \<open>The harness's headers are those of the formats.\<close>

lemma fuzz_wal_header: "fuzz_wal_header = header_bytes"
  unfolding header_literal by (simp add: fuzz_wal_header_def)

lemma fuzz_snap_file: "load_bytes (fuzz_snap_file data) img = load_payload data img"
proof -
  have "fuzz_snap_file data = putLE32 [] SNAP_MAGIC @ putLE32 [] SNAP_VERSION @ putLE32 [] (CRC32_calculate data) @ data"
    unfolding fuzz_snap_file_def Let_def SNAP_MAGIC_def SNAP_VERSION_def by (metis append.assoc putLE32_append)
  then show ?thesis by (simp add: load_bytes_at getLE32_putLE32 [of _ "[]", simplified])
qed

end
