(* ===== verification/Tool_Properties.thy ===== *)
theory Tool_Properties
  imports Fuzz
begin

text \<open>
  The properties of the command line verifier: what it reports of any file when no call fails, what it
  may report and change when calls do fail, that it accepts what \<open>append\<close> wrote, and that its report
  identifies a checkpoint.
\<close>

section \<open>One run\<close>

lemma fs_exists_any:
  assumes "fs_exists p s = (r, t)"
  shows "same_files s t \<and> (r = Inr (names s p \<noteq> None) \<or> (\<exists>e. r = Inl e)) \<and>
    (kind s \<longrightarrow> kind t \<and> r = Inr (names s p \<noteq> None))"
proof -
  obtain b u where nx: "next_ctl s = (b, u)" by fastforce
  from next_ctl_same [OF nx] have same: "same_files s u" by simp
  from assms nx next_ctl_kind [OF nx] same same_files_simps(1) [OF same] show ?thesis
    by (auto simp: fs_exists_def split: if_splits)
qed

lemma exists_file: "file_of s p = Some c \<Longrightarrow> names s p \<noteq> None"
  by (auto simp: file_of_def)

lemma empty_log_report: "fst (verify_report (chain_result header_bytes)) = 0"
  by (simp add: chain_result_def no_room_scan result_of_def verify_report_def)

lemma verify_main_opens:
  assumes "fs_exists p s = (Inr True, s1)"
  shows "verify_main [prog, p] s = (case WAL_open p 1 s1 of
      (Inl e, s) \<Rightarrow> ((Exit 2, '''', ''error: '' @ what e @ endl), s)
    | (Inr w, s) \<Rightarrow> case WAL_verify w s of (r, s) \<Rightarrow>
        case verify_report r of (code, out) \<Rightarrow> ((Exit code, out, ''''), snd (WAL_close w s)))"
  using assms by (simp add: verify_main_def)

section \<open>The verifier\<close>

lemma verify_tool_kind:
  assumes "os_wf s" and "kind s"
  shows "case verify_main [prog, p] s of (outcome, t) \<Rightarrow>
    (case file_of s p of
       None \<Rightarrow> outcome = (Exit 2, '''', ''error: no such file: '' @ p @ endl) \<and> names t = names s \<and> inodes t = inodes s
     | Some c \<Rightarrow>
         (c = [] \<longrightarrow> outcome = (Exit 0, snd (verify_report (chain_result header_bytes)), '''') \<and> file_of t p = Some header_bytes) \<and>
         (c \<noteq> [] \<longrightarrow> (\<forall>q. file_of t q = file_of s q) \<and>
           outcome = (if valid_header (take 16 c)
             then (Exit (fst (verify_report (chain_result c))), snd (verify_report (chain_result c)), '''')
             else (Exit 2, '''', ''error: Invalid or corrupt WAL header: '' @ p @ endl))))"
proof -
  obtain ex s1 where e: "fs_exists p s = (ex, s1)" by fastforce
  note a = fs_exists_any [OF e]
  have same: "same_files s s1" and k: "kind s1" and r: "ex = Inr (names s p \<noteq> None)" using a assms(2) by auto
  have wf: "os_wf s1" using same_files_wf [OF same] assms(1) by simp
  have fo: "file_of s1 q = file_of s q" for q by (rule same_files_file_of [OF same])
  show ?thesis
  proof (cases "file_of s p")
    case None
    then have "names s p = None" by (simp add: file_of_def)
    with None e r same_files_simps(1,3) [OF same] show ?thesis by (simp add: verify_main_def)
  next
    case (Some c)
    have c1: "file_of s1 p = Some c" using Some fo by simp
    have "fs_exists p s = (Inr True, s1)" using e r exists_file [OF Some] by simp
    note run = verify_main_opens [OF this]
    obtain o1 s2 where op: "WAL_open p 1 s1 = (o1, s2)" by fastforce
    show ?thesis
    proof (cases o1)
      case (Inl x)
      with WAL_open_kind [OF wf k, of p 1] c1 op obtain b d where c: "c = b # d" "\<not> valid_header (take 16 c)"
        "x = runtime_error (''Invalid or corrupt WAL header: '' @ p)"
        by (auto split: list.splits if_splits)
      with WAL_open_fails [OF op [unfolded Inl] wf c1 [unfolded c(1)]] Some fo run op Inl show ?thesis by simp
    next
      case (Inr w)
      obtain r2 s3 where v: "WAL_verify w s2 = (r2, s3)" by fastforce
      have "kind s2" using WAL_open_kind [OF wf k, of p 1] c1 op Inr by (auto split: list.splits if_splits)
      with verify_steps [OF op [unfolded Inr] wf c1 v] run [of prog] op Inr v Some fo empty_log_report show ?thesis
        by (cases "verify_report r2") (auto simp: Let_def)
    qed
  qed
qed

text \<open>The exit codes the tool's comment documents: 0 intact or torn tail, 1 tampering, 2 error.\<close>

fun documented_code :: "RecoveryStatus \<Rightarrow> nat" where
  "documented_code Ok = 0"
| "documented_code TruncatedTail = 0"
| "documented_code Malformed = 2"
| "documented_code Tampered = 1"

lemma report_code: "fst (verify_report r) = documented_code (status r)"
  by (cases "status r") (simp_all add: verify_report_def Let_def)

text \<open>C9. When no call fails, the verifier is a function of the file's bytes: a missing file and a bad header are errors
  (exit code 2), an empty file is given a header and passes, and every other file gets the report and the exit
  code of the reader's verdict and is left as it is.\<close>

theorem verify_tool_verdict:
  assumes "os_wf s" and "kind s"
  shows "case verify_main [prog, p] s of (outcome, t) \<Rightarrow>
    (case file_of s p of
       None \<Rightarrow> outcome = (Exit 2, '''', ''error: no such file: '' @ p @ endl) \<and> names t = names s \<and> inodes t = inodes s
     | Some c \<Rightarrow>
         (c = [] \<longrightarrow> outcome = (Exit 0, snd (verify_report (chain_result header_bytes)), '''') \<and> file_of t p = Some header_bytes) \<and>
         (c \<noteq> [] \<longrightarrow> (\<forall>q. file_of t q = file_of s q) \<and>
           outcome = (if valid_header (take 16 c)
             then (Exit (documented_code (status (chain_result c))), snd (verify_report (chain_result c)), '''')
             else (Exit 2, '''', ''error: Invalid or corrupt WAL header: '' @ p @ endl))))"
  unfolding report_code [symmetric] by (rule verify_tool_kind [OF assms])

theorem verify_tool_verdict_witness:
  "fst (verify_main [''verify'', ''w''] sample_os) = (Exit 0, snd (verify_report (chain_result header_bytes)), '''')"
proof -
  have f: "file_of sample_os ''w'' = Some header_bytes" by (simp add: file_of_def sample_os_def sample_inodes_def)
  have t: "take 16 header_bytes = header_bytes" "header_bytes \<noteq> []" using length_header_bytes by (simp, metis list.size(3) zero_neq_numeral)
  with verify_tool_verdict [OF sample_os_wf sample_kind, where prog = "''verify''" and p = "''w''"] f empty_log_report [unfolded report_code] show ?thesis
    by (auto split: prod.splits)
qed

text \<open>C18. No false alarm and no damage: whatever calls fail, the verifier exits with code 1 only when the file at
  its path really has the verdict \<open>Tampered\<close>, and reports it at the right place; it never changes a name, and no
  file but an empty one at its path.\<close>

theorem verify_tool_alarm_is_sound:
  assumes "os_wf s" and "length argv = 2"
  shows "case verify_main argv s of ((code, out, err), t) \<Rightarrow>
    (code = Exit 1 \<longrightarrow> (\<exists>c. file_of s (argv ! 1) = Some c \<and> valid_header (take 16 c) \<and>
      status (chain_result c) = Tampered \<and>
      out = ''FAIL  TAMPERING DETECTED at offset '' @ to_string (unat (tamperOffset (chain_result c))) @ '' (after '' @
        to_string (unat (entriesVerified (chain_result c))) @ '' valid entries)'' @ endl)) \<and>
    names t = names s \<and> (file_of s (argv ! 1) \<noteq> Some [] \<longrightarrow> (\<forall>q. file_of t q = file_of s q))"
proof -
  let ?p = "argv ! 1"
  obtain ex s1 where e: "fs_exists ?p s = (ex, s1)" by fastforce
  note a = fs_exists_any [OF e]
  have same: "same_files s s1" using a by simp
  have wf: "os_wf s1" using same_files_wf [OF same] assms(1) by simp
  have fo: "file_of s1 q = file_of s q" for q by (rule same_files_file_of [OF same])
  have n1: "names s1 = names s" using same_files_simps(1) [OF same] .
  show ?thesis
  proof (cases "ex = Inr True")
    case False
    with a have "ex = Inr False \<or> (\<exists>x. ex = Inl x)" by auto
    then show ?thesis using e assms(2) fo n1 by (auto simp: verify_main_def)
  next
    case True
    with a obtain c where c: "file_of s ?p = Some c" by (auto simp: file_of_def)
    then have c1: "file_of s1 ?p = Some c" using fo by simp
    have argv: "argv = [argv ! 0, ?p]"
      using assms(2) by (auto simp: length_Suc_conv numeral_2_eq_2)
    note run = verify_main_opens [OF e [unfolded True], of "argv ! 0", folded argv]
    obtain o1 s2 where op: "WAL_open ?p 1 s1 = (o1, s2)" by fastforce
    show ?thesis
    proof (cases o1)
      case (Inl x)
      have "names s2 = names s1" by (rule WAL_open_names [OF op wf]) (use c1 in simp)
      moreover have "\<forall>q. file_of s2 q = file_of s1 q" if "c \<noteq> []"
        using that WAL_open_fails [OF op [unfolded Inl] wf] c1 by (cases c) auto
      ultimately show ?thesis using run op Inl c fo n1 by auto
    next
      case (Inr w)
      obtain r2 s3 where v: "WAL_verify w s2 = (r2, s3)" by fastforce
      note st = verify_steps [OF op [unfolded Inr] wf c1 v]
      have "fst (verify_report r2) = 1 \<longleftrightarrow> status r2 = Tampered"
        by (simp add: verify_report_def Let_def split: RecoveryStatus.split)
      moreover have "status (chain_result header_bytes) \<noteq> Tampered" "status RecoveryResult_default \<noteq> Tampered"
        by (simp_all add: chain_result_def no_room_scan result_of_def RecoveryResult_default_def)
      ultimately have "fst (verify_report r2) = 1 \<longrightarrow> valid_header (take 16 c) \<and> status r2 = Tampered \<and> r2 = chain_result c"
        using st by (cases "c = []") (auto simp: Let_def)
      moreover have "names (snd (WAL_close w s3)) = names s" "c \<noteq> [] \<longrightarrow> (\<forall>q. file_of (snd (WAL_close w s3)) q = file_of s q)"
        using st fo n1 by (auto simp: Let_def)
      ultimately show ?thesis using run op Inr v c
        by (cases "verify_report r2") (auto simp: verify_report_def Let_def)
    qed
  qed
qed

theorem verify_tool_alarm_is_sound_witness:
  "case verify_main [''verify'', ''w''] (sample_os\<lparr>ctls := [Succeed, Refuse]\<rparr>) of ((code, out, err), t) \<Rightarrow>
    names t = [''w'' \<mapsto> 0]"
proof -
  have "os_wf (sample_os\<lparr>ctls := [Succeed, Refuse]\<rparr>)"
    using sample_os_wf by (simp add: os_wf_def)
  moreover have "names (sample_os\<lparr>ctls := [Succeed, Refuse]\<rparr>) = [''w'' \<mapsto> 0]" by (simp add: sample_os_def)
  ultimately show ?thesis using verify_tool_alarm_is_sound [of "sample_os\<lparr>ctls := [Succeed, Refuse]\<rparr>" "[''verify'', ''w'']"]
    by (auto split: prod.splits)
qed

text \<open>C19. The log's owner and the verifier agree: after \<open>close\<close>, on a log that \<open>append\<close> has written, the verifier exits
  with code 0 and prints the number of records and the head hash that \<open>head()\<close> reported.\<close>

theorem verify_tool_accepts_own_log:
  assumes "wal_holds w s rs" and "os_wf s" and "kind s" and "file_of s p = Some (fcontent s (m_fd w))"
  shows "fst (verify_main [prog, p] (snd (WAL_close w s))) =
    (Exit 0, ''OK    chain intact - '' @ to_string (unat (cp_seq (WAL_head w))) @ '' entries verified'' @ endl @
       ''      head: '' @ toHex (cp_head (WAL_head w)) @ endl, '''')"
proof -
  let ?c = "fcontent s (m_fd w)"
  obtain w' t where cl: "WAL_close w s = (w', t)" by fastforce
  from WAL_close_any [OF cl, of rs] assms have wf: "os_wf t" and k: "kind t" and f: "file_of t p = Some ?c"
    by (auto simp: file_of_def)
  have h: "holds_bytes ?c rs" using assms(1) by (simp add: wal_holds_def)
  have c: "valid_header (take 16 ?c)" "?c \<noteq> []" using holds_bytes_len [OF h] h by (auto simp: holds_bytes_def)
  have "chain_result ?c = result_of (verified_list zero_hash 0 rs) Clean"
    by (simp add: chain_result_def file_scan_holds [OF h])
  moreover have "m_seq w = of_nat (length rs)" "m_headHash w = log_head zero_hash 0 rs"
    using assms(1) by (simp_all add: wal_holds_def)
  ultimately show ?thesis using verify_tool_kind [OF wf k, of p prog] f c cl
    by (auto simp: result_of_def verify_report_def WAL_head_def split: prod.splits)
qed

theorem verify_tool_accepts_own_log_witness:
  "fst (verify_main [''verify'', ''w''] (snd (WAL_close sample_wal sample_os))) =
    (Exit 0, ''OK    chain intact - '' @ to_string 0 @ '' entries verified'' @ endl @
       ''      head: '' @ toHex zero_hash @ endl, '''')"
proof -
  have "file_of sample_os ''w'' = Some header_bytes" by (simp add: file_of_def sample_os_def sample_inodes_def)
  from verify_tool_accepts_own_log [OF sample_holds sample_os_wf sample_kind, of "''w''" "''verify''"] this
  show ?thesis by (simp add: WAL_head_def) (simp add: sample_wal_def)
qed

text \<open>A passing report identifies a checkpoint: two runs that print the same text, one of them with verdict \<open>Ok\<close>,
  have verified the same number of entries and the same head hash.\<close>

theorem report_identifies_checkpoint:
  assumes "snd (verify_report r) = snd (verify_report r')" and "status r = Ok"
    and "length (headHash r) = 32" and "length (headHash r') = 32"
  shows "status r' = Ok \<and> entriesVerified r = entriesVerified r' \<and> headHash r = headHash r'"
proof -
  have ok: "status r' = Ok"
    using assms(1,2) by (cases "status r'") (simp_all add: verify_report_def Let_def)
  from assms(1,2) ok have "to_string (unat (entriesVerified r)) @ CHR '' '' # ''entries verified'' @ endl @ ''      head: '' @ toHex (headHash r) @ endl =
    to_string (unat (entriesVerified r')) @ CHR '' '' # ''entries verified'' @ endl @ ''      head: '' @ toHex (headHash r') @ endl"
    by (simp add: verify_report_def Let_def)
  from to_string_blank [OF this] have "entriesVerified r = entriesVerified r'" "toHex (headHash r) = toHex (headHash r')"
    by (simp_all add: word_unat_eq_iff)
  with ok toHex_inj [of "headHash r" "headHash r'"] assms(3,4) show ?thesis by simp
qed

theorem report_identifies_checkpoint_witness:
  "status (RecoveryResult_default\<lparr>tamperSeq := 3\<rparr>) = Ok"
  using report_identifies_checkpoint [of RecoveryResult_default "RecoveryResult_default\<lparr>tamperSeq := 3\<rparr>"]
  by (simp add: RecoveryResult_default_def verify_report_def zero_hash_def)

section \<open>The demonstration\<close>

text \<open>C20. When no call fails, the demonstration always tells the same story, whatever was at its path before: three
  events recorded, the chain verified with three entries, one byte flipped at offset 66, and the tampering detected
  at the first entry; it removes its file and leaves every other one alone.\<close>

theorem demo_catches_the_edit:
  assumes "os_wf s" and "kind s"
  shows "case demo_main s of (outcome, t) \<Rightarrow>
    outcome = (Exit 0, demo_title @ demo_agent_text \<lparr>cp_seq = 3, cp_head = log_head zero_hash 0 demo_records\<rparr> @
      ''[verify]   chain intact - 3 entries verified  [OK]'' @ endl @ endl @ demo_attacker_text 66 @
      ''[verify]   TAMPERING DETECTED at offset 16 (after 0 valid entries)  [FAIL]'' @ endl @ demo_closing) \<and>
    names t = (names s)(kDemoWal := None) \<and> (\<forall>q. q \<noteq> kDemoWal \<longrightarrow> file_of t q = file_of s q)"
proof -
  have n: "to_string 3 = ''3''" "to_string 16 = ''16''" "to_string 0 = ''0''"
    by (simp_all add: to_string.simps char_of_def bit_Suc_0_iff)
  from demo_main_kind [OF assms] n show ?thesis
    by (auto simp: demo_log_result demo_forged_result printVerify_def)
qed

theorem demo_catches_the_edit_witness:
  "names (snd (demo_main sample_os)) = [''w'' \<mapsto> 0]"
proof -
  have "(names sample_os)(kDemoWal := None) = [''w'' \<mapsto> 0]" by (auto simp: sample_os_def kDemoWal_def)
  with demo_catches_the_edit [OF sample_os_wf sample_kind] show ?thesis by (auto split: prod.splits)
qed

section \<open>The fuzzing harnesses\<close>

text \<open>The log harness tests what it means to: undisturbed, for every input its hand-written header is accepted, and
  \<open>recover\<close> runs on exactly the input as entries, with the reader's verdict; afterwards no descriptor is left
  open, the temporary file is gone, and the harness returns 0.\<close>

theorem fuzz_wal_reaches_recover:
  assumes "os_wf s" and "undisturbed s"
  shows "\<exists>u w v r w' x. WAL_open (fuzz_wal_path pid) 1 u = (Inr w, v) \<and> fcontent v (m_fd w) = header_bytes @ data \<and>
    WAL_recover (\<lambda>_ _ _ _ _. ()) None () w v = (r, (), w', x) \<and> r = chain_result (header_bytes @ data) \<and>
    fuzz_wal pid data s = (0, snd (sys_unlink (fuzz_wal_path pid) (snd (WAL_close w' x)))) \<and>
    fds (snd (fuzz_wal pid data s)) = fds s \<and> names (snd (fuzz_wal pid data s)) = (names s)(fuzz_wal_path pid := None)"
proof -
  let ?p = "fuzz_wal_path pid"
  obtain fd s1 where op: "sys_open_creat ?p False True s = (fd, s1)" by fastforce
  obtain b u where cl: "sys_close fd (raw_write fd data (raw_write fd fuzz_wal_header s1)) = (b, u)" by fastforce
  from dump_undisturbed [OF op assms refl refl cl] fuzz_wal_header
  have nn: "fd \<noteq> -1" and u: "os_wf u" "kind u" "fds u = fds s" "file_of u ?p = Some (header_bytes @ data)"
    "names u = (names s)(?p := names u ?p)" by simp_all
  have ne: "header_bytes @ data \<noteq> []" by (simp add: header_literal)
  from recover_run_kind [OF u(1,2,4) _ ne, of "\<lambda>_ _ _ _ _. ()" None "()"] obtain w v r w' x
    where o: "WAL_open ?p 1 u = (Inr w, v)" and rc: "WAL_recover (\<lambda>_ _ _ _ _. ()) None () w v = (r, (), w', x)"
      and r: "r = chain_result (header_bytes @ data)" and k: "kind (snd (WAL_close w' x))"
      and f: "fds (snd (WAL_close w' x)) = fds u" and n: "names (snd (WAL_close w' x)) = names u"
    by auto
  have c: "fcontent v (m_fd w) = header_bytes @ data"
    using WAL_open_any [OF o u(1)] u(4) by (simp add: header_literal)
  have run: "fuzz_wal pid data s = (0, snd (sys_unlink ?p (snd (WAL_close w' x))))"
    using op nn cl o rc by (simp add: fuzz_wal_def)
  obtain b' y where un: "sys_unlink ?p (snd (WAL_close w' x)) = (b', y)" by fastforce
  from sys_unlink_kind [OF un k] f n u(3,5) have "fds y = fds s" "names y = (names s)(?p := None)"
    by (simp, metis fun_upd_upd)
  moreover have "snd (fuzz_wal pid data s) = y" using run un by simp
  ultimately show ?thesis using o c rc r run by blast
qed

theorem fuzz_wal_reaches_recover_witness:
  "names (snd (fuzz_wal 7 [1, 2, 3] sample_os)) = (names sample_os)(fuzz_wal_path 7 := None)"
  using fuzz_wal_reaches_recover [of sample_os 7 "[1, 2, 3]"]
  by (auto simp: undisturbed_def sample_os_def [THEN arg_cong [of _ _ xfers]])

text \<open>So does the snapshot harness: undisturbed, \<open>load\<close> gets past the header and the checksum for every input and
  parses exactly the input, without reading out of bounds; no descriptor and no file is left behind.\<close>

theorem fuzz_snapshot_reaches_parser:
  assumes "os_wf s" and "undisturbed s" and "length data + 12 < 2 ^ 64"
  shows "\<exists>u res v. Snapshot_load (fuzz_snap_path pid) SnapshotImage_default u = (res, v) \<and>
    res = load_payload data SnapshotImage_default \<and> fst res \<noteq> OutOfBounds \<and>
    fuzz_snapshot pid data s = (0, snd (sys_unlink (fuzz_snap_path pid) v)) \<and>
    fds (snd (fuzz_snapshot pid data s)) = fds s \<and> names (snd (fuzz_snapshot pid data s)) = (names s)(fuzz_snap_path pid := None)"
proof -
  let ?p = "fuzz_snap_path pid"
  obtain fd s1 where op: "sys_open_creat ?p False True s = (fd, s1)" by fastforce
  obtain b u where cl: "sys_close fd (raw_write fd (fuzz_snap_file data) s1) = (b, u)" by fastforce
  have "raw_write fd [] z = z" for z by (simp add: raw_write.simps)
  from dump_undisturbed [OF op assms(1,2) refl this cl]
  have nn: "fd \<noteq> -1" and u: "os_wf u" "kind u" "fds u = fds s" "file_of u ?p = Some (fuzz_snap_file data)"
    "names u = (names s)(?p := names u ?p)" by simp_all
  obtain inp v where rd: "ifstream_read ?p u = (inp, v)" by fastforce
  from ifstream_read_any [OF rd u(1)] u(2,4) have inp: "inp = Some (fuzz_snap_file data)" and kv: "kind v" and nv: "names v = names u"
    by auto
  have ld: "Snapshot_load ?p SnapshotImage_default u = (load_payload data SnapshotImage_default, v)"
    using rd inp by (simp add: Snapshot_load_def fuzz_snap_file)
  have run: "fuzz_snapshot pid data s = (0, snd (sys_unlink ?p v))"
    using op nn cl ld by (simp add: fuzz_snapshot_def)
  obtain b' y where un: "sys_unlink ?p v = (b', y)" by fastforce
  from sys_unlink_kind [OF un kv] ifstream_read_fds [OF rd u(1,2)] nv u(3,5) have "fds y = fds s" "names y = (names s)(?p := None)"
    by (simp, metis fun_upd_upd)
  moreover have "fst (load_payload data SnapshotImage_default) \<noteq> OutOfBounds"
    using load_payload_bound [of data SnapshotImage_default] assms(3)
    by (cases "load_payload data SnapshotImage_default") simp
  moreover have "snd (fuzz_snapshot pid data s) = y" using run un by simp
  ultimately show ?thesis using ld run by blast
qed

theorem fuzz_snapshot_reaches_parser_witness:
  "fds (snd (fuzz_snapshot 7 [1, 2, 3] sample_os)) = fds sample_os"
  using fuzz_snapshot_reaches_parser [of sample_os "[1, 2, 3]" 7]
  by (auto simp: undisturbed_def sample_os_def [THEN arg_cong [of _ _ xfers]])

end
