(* ===== verification/Engine_Threads.thy ===== *)
theory Engine_Threads
  imports Engine_Average
begin

text \<open>
  \<^verbatim>\<open>StorageEngine\<close> used by several threads. The theories before take a method as one step; here a method is
  a sequence of small steps, one per statement of its body that touches the object, and steps of different
  threads interleave. What may come between them is decided by the \<^verbatim>\<open>std::shared_mutex\<close> alone: a body says
  itself when it locks and in which mode, and gives up the lock when it returns.

  An iterator into \<open>m_data\<close> is the key it was found under. Using it after the key is gone, or past the
  end of its history, is \<open>Undefined\<close>. The mutex of the log is never contended: every step that calls the log
  belongs to a body that has locked the engine exclusively.
\<close>

section \<open>Steps of the methods\<close>

type_synonym shared_state = "StorageEngine \<times> os"

text \<open>What a call hands back to its thread: its result, or what it throws.\<close>

datatype reply =
    Returned
  | Found bool
  | Got "bytes option"
  | Averaged "double option"
  | Counted nat
  | Failed failure

text \<open>How a small step ends: wait for the mutex in one of its modes, go on, or return.\<close>

datatype 'k outcome = LockUnique 'k | LockShared 'k | Continue 'k | Return reply

datatype set_task =
    SetEnter bytes bytes double
  | SetClock bytes bytes double
  | SetAppend bytes bytes double i64
  | SetStore bytes bytes double i64

fun set_step :: "platform \<Rightarrow> i64 \<Rightarrow> set_task \<Rightarrow> shared_state \<Rightarrow> set_task outcome \<times> shared_state" where
  "set_step P now (SetEnter key val duration) x =
    (if length key > kMaxFieldSize
     then (Return (Failed (Throws (length_error (''key exceeds '' @ to_string kMaxFieldSize @ '' bytes'')))), x)
     else if length val > engine_kMaxFieldSize
     then (Return (Failed (Throws (length_error (''value exceeds '' @ to_string engine_kMaxFieldSize @ '' bytes'')))), x)
     else (LockUnique (SetClock key val duration), x))"
| "set_step P now (SetClock key val duration) x = (Continue (SetAppend key val duration now), x)"
| "set_step P now (SetAppend key val duration stamp) (e, s) =
    (case m_wal e of
       None \<Rightarrow> (Continue (SetStore key val duration stamp), e, s)
     | Some w \<Rightarrow>
         case WAL_append PUT key (serialize P duration val) stamp w s of
           (Inl x, w, s) \<Rightarrow> (Return (Failed (Throws x)), e\<lparr>m_wal := Some w\<rparr>, s)
         | (Inr _, w, s) \<Rightarrow> (Continue (SetStore key val duration stamp), e\<lparr>m_wal := Some w\<rparr>, s))"
| "set_step P now (SetStore key val duration stamp) (e, s) =
    (Return Returned, e\<lparr>m_data := appendCapped (m_maxHistoryPerKey e) (m_data e) key val duration stamp\<rparr>, s)"

datatype remove_task = RemoveEnter bytes | RemoveClock bytes | RemoveAppend bytes i64 | RemoveErase bytes i64

definition erase_key :: "bytes \<Rightarrow> StorageEngine \<Rightarrow> bool \<times> StorageEngine" where
  "erase_key key e = (map_of (m_data e) key \<noteq> None, e\<lparr>m_data := AList.delete key (m_data e)\<rparr>)"

fun remove_step :: "i64 \<Rightarrow> remove_task \<Rightarrow> shared_state \<Rightarrow> remove_task outcome \<times> shared_state" where
  "remove_step now (RemoveEnter key) x = (LockUnique (RemoveClock key), x)"
| "remove_step now (RemoveClock key) (e, s) =
    (if m_wal e = None then (case erase_key key e of (found, e) \<Rightarrow> (Return (Found found), e, s))
     else (Continue (RemoveAppend key now), e, s))"
| "remove_step now (RemoveAppend key stamp) (e, s) =
    (case m_wal e of
       None \<Rightarrow> (Return (Failed Undefined), e, s)
     | Some w \<Rightarrow>
         case WAL_append DELETE key [] stamp w s of
           (Inl x, w, s) \<Rightarrow> (Return (Failed (Throws x)), e\<lparr>m_wal := Some w\<rparr>, s)
         | (Inr _, w, s) \<Rightarrow> (Continue (RemoveErase key stamp), e\<lparr>m_wal := Some w\<rparr>, s))"
| "remove_step now (RemoveErase key stamp) (e, s) =
    (case erase_key key e of (found, e) \<Rightarrow> (Return (Found found), e, s))"

datatype snapshot_task = SnapshotEnter | SnapshotExport | SnapshotSave SnapshotImage | SnapshotRotate

fun snapshot_step :: "platform \<Rightarrow> snapshot_task \<Rightarrow> shared_state \<Rightarrow> snapshot_task outcome \<times> shared_state" where
  "snapshot_step P SnapshotEnter x = (LockUnique SnapshotExport, x)"
| "snapshot_step P SnapshotExport (e, s) =
    (case m_wal e of
       None \<Rightarrow> (Return (Failed (Throws (runtime_error ''snapshot() called on engine with no WAL''))), e, s)
     | Some w \<Rightarrow> (Continue (SnapshotSave \<lparr>si_epoch = m_epoch w, si_state = iter P (exportSnapshotState (m_data e))\<rparr>), e, s))"
| "snapshot_step P (SnapshotSave img) (e, s) =
    (case m_wal e of
       None \<Rightarrow> (Return (Failed Undefined), e, s)
     | Some w \<Rightarrow>
         case Snapshot_save (m_snapshotPath e) img s of (saved, s) \<Rightarrow>
           if \<not> saved
           then (Return (Failed (Throws (runtime_error (''Failed to write snapshot to disk: '' @ m_snapshotPath e)))), e, s)
           else (Continue SnapshotRotate,
             e\<lparr>m_snapshotEpoch := Some (si_epoch img), m_wal := Some (WAL_setEpoch (si_epoch img + 1) w)\<rparr>, s))"
| "snapshot_step P SnapshotRotate (e, s) =
    (case m_wal e of
       None \<Rightarrow> (Return (Failed Undefined), e, s)
     | Some w \<Rightarrow>
         case WAL_reset w s of (rotated, w, s) \<Rightarrow>
           let e = e\<lparr>m_wal := Some w\<rparr>
           in if \<not> rotated
              then (Return (Failed (Throws (runtime_error (''WAL rotation failed after snapshot: '' @ m_walPath e)))), e, s)
              else (Return Returned, e, s))"

datatype recover_task = RecoverEnter | RecoverLoad | RecoverReplay

fun recover_step :: "platform \<Rightarrow> recover_task \<Rightarrow> shared_state \<Rightarrow> recover_task outcome \<times> shared_state" where
  "recover_step P RecoverEnter x = (LockUnique RecoverLoad, x)"
| "recover_step P RecoverLoad (e, s) =
    (let e = e\<lparr>m_data := [], m_snapshotEpoch := None\<rparr>
     in case Snapshot_load (m_snapshotPath e) SnapshotImage_default s of ((loaded, img), s) \<Rightarrow>
       if loaded = OutOfBounds then (Return (Failed Undefined), e, s) else
       let e = (if loaded = Good
                then e\<lparr>m_snapshotEpoch := Some (si_epoch img),
                       m_data := restore_image P (m_maxHistoryPerKey e) (si_state img)\<rparr>
                else e)
       in case m_wal e of
         None \<Rightarrow> (Return (Failed Undefined), e, s)
       | Some w \<Rightarrow>
           (Continue RecoverReplay,
            e\<lparr>m_wal := Some (if loaded = Good then WAL_setEpoch (si_epoch img + 1) w else WAL_setEpoch 0 w)\<rparr>, s))"
| "recover_step P RecoverReplay (e, s) =
    (case m_wal e of
       None \<Rightarrow> (Return (Failed Undefined), e, s)
     | Some w \<Rightarrow>
         case WAL_recover (recover_visitor P (m_maxHistoryPerKey e)) (m_snapshotEpoch e) (m_data e) w s of
           (result, data, w, s) \<Rightarrow>
             let e = e\<lparr>m_data := data, m_wal := Some w\<rparr>
             in if status result = Tampered
                then (Return (Failed (Throws (runtime_error (''WAL tampering detected at offset '' @
                       to_string (unat (tamperOffset result)) @ '' (seq '' @ to_string (unat (tamperSeq result)) @ '')'')))), e, s)
                else if status result = Malformed
                then (Return (Failed (Throws (runtime_error (''WAL field exceeds the size limit at offset '' @
                       to_string (unat (tamperOffset result)) @ '' (seq '' @ to_string (unat (tamperSeq result)) @
                       '') - foreign or stale file'')))), e, s)
                else (Return Returned, e, s))"

datatype get_task = GetEnter bytes | GetFind bytes | GetRead bytes

fun get_step :: "get_task \<Rightarrow> shared_state \<Rightarrow> get_task outcome \<times> shared_state" where
  "get_step (GetEnter key) x = (LockShared (GetFind key), x)"
| "get_step (GetFind key) (e, s) =
    (case map_of (m_data e) key of
       None \<Rightarrow> (Return (Got None), e, s)
     | Some history \<Rightarrow> if history \<noteq> [] then (Continue (GetRead key), e, s) else (Return (Got None), e, s))"
| "get_step (GetRead key) (e, s) =
    (case map_of (m_data e) key of
       None \<Rightarrow> (Return (Failed Undefined), e, s)
     | Some history \<Rightarrow>
         if history \<noteq> [] then (Return (Got (Some (rec_value (last history)))), e, s) else (Return (Failed Undefined), e, s))"

text \<open>The loop of \<^verbatim>\<open>getAverage\<close>: the position of the iterator in the history and the sum so far.\<close>

datatype average_task = AverageEnter bytes | AverageFind bytes | AverageSum bytes nat double

fun average_step :: "average_task \<Rightarrow> shared_state \<Rightarrow> average_task outcome \<times> shared_state" where
  "average_step (AverageEnter key) x = (LockShared (AverageFind key), x)"
| "average_step (AverageFind key) (e, s) =
    (case map_of (m_data e) key of
       None \<Rightarrow> (Return (Averaged None), e, s)
     | Some history \<Rightarrow>
         if history \<noteq> [] then (Continue (AverageSum key 0 (Double 0)), e, s) else (Return (Averaged None), e, s))"
| "average_step (AverageSum key i acc) (e, s) =
    (case map_of (m_data e) key of
       None \<Rightarrow> (Return (Failed Undefined), e, s)
     | Some history \<Rightarrow>
         if i < length history then (Continue (AverageSum key (i + 1) (double_add acc (rec_duration (history ! i)))), e, s)
         else if i = length history then (Return (Averaged (Some (double_div acc (double_of_nat (length history))))), e, s)
         else (Return (Failed Undefined), e, s))"

datatype count_task = CountEnter | CountSize

fun count_step :: "count_task \<Rightarrow> shared_state \<Rightarrow> count_task outcome \<times> shared_state" where
  "count_step CountEnter x = (LockShared CountSize, x)"
| "count_step CountSize (e, s) = (Return (Counted (length (m_data e))), e, s)"

datatype history_task = HistoryEnter bytes | HistoryFind bytes | HistorySize bytes

fun history_step :: "history_task \<Rightarrow> shared_state \<Rightarrow> history_task outcome \<times> shared_state" where
  "history_step (HistoryEnter key) x = (LockShared (HistoryFind key), x)"
| "history_step (HistoryFind key) (e, s) =
    (case map_of (m_data e) key of
       None \<Rightarrow> (Return (Counted 0), e, s)
     | Some history \<Rightarrow> (Continue (HistorySize key), e, s))"
| "history_step (HistorySize key) (e, s) =
    (case map_of (m_data e) key of
       None \<Rightarrow> (Return (Failed Undefined), e, s)
     | Some history \<Rightarrow> (Return (Counted (length history)), e, s))"

section \<open>Calls\<close>

datatype call =
    CallSet bytes bytes double
  | CallRemove bytes
  | CallSnapshot
  | CallRecover
  | CallGet bytes
  | CallAverage bytes
  | CallCount
  | CallHistory bytes

datatype task =
    SetTask set_task
  | RemoveTask remove_task
  | SnapshotTask snapshot_task
  | RecoverTask recover_task
  | GetTask get_task
  | AverageTask average_task
  | CountTask count_task
  | HistoryTask history_task

fun start :: "call \<Rightarrow> task" where
  "start (CallSet key val duration) = SetTask (SetEnter key val duration)"
| "start (CallRemove key) = RemoveTask (RemoveEnter key)"
| "start CallSnapshot = SnapshotTask SnapshotEnter"
| "start CallRecover = RecoverTask RecoverEnter"
| "start (CallGet key) = GetTask (GetEnter key)"
| "start (CallAverage key) = AverageTask (AverageEnter key)"
| "start CallCount = CountTask CountEnter"
| "start (CallHistory key) = HistoryTask (HistoryEnter key)"

definition relabel :: "('k \<Rightarrow> task) \<Rightarrow> 'k outcome \<times> shared_state \<Rightarrow> task outcome \<times> shared_state" where
  "relabel f = map_prod (map_outcome f) id"

fun micro :: "platform \<Rightarrow> i64 \<Rightarrow> task \<Rightarrow> shared_state \<Rightarrow> task outcome \<times> shared_state" where
  "micro P now (SetTask k) x = relabel SetTask (set_step P now k x)"
| "micro P now (RemoveTask k) x = relabel RemoveTask (remove_step now k x)"
| "micro P now (SnapshotTask k) x = relabel SnapshotTask (snapshot_step P k x)"
| "micro P now (RecoverTask k) x = relabel RecoverTask (recover_step P k x)"
| "micro P now (GetTask k) x = relabel GetTask (get_step k x)"
| "micro P now (AverageTask k) x = relabel AverageTask (average_step k x)"
| "micro P now (CountTask k) x = relabel CountTask (count_step k x)"
| "micro P now (HistoryTask k) x = relabel HistoryTask (history_step k x)"

text \<open>The same calls as single steps, by the methods of \<open>Engine\<close>.\<close>

definition answer :: "('a \<Rightarrow> reply) \<Rightarrow> (failure + 'a) \<times> shared_state \<Rightarrow> reply \<times> shared_state" where
  "answer f = map_prod (case_sum Failed f) id"

fun perform :: "platform \<Rightarrow> call \<Rightarrow> i64 \<Rightarrow> shared_state \<Rightarrow> reply \<times> shared_state" where
  "perform P (CallSet key val duration) now (e, s) = answer (\<lambda>_. Returned) (StorageEngine_set P key val duration now e s)"
| "perform P (CallRemove key) now (e, s) = answer Found (StorageEngine_remove key now e s)"
| "perform P CallSnapshot now (e, s) = answer (\<lambda>_. Returned) (StorageEngine_snapshot P e s)"
| "perform P CallRecover now (e, s) = answer (\<lambda>_. Returned) (StorageEngine_recover P e s)"
| "perform P (CallGet key) now (e, s) = (Got (StorageEngine_get e key), e, s)"
| "perform P (CallAverage key) now (e, s) = (Averaged (StorageEngine_getAverage e key), e, s)"
| "perform P CallCount now (e, s) = (Counted (StorageEngine_count e), e, s)"
| "perform P (CallHistory key) now (e, s) = (Counted (StorageEngine_historyCount e key), e, s)"

section \<open>The lock discipline of the bodies\<close>

text \<open>The lock a thread holds between two steps: none, or a \<^verbatim>\<open>std::shared_lock\<close> or a \<^verbatim>\<open>std::unique_lock\<close>.\<close>

datatype guard = NoGuard | SharedGuard | UniqueGuard

fun guard_of :: "task \<Rightarrow> guard" where
  "guard_of (SetTask (SetEnter key val duration)) = NoGuard"
| "guard_of (RemoveTask (RemoveEnter key)) = NoGuard"
| "guard_of (SnapshotTask SnapshotEnter) = NoGuard"
| "guard_of (RecoverTask RecoverEnter) = NoGuard"
| "guard_of (GetTask (GetEnter key)) = NoGuard"
| "guard_of (AverageTask (AverageEnter key)) = NoGuard"
| "guard_of (CountTask CountEnter) = NoGuard"
| "guard_of (HistoryTask (HistoryEnter key)) = NoGuard"
| "guard_of (SetTask k) = UniqueGuard"
| "guard_of (RemoveTask k) = UniqueGuard"
| "guard_of (SnapshotTask k) = UniqueGuard"
| "guard_of (RecoverTask k) = UniqueGuard"
| "guard_of (GetTask k) = SharedGuard"
| "guard_of (AverageTask k) = SharedGuard"
| "guard_of (CountTask k) = SharedGuard"
| "guard_of (HistoryTask k) = SharedGuard"

lemma guard_of_start [simp]: "guard_of (start c) = NoGuard"
  by (cases c) simp_all

text \<open>A body locks in its first step and only there, and looks at the shared state only afterwards.\<close>

definition keeps_discipline :: "task \<Rightarrow> shared_state \<Rightarrow> task outcome \<times> shared_state \<Rightarrow> bool" where
  "keeps_discipline k x y =
    (case fst y of
       LockUnique k' \<Rightarrow> guard_of k = NoGuard \<and> guard_of k' = UniqueGuard \<and> snd y = x
     | LockShared k' \<Rightarrow> guard_of k = NoGuard \<and> guard_of k' = SharedGuard \<and> snd y = x
     | Continue k' \<Rightarrow> guard_of k \<noteq> NoGuard \<and> guard_of k' = guard_of k \<and> (guard_of k = SharedGuard \<longrightarrow> snd y = x)
     | Return r \<Rightarrow> guard_of k \<noteq> UniqueGuard \<longrightarrow> snd y = x)"

named_theorems task_steps \<open>unfolding one small step of a method\<close>

lemmas [task_steps] = relabel_def keeps_discipline_def erase_key_def

lemma micro_discipline: "keeps_discipline k x (micro P now k x)"
proof (cases k)
  case (SetTask j)
  then show ?thesis by (cases j; cases x) (auto simp: task_steps split: option.split prod.split sum.split)
next
  case (RemoveTask j)
  then show ?thesis by (cases j; cases x) (auto simp: task_steps split: option.split prod.split sum.split)
next
  case (SnapshotTask j)
  then show ?thesis by (cases j; cases x) (auto simp: task_steps Let_def split: option.split prod.split)
next
  case (RecoverTask j)
  then show ?thesis by (cases j; cases x) (auto simp: task_steps Let_def split: option.split prod.split)
next
  case (GetTask j)
  then show ?thesis by (cases j; cases x) (auto simp: task_steps split: option.split)
next
  case (AverageTask j)
  then show ?thesis by (cases j; cases x) (auto simp: task_steps split: option.split)
next
  case (CountTask j)
  then show ?thesis by (cases j; cases x) (auto simp: task_steps)
next
  case (HistoryTask j)
  then show ?thesis by (cases j; cases x) (auto simp: task_steps split: option.split)
qed

lemma micro_first:
  assumes "micro P now (start c) x = (Return r, y)"
  shows "micro P m (start c) z = (Return r, z)"
  using assms by (cases c) (auto simp: relabel_def split: if_splits)

text \<open>The mode in which a call locks.\<close>

fun read_only :: "call \<Rightarrow> bool" where
  "read_only (CallSet key val duration) = False"
| "read_only (CallRemove key) = False"
| "read_only CallSnapshot = False"
| "read_only CallRecover = False"
| "read_only c = True"

lemma micro_start:
  "(\<exists>k. micro P now (start c) x = (LockUnique k, x) \<and> \<not> read_only c) \<or>
   (\<exists>k. micro P now (start c) x = (LockShared k, x) \<and> read_only c) \<or>
   (\<exists>r. micro P now (start c) x = (Return r, x))"
  by (cases c) (auto simp: relabel_def)

section \<open>Bodies run alone\<close>

definition history_length :: "bytes \<Rightarrow> shared_state \<Rightarrow> nat" where
  "history_length key x = StorageEngine_historyCount (fst x) key"

fun weight :: "task \<Rightarrow> shared_state \<Rightarrow> nat" where
  "weight (SetTask k) x =
    (case k of SetEnter _ _ _ \<Rightarrow> 4 | SetClock _ _ _ \<Rightarrow> 3 | SetAppend _ _ _ _ \<Rightarrow> 2 | SetStore _ _ _ _ \<Rightarrow> 1)"
| "weight (RemoveTask k) x =
    (case k of RemoveEnter _ \<Rightarrow> 4 | RemoveClock _ \<Rightarrow> 3 | RemoveAppend _ _ \<Rightarrow> 2 | RemoveErase _ _ \<Rightarrow> 1)"
| "weight (SnapshotTask k) x =
    (case k of SnapshotEnter \<Rightarrow> 4 | SnapshotExport \<Rightarrow> 3 | SnapshotSave _ \<Rightarrow> 2 | SnapshotRotate \<Rightarrow> 1)"
| "weight (RecoverTask k) x = (case k of RecoverEnter \<Rightarrow> 3 | RecoverLoad \<Rightarrow> 2 | RecoverReplay \<Rightarrow> 1)"
| "weight (GetTask k) x = (case k of GetEnter _ \<Rightarrow> 3 | GetFind _ \<Rightarrow> 2 | GetRead _ \<Rightarrow> 1)"
| "weight (AverageTask k) x =
    (case k of AverageEnter key \<Rightarrow> history_length key x + 3 | AverageFind key \<Rightarrow> history_length key x + 2
     | AverageSum key i _ \<Rightarrow> history_length key x + 1 - i)"
| "weight (CountTask k) x = (case k of CountEnter \<Rightarrow> 2 | CountSize \<Rightarrow> 1)"
| "weight (HistoryTask k) x = (case k of HistoryEnter _ \<Rightarrow> 3 | HistoryFind _ \<Rightarrow> 2 | HistorySize _ \<Rightarrow> 1)"

fun after :: "task outcome \<Rightarrow> reply + task" where
  "after (LockUnique k) = Inr k"
| "after (LockShared k) = Inr k"
| "after (Continue k) = Inr k"
| "after (Return r) = Inl r"

text \<open>Every step brings its body nearer to the end; the loop of \<^verbatim>\<open>getAverage\<close> ends with the history.\<close>

definition lighter :: "task \<Rightarrow> shared_state \<Rightarrow> task outcome \<times> shared_state \<Rightarrow> bool" where
  "lighter k x y = (case after (fst y) of Inl r \<Rightarrow> True | Inr k' \<Rightarrow> weight k' (snd y) < weight k x)"

lemma micro_lighter: "lighter k x (micro P now k x)"
proof (cases k)
  case (SetTask j)
  then show ?thesis by (cases j; cases x) (auto simp: lighter_def task_steps split: option.split prod.split sum.split)
next
  case (RemoveTask j)
  then show ?thesis by (cases j; cases x) (auto simp: lighter_def task_steps split: option.split prod.split sum.split)
next
  case (SnapshotTask j)
  then show ?thesis by (cases j; cases x) (auto simp: lighter_def task_steps Let_def split: option.split prod.split)
next
  case (RecoverTask j)
  then show ?thesis by (cases j; cases x) (auto simp: lighter_def task_steps Let_def split: option.split prod.split)
next
  case (GetTask j)
  then show ?thesis by (cases j; cases x) (auto simp: lighter_def task_steps split: option.split)
next
  case (AverageTask j)
  then show ?thesis
    by (cases j; cases x)
      (auto simp: lighter_def task_steps history_length_def StorageEngine_historyCount_def split: option.split)
next
  case (CountTask j)
  then show ?thesis by (cases j; cases x) (auto simp: lighter_def task_steps)
next
  case (HistoryTask j)
  then show ?thesis by (cases j; cases x) (auto simp: lighter_def task_steps split: option.split)
qed

lemma micro_weight: "micro P now k x = (out, y) \<Longrightarrow> after out = Inr k' \<Longrightarrow> weight k' y < weight k x"
  using micro_lighter [of k x P now] by (simp add: lighter_def)

text \<open>The rest of a body, when no other thread intervenes.\<close>

function complete :: "platform \<Rightarrow> i64 \<Rightarrow> task \<Rightarrow> shared_state \<Rightarrow> reply \<times> shared_state" where
  "complete P now k x =
    (case micro P now k x of (out, y) \<Rightarrow> case after out of Inl r \<Rightarrow> (r, y) | Inr k' \<Rightarrow> complete P now k' y)"
  by pat_completeness auto
termination by (relation "measure (\<lambda>(P, now, k, x). weight k x)") (auto dest: micro_weight [OF sym])

declare complete.simps [simp del]

lemma complete_step:
  "micro P now k x = (out, y) \<Longrightarrow>
    complete P now k x = (case after out of Inl r \<Rightarrow> (r, y) | Inr k' \<Rightarrow> complete P now k' y)"
  by (simp add: complete.simps [of P now k x])

lemma complete_average_loop:
  assumes "map_of (m_data e) key = Some h" and "i \<le> length h"
  shows "complete P now (AverageTask (AverageSum key i acc)) (e, s) =
    (Averaged (Some (double_div (foldl (\<lambda>acc r. double_add acc (rec_duration r)) acc (drop i h))
       (double_of_nat (length h)))), e, s)"
  using assms(2)
proof (induction "length h - i" arbitrary: i acc)
  case 0
  then show ?case by (simp add: complete.simps relabel_def assms(1))
next
  case (Suc n)
  then have "i < length h" and "n = length h - (i + 1)" by simp_all
  with Suc.hyps(1) [of "i + 1"] show ?case
    by (simp add: complete.simps [of P now "AverageTask (AverageSum key i acc)"] relabel_def assms(1) Cons_nth_drop_Suc [symmetric])
qed

text \<open>Without interleaving, the small steps of a body are the method.\<close>

lemma complete_start: "complete P now (start c) x = perform P c now x"
proof -
  obtain e s where x: "x = (e, s)" by fastforce
  note steps = complete.simps relabel_def answer_def x
  show ?thesis
  proof (cases c)
    case (CallSet key val duration)
    then show ?thesis by (simp add: steps StorageEngine_set_def split: option.split prod.split sum.split)
  next
    case (CallRemove key)
    then show ?thesis
      by (simp add: steps StorageEngine_remove_def erase_key_def split: option.split prod.split sum.split)
  next
    case CallSnapshot
    then show ?thesis by (simp add: steps StorageEngine_snapshot_def Let_def split: option.split prod.split)
  next
    case CallRecover
    then show ?thesis by (simp add: steps StorageEngine_recover_def Let_def split: option.split prod.split)
  next
    case (CallGet key)
    then show ?thesis by (simp add: steps StorageEngine_get_def split: option.split)
  next
    case (CallAverage key)
    then show ?thesis
      by (cases "map_of (m_data e) key")
        (simp_all add: complete_average_loop complete.simps [of P now "AverageTask (AverageEnter key)"]
          complete.simps [of P now "AverageTask (AverageFind key)"] relabel_def x StorageEngine_getAverage_def Let_def)
  next
    case CallCount
    then show ?thesis by (simp add: steps StorageEngine_count_def)
  next
    case (CallHistory key)
    then show ?thesis by (simp add: steps StorageEngine_historyCount_def split: option.split)
  qed
qed

section \<open>The clock\<close>

text \<open>A writer reads the clock once; from then on its task carries the time.\<close>

fun dated :: "task \<Rightarrow> i64 \<Rightarrow> i64" where
  "dated (SetTask (SetAppend key val duration stamp)) now = stamp"
| "dated (SetTask (SetStore key val duration stamp)) now = stamp"
| "dated (RemoveTask (RemoveAppend key stamp)) now = stamp"
| "dated (RemoveTask (RemoveErase key stamp)) now = stamp"
| "dated k now = now"

lemma dated_idem [simp]: "dated k (dated k now) = dated k now"
  by (cases "(k, now)" rule: dated.cases) simp_all

lemma dated_start [simp]: "dated (start c) now = now"
  by (cases c) simp_all

text \<open>A step depends on the clock at most through the time its successor carries.\<close>

definition clock_once :: "platform \<Rightarrow> i64 \<Rightarrow> task \<Rightarrow> shared_state \<Rightarrow> bool" where
  "clock_once P now k x =
    (case micro P now k x of (out, y) \<Rightarrow>
      micro P (dated k now) k x = (out, y) \<and>
      (case after out of
         Inl r \<Rightarrow> True
       | Inr k' \<Rightarrow> \<forall>m. dated k (dated k' m) = dated k' m \<and> micro P (dated k' m) k x = (out, y) \<and>
           (\<forall>n. dated k n = dated k m \<longrightarrow> dated k' n = dated k' m)))"

lemma micro_clock: "clock_once P now k x"
proof (cases k)
  case (SetTask j)
  then show ?thesis
    by (cases j; cases x) (auto simp: clock_once_def relabel_def split: option.split prod.split sum.split)
next
  case (RemoveTask j)
  then show ?thesis
    by (cases j; cases x) (auto simp: clock_once_def relabel_def erase_key_def split: option.split prod.split sum.split)
qed (auto simp: clock_once_def relabel_def split: prod.split sum.split)

lemma micro_dated: "micro P (dated k now) k x = micro P now k x"
  using micro_clock [of P now k x] by (simp add: clock_once_def split: prod.splits)

lemma micro_clock_step:
  assumes "micro P now k x = (out, y)" and "after out = Inr k'"
  shows "dated k (dated k' m) = dated k' m" and "micro P (dated k' m) k x = (out, y)"
    and "dated k n = dated k m \<Longrightarrow> dated k' n = dated k' m"
proof -
  have "\<forall>m. dated k (dated k' m) = dated k' m \<and> micro P (dated k' m) k x = (out, y) \<and>
      (\<forall>n. dated k n = dated k m \<longrightarrow> dated k' n = dated k' m)"
    using micro_clock [of P now k x] unfolding clock_once_def assms(1) prod.case assms(2) sum.case by (rule conjunct2)
  then show "dated k (dated k' m) = dated k' m" and "micro P (dated k' m) k x = (out, y)"
    and "dated k n = dated k m \<Longrightarrow> dated k' n = dated k' m" by blast+
qed

lemma complete_clock: "dated k n = dated k m \<Longrightarrow> complete P n k x = complete P m k x"
proof (induction P m k x arbitrary: n rule: complete.induct)
  case (1 P m k x)
  obtain out y where o: "micro P m k x = (out, y)" by (cases "micro P m k x") blast
  have "micro P n k x = (out, y)" using micro_dated [of P k n x] micro_dated [of P k m x] 1(2) o by simp
  note c = complete_step [OF o] complete_step [OF this]
  show ?case
  proof (cases "after out")
    case (Inr k')
    note k = micro_clock_step(3) [OF o Inr 1(2)]
    from 1(1) [OF o [symmetric] Inr k] show ?thesis by (simp add: c Inr)
  qed (simp add: c)
qed

text \<open>
  \<open>agrees P c k x0 x\<close>: a body of \<open>c\<close> that locked at the state \<open>x0\<close> and now stands at the task \<open>k\<close> and the state
  \<open>x\<close> will end, if left alone, as the method run at \<open>x0\<close> does.
\<close>

definition agrees :: "platform \<Rightarrow> call \<Rightarrow> task \<Rightarrow> shared_state \<Rightarrow> shared_state \<Rightarrow> bool" where
  "agrees P c k x0 x \<longleftrightarrow> (\<forall>m. perform P c (dated k m) x0 = complete P m k x)"

lemma agrees_start: "agrees P c (start c) x x"
  by (simp add: agrees_def complete_start)

lemma agrees_step:
  assumes "agrees P c k x0 x" and o: "micro P now k x = (out, y)" and a: "after out = Inr k'"
  shows "agrees P c k' x0 y"
  unfolding agrees_def
proof
  fix m
  note k = micro_clock_step [OF o a, of m]
  have "perform P c (dated k' m) x0 = complete P (dated k' m) k x"
    using assms(1) k(1) unfolding agrees_def by metis
  also have "\<dots> = complete P (dated k' m) k' y" by (simp add: complete_step [OF k(2)] a)
  also have "\<dots> = complete P m k' y" by (rule complete_clock) simp
  finally show "perform P c (dated k' m) x0 = complete P m k' y" .
qed

lemma agrees_return:
  assumes "agrees P c k x0 x" and "micro P now k x = (Return r, y)"
  shows "perform P c (dated k now) x0 = (r, y)"
  using assms(1) complete_step [OF assms(2)] by (simp add: agrees_def)

end
