(* ===== verification/Thread_System.thy ===== *)
theory Thread_System
  imports Engine_Threads
begin

text \<open>
  Threads that call one engine. A system is the shared state, the mutex and, for every thread, where it
  stands; \<open>trace\<close> records when calls begin, take effect and end. \<open>thread_step\<close> is one step of one thread,
  chosen freely by a scheduler, and the clock shows any time; \<open>act\<close> computes it, and \<open>run_schedule\<close> runs a given schedule. The order in which waiting threads get the mutex is
  left open, as the standard leaves it.
\<close>

section \<open>The mutex\<close>

text \<open>\<^verbatim>\<open>std::shared_mutex\<close>: free, held by a number of readers, or held by one writer.\<close>

datatype mutex = Unlocked | Shared nat | Exclusive

fun lock :: "guard \<Rightarrow> mutex \<Rightarrow> mutex option" where
  "lock UniqueGuard Unlocked = Some Exclusive"
| "lock UniqueGuard m = None"
| "lock SharedGuard Unlocked = Some (Shared 1)"
| "lock SharedGuard (Shared n) = Some (Shared (n + 1))"
| "lock SharedGuard Exclusive = None"
| "lock NoGuard m = Some m"

fun unlock :: "guard \<Rightarrow> mutex \<Rightarrow> mutex" where
  "unlock SharedGuard (Shared n) = (if n \<le> 1 then Unlocked else Shared (n - 1))"
| "unlock UniqueGuard Exclusive = Unlocked"
| "unlock g m = m"

section \<open>Threads\<close>

type_synonym tid = nat

text \<open>A thread is outside, in the body of a call, or has the result and destroys its guard on the way out.\<close>

datatype phase = Idle | Running call task guard | Leaving call reply guard

datatype event = Invoked tid call | Committed tid call reply | Responded tid call reply

record system =
  shared :: shared_state
  mutex :: mutex
  phases :: "tid \<Rightarrow> phase"
  trace :: "event list"

definition initial :: "shared_state \<Rightarrow> system" where
  "initial x = \<lparr>shared = x, mutex = Unlocked, phases = (\<lambda>_. Idle), trace = []\<rparr>"

definition enter :: "tid \<Rightarrow> call \<Rightarrow> system \<Rightarrow> system" where
  "enter t c S = S\<lparr>phases := (phases S)(t := Running c (start c) NoGuard), trace := trace S @ [Invoked t c]\<rparr>"

inductive thread_step :: "platform \<Rightarrow> tid \<Rightarrow> system \<Rightarrow> system \<Rightarrow> bool" for P t where
  acquire_unique: "phases S t = Running c k NoGuard \<Longrightarrow> micro P now k (shared S) = (LockUnique k', x) \<Longrightarrow>
    lock UniqueGuard (mutex S) = Some m \<Longrightarrow>
    thread_step P t S (S\<lparr>shared := x, mutex := m, phases := (phases S)(t := Running c k' UniqueGuard)\<rparr>)"
| acquire_shared: "phases S t = Running c k NoGuard \<Longrightarrow> micro P now k (shared S) = (LockShared k', x) \<Longrightarrow>
    lock SharedGuard (mutex S) = Some m \<Longrightarrow>
    thread_step P t S (S\<lparr>shared := x, mutex := m, phases := (phases S)(t := Running c k' SharedGuard)\<rparr>)"
| work: "phases S t = Running c k g \<Longrightarrow> micro P now k (shared S) = (Continue k', x) \<Longrightarrow>
    thread_step P t S (S\<lparr>shared := x, phases := (phases S)(t := Running c k' g)\<rparr>)"
| commit: "phases S t = Running c k g \<Longrightarrow> micro P now k (shared S) = (Return r, x) \<Longrightarrow>
    thread_step P t S (S\<lparr>shared := x, phases := (phases S)(t := Leaving c r g), trace := trace S @ [Committed t c r]\<rparr>)"
| release: "phases S t = Leaving c r g \<Longrightarrow> g \<noteq> NoGuard \<Longrightarrow>
    thread_step P t S (S\<lparr>mutex := unlock g (mutex S), phases := (phases S)(t := Leaving c r NoGuard)\<rparr>)"
| respond: "phases S t = Leaving c r NoGuard \<Longrightarrow>
    thread_step P t S (S\<lparr>phases := (phases S)(t := Idle), trace := trace S @ [Responded t c r]\<rparr>)"

inductive reachable :: "platform \<Rightarrow> shared_state \<Rightarrow> system \<Rightarrow> bool" for P x0 where
  start: "reachable P x0 (initial x0)"
| invoke: "reachable P x0 S \<Longrightarrow> phases S t = Idle \<Longrightarrow> reachable P x0 (enter t c S)"
| step: "reachable P x0 S \<Longrightarrow> thread_step P t S S' \<Longrightarrow> reachable P x0 S'"

inductive_cases thread_stepE: "thread_step P t S S'"

text \<open>The next step of a thread as a function, for a given reading of the clock; \<open>None\<close> if it has to wait or is outside.\<close>

definition act :: "platform \<Rightarrow> i64 \<Rightarrow> tid \<Rightarrow> system \<Rightarrow> system option" where
  "act P now t S =
    (case phases S t of
       Idle \<Rightarrow> None
     | Leaving c r g \<Rightarrow>
         Some (if g \<noteq> NoGuard
               then S\<lparr>mutex := unlock g (mutex S), phases := (phases S)(t := Leaving c r NoGuard)\<rparr>
               else S\<lparr>phases := (phases S)(t := Idle), trace := trace S @ [Responded t c r]\<rparr>)
     | Running c k g \<Rightarrow>
         case micro P now k (shared S) of (out, x) \<Rightarrow>
           let go = (\<lambda>g' k'. if g \<noteq> NoGuard then None
             else map_option (\<lambda>m. S\<lparr>shared := x, mutex := m, phases := (phases S)(t := Running c k' g')\<rparr>) (lock g' (mutex S)))
           in case out of
                LockUnique k' \<Rightarrow> go UniqueGuard k'
              | LockShared k' \<Rightarrow> go SharedGuard k'
              | Continue k' \<Rightarrow> Some (S\<lparr>shared := x, phases := (phases S)(t := Running c k' g)\<rparr>)
              | Return r \<Rightarrow>
                  Some (S\<lparr>shared := x, phases := (phases S)(t := Leaving c r g), trace := trace S @ [Committed t c r]\<rparr>))"

lemma act_step: "act P now t S = Some S' \<Longrightarrow> thread_step P t S S'"
  by (auto simp: act_def Let_def split: phase.splits prod.splits outcome.splits if_splits intro: thread_step.intros)

lemma step_act: "thread_step P t S S' \<Longrightarrow> \<exists>now. act P now t S = Some S'"
proof (induction rule: thread_step.induct)
  case (acquire_unique S c k now k' x m)
  then show ?case by (intro exI [of _ now]) (simp add: act_def)
next
  case (acquire_shared S c k now k' x m)
  then show ?case by (intro exI [of _ now]) (simp add: act_def)
next
  case (work S c k g now k' x)
  then show ?case by (intro exI [of _ now]) (simp add: act_def)
next
  case (commit S c k g now r x)
  then show ?case by (intro exI [of _ now]) (simp add: act_def)
qed (simp_all add: act_def)

text \<open>A schedule: which thread takes the next step, and what the clock shows.\<close>

fun run_schedule :: "platform \<Rightarrow> (tid \<times> i64) list \<Rightarrow> system \<Rightarrow> system option" where
  "run_schedule P [] S = Some S"
| "run_schedule P ((t, now) # ts) S = (case act P now t S of None \<Rightarrow> None | Some S' \<Rightarrow> run_schedule P ts S')"

lemma run_schedule_reachable: "reachable P x0 S \<Longrightarrow> run_schedule P ts S = Some S' \<Longrightarrow> reachable P x0 S'"
proof (induction ts arbitrary: S)
  case (Cons a ts)
  obtain t now where a: "a = (t, now)" by fastforce
  with Cons.prems(2) obtain S1 where S1: "act P now t S = Some S1" "run_schedule P ts S1 = Some S'"
    by (auto split: option.splits)
  from Cons.IH [OF reachable.step [OF Cons.prems(1) act_step [OF S1(1)]] S1(2)] show ?case .
qed simp

section \<open>What a trace should be\<close>

text \<open>The committed calls in the order in which they took effect, and their meaning when each is one step.\<close>

fun commits :: "event list \<Rightarrow> (call \<times> reply) list" where
  "commits [] = []"
| "commits (Committed t c r # es) = (c, r) # commits es"
| "commits (_ # es) = commits es"

inductive serial :: "platform \<Rightarrow> (call \<times> reply) list \<Rightarrow> shared_state \<Rightarrow> shared_state \<Rightarrow> bool" for P where
  stop: "serial P [] x x"
| step: "serial P h x y \<Longrightarrow> perform P c now y = (r, z) \<Longrightarrow> serial P (h @ [(c, r)]) x z"

text \<open>What one thread sees: a call takes effect once, between its beginning and its end, with the reply it returns.\<close>

datatype progress = Quiet | Pending call | Done call reply

fun advance :: "tid \<Rightarrow> progress option \<Rightarrow> event \<Rightarrow> progress option" where
  "advance t p (Invoked u c) = (if u \<noteq> t then p else if p = Some Quiet then Some (Pending c) else None)"
| "advance t p (Committed u c r) = (if u \<noteq> t then p else if p = Some (Pending c) then Some (Done c r) else None)"
| "advance t p (Responded u c r) = (if u \<noteq> t then p else if p = Some (Done c r) then Some Quiet else None)"

definition follow :: "tid \<Rightarrow> event list \<Rightarrow> progress option" where
  "follow t es = foldl (advance t) (Some Quiet) es"

fun progress_of :: "phase \<Rightarrow> progress" where
  "progress_of Idle = Quiet"
| "progress_of (Running c k g) = Pending c"
| "progress_of (Leaving c r g) = Done c r"

lemma follow_snoc [simp]: "follow t (es @ [ev]) = advance t (follow t es) ev"
  by (simp add: follow_def)

lemma follow_nil [simp]: "follow t [] = Some Quiet"
  by (simp add: follow_def)

lemma commits_append [simp]: "commits (es @ fs) = commits es @ commits fs"
  by (induction es rule: commits.induct) simp_all

section \<open>The invariant of the mutex\<close>

fun held :: "phase \<Rightarrow> guard" where
  "held Idle = NoGuard"
| "held (Running c k g) = g"
| "held (Leaving c r g) = g"

definition holders :: "(tid \<Rightarrow> phase) \<Rightarrow> guard \<Rightarrow> tid set" where
  "holders ph g = {t. held (ph t) = g}"

definition mutex_ok :: "mutex \<Rightarrow> (tid \<Rightarrow> phase) \<Rightarrow> bool" where
  "mutex_ok m ph \<longleftrightarrow> finite (holders ph SharedGuard) \<and>
    (case m of
       Unlocked \<Rightarrow> holders ph SharedGuard = {} \<and> holders ph UniqueGuard = {}
     | Shared n \<Rightarrow> card (holders ph SharedGuard) = n \<and> 0 < n \<and> holders ph UniqueGuard = {}
     | Exclusive \<Rightarrow> holders ph SharedGuard = {} \<and> (\<exists>t. holders ph UniqueGuard = {t}))"

lemma holders_upd:
  "holders (ph(t := p)) g = (if held p = g then insert t (holders ph g) else holders ph g - {t})"
  by (auto simp: holders_def)

lemma holders_same:
  assumes "held p = held (ph t)"
  shows "holders (ph(t := p)) g = holders ph g"
  using assms by (auto simp: holders_def)

lemma mutex_ok_same: "held p = held (ph t) \<Longrightarrow> mutex_ok m (ph(t := p)) = mutex_ok m ph"
  by (simp add: mutex_ok_def holders_same split: mutex.split)

lemma mutex_ok_lock:
  assumes "mutex_ok m ph" and "held (ph t) = NoGuard" and "lock g m = Some m'" and "held p = g" and "g \<noteq> NoGuard"
  shows "mutex_ok m' (ph(t := p))"
proof -
  have "t \<notin> holders ph SharedGuard" "t \<notin> holders ph UniqueGuard" using assms(2) by (auto simp: holders_def)
  with assms show ?thesis
    by (cases "(g, m)" rule: lock.cases) (auto simp: mutex_ok_def holders_upd)
qed

lemma mutex_ok_unlock:
  assumes "mutex_ok m ph" and "held (ph t) = g" and "held p = NoGuard"
  shows "mutex_ok (unlock g m) (ph(t := p))"
proof (cases g)
  case NoGuard
  then show ?thesis using assms by (simp add: mutex_ok_same)
next
  case UniqueGuard
  then have "t \<in> holders ph UniqueGuard" using assms(2) by (simp add: holders_def)
  with UniqueGuard assms(1,3) show ?thesis by (cases m) (auto simp: mutex_ok_def holders_upd)
next
  case SharedGuard
  then have t: "t \<in> holders ph SharedGuard" using assms(2) by (simp add: holders_def)
  with SharedGuard assms(1,3) show ?thesis
  proof (cases m)
    case (Shared n)
    show ?thesis
    proof (cases "n \<le> 1")
      case True
      with Shared assms(1) t have "holders ph SharedGuard = {t}" by (auto simp: mutex_ok_def card_1_singleton_iff le_Suc_eq)
      with True Shared SharedGuard assms(1,3) show ?thesis by (auto simp: mutex_ok_def holders_upd)
    next
      case False
      with Shared SharedGuard t assms(1,3) show ?thesis by (auto simp: mutex_ok_def holders_upd)
    qed
  qed (auto simp: mutex_ok_def holders_upd)
qed

text \<open>A writer is alone.\<close>

lemma mutex_ok_alone:
  assumes "mutex_ok m ph" and "held (ph t) = UniqueGuard" and "u \<noteq> t"
  shows "held (ph u) = NoGuard"
proof -
  have "t \<in> holders ph UniqueGuard" using assms(2) by (simp add: holders_def)
  then have "holders ph SharedGuard = {}" "holders ph UniqueGuard = {t}"
    using assms(1) by (auto simp: mutex_ok_def split: mutex.splits)
  then show ?thesis using assms(3) by (cases "held (ph u)") (auto simp: holders_def)
qed

section \<open>The invariant of a system\<close>

definition active :: "(tid \<Rightarrow> phase) \<Rightarrow> tid set" where
  "active ph = {t. ph t \<noteq> Idle}"

definition task_ok :: "call \<Rightarrow> task \<Rightarrow> guard \<Rightarrow> bool" where
  "task_ok c k g \<longleftrightarrow> guard_of k = g \<and> (g = NoGuard \<longrightarrow> k = start c) \<and> (g \<noteq> NoGuard \<longrightarrow> (g = SharedGuard) = read_only c)"

definition tasks_ok :: "(tid \<Rightarrow> phase) \<Rightarrow> bool" where
  "tasks_ok ph \<longleftrightarrow> (\<forall>t c k g. ph t = Running c k g \<longrightarrow> task_ok c k g)"

text \<open>
  \<open>explains P S y\<close>: \<open>y\<close> is the state after the committed calls. The shared state is that one unless a writer is
  at work, and every body at work will commit what its method does at \<open>y\<close>.
\<close>

definition explains :: "platform \<Rightarrow> system \<Rightarrow> shared_state \<Rightarrow> bool" where
  "explains P S y \<longleftrightarrow>
    (\<forall>t c k g. phases S t = Running c k g \<longrightarrow> g \<noteq> NoGuard \<longrightarrow> agrees P c k y (shared S)) \<and>
    ((\<forall>t c k. phases S t \<noteq> Running c k UniqueGuard) \<longrightarrow> shared S = y)"

definition system_inv :: "platform \<Rightarrow> shared_state \<Rightarrow> system \<Rightarrow> bool" where
  "system_inv P x0 S \<longleftrightarrow> mutex_ok (mutex S) (phases S) \<and> tasks_ok (phases S) \<and> finite (active (phases S)) \<and>
    (\<forall>t. follow t (trace S) = Some (progress_of (phases S t))) \<and>
    (\<exists>y. serial P (commits (trace S)) x0 y \<and> explains P S y)"

lemma tasks_okD:
  assumes "tasks_ok ph" and "ph t = Running c k g"
  shows "guard_of k = g" and "g = NoGuard \<Longrightarrow> k = start c" and "g \<noteq> NoGuard \<Longrightarrow> (g = SharedGuard) = read_only c"
  using assms by (auto simp: tasks_ok_def task_ok_def)

lemma tasks_ok_upd:
  "tasks_ok ph \<Longrightarrow> (\<And>c k g. p = Running c k g \<Longrightarrow> task_ok c k g) \<Longrightarrow> tasks_ok (ph(t := p))"
  by (simp add: tasks_ok_def)

lemma finite_active: "finite (active ph) \<Longrightarrow> finite (active (ph(t := p)))"
  by (rule finite_subset [of _ "insert t (active ph)"]) (auto simp: active_def)

lemma follow_upd:
  assumes "\<forall>u. follow u es = Some (progress_of (ph u))" and "\<And>u. u \<noteq> t \<Longrightarrow> advance u (follow u es) ev = follow u es"
    and "advance t (follow t es) ev = Some (progress_of p)"
  shows "\<forall>u. follow u (es @ [ev]) = Some (progress_of ((ph(t := p)) u))"
  using assms by auto

lemma discipline:
  assumes "micro P now k x = (out, y)"
  shows "out = LockUnique k' \<Longrightarrow> guard_of k' = UniqueGuard \<and> y = x"
    and "out = LockShared k' \<Longrightarrow> guard_of k' = SharedGuard \<and> y = x"
    and "out = Continue k' \<Longrightarrow> guard_of k \<noteq> NoGuard \<and> guard_of k' = guard_of k \<and> (guard_of k = SharedGuard \<longrightarrow> y = x)"
    and "out = Return r \<Longrightarrow> guard_of k \<noteq> UniqueGuard \<Longrightarrow> y = x"
  using micro_discipline [of k x P now] by (auto simp: keeps_discipline_def assms)

text \<open>The parts of the invariant that do not concern the shared state.\<close>

lemma thread_step_frame:
  assumes "thread_step P t S S'" and "mutex_ok (mutex S) (phases S)" and "tasks_ok (phases S)"
    and "finite (active (phases S))" and "\<forall>t. follow t (trace S) = Some (progress_of (phases S t))"
  shows "mutex_ok (mutex S') (phases S') \<and> tasks_ok (phases S') \<and> finite (active (phases S')) \<and>
    (\<forall>t. follow t (trace S') = Some (progress_of (phases S' t)))"
  using assms(1)
proof cases
  case (acquire_unique c k now k' x m)
  have "task_ok c k' UniqueGuard"
    using discipline(1) [OF acquire_unique(3) refl] tasks_okD(2) [OF assms(3) acquire_unique(2)] acquire_unique(3)
      micro_start [of P now c "shared S"] by (auto simp: task_ok_def)
  with acquire_unique assms show ?thesis by (auto intro!: mutex_ok_lock tasks_ok_upd finite_active)
next
  case (acquire_shared c k now k' x m)
  have "task_ok c k' SharedGuard"
    using discipline(2) [OF acquire_shared(3) refl] tasks_okD(2) [OF assms(3) acquire_shared(2)] acquire_shared(3)
      micro_start [of P now c "shared S"] by (auto simp: task_ok_def)
  with acquire_shared assms show ?thesis by (auto intro!: mutex_ok_lock tasks_ok_upd finite_active)
next
  case (work c k g now k' x)
  have "task_ok c k' g"
    using discipline(3) [OF work(3) refl] tasks_okD [OF assms(3) work(2)] by (auto simp: task_ok_def)
  with work assms show ?thesis by (auto simp: mutex_ok_same intro!: tasks_ok_upd finite_active)
next
  case (commit c k g now r x)
  with assms show ?thesis by (auto simp: mutex_ok_same intro!: tasks_ok_upd finite_active)
next
  case (release c r g)
  with assms show ?thesis by (auto intro!: mutex_ok_unlock tasks_ok_upd finite_active)
next
  case (respond c r)
  with assms show ?thesis by (auto simp: mutex_ok_same intro!: tasks_ok_upd finite_active)
qed

text \<open>Who holds the mutex in which mode decides what the shared state is.\<close>

lemma explains_quiet:
  assumes "explains P S y" and "\<And>t. held (phases S t) \<noteq> UniqueGuard"
  shows "shared S = y"
proof -
  have "phases S t \<noteq> Running c k UniqueGuard" for t c k using assms(2) [of t] by auto
  with assms(1) show ?thesis by (auto simp: explains_def)
qed

lemma mutex_ok_readers:
  assumes "mutex_ok m ph" and "m \<noteq> Exclusive"
  shows "held (ph t) \<noteq> UniqueGuard"
  using assms by (cases m) (auto simp: mutex_ok_def holders_def)

lemma mutex_ok_reader:
  assumes "mutex_ok m ph" and "held (ph u) = SharedGuard"
  shows "held (ph t) \<noteq> UniqueGuard"
  using mutex_ok_alone [OF assms(1), of t u] assms(2) by (cases "t = u") auto

lemma explains_writer:
  assumes "mutex_ok (mutex S) (phases S)" and "held (phases S t) = UniqueGuard"
    and "\<And>c k g. p = Running c k g \<Longrightarrow> agrees P c k y x" and "held p = UniqueGuard"
    and "(\<forall>c k g. p \<noteq> Running c k g) \<Longrightarrow> x = y"
  shows "explains P (S\<lparr>shared := x, phases := (phases S)(t := p), trace := es\<rparr>) y"
proof -
  have "held (phases S u) = NoGuard" if "u \<noteq> t" for u using mutex_ok_alone [OF assms(1,2) that] .
  then have "g = NoGuard" if "u \<noteq> t" "phases S u = Running c k g" for u c k g using that by fastforce
  with assms(3,5) show ?thesis using assms(4) by (cases p) (auto simp: explains_def)
qed

lemma explains_reader:
  assumes "explains P S y" and "shared S = y" and "\<And>c k g. p = Running c k g \<Longrightarrow> g \<noteq> NoGuard \<Longrightarrow> agrees P c k y y"
  shows "explains P (S\<lparr>mutex := m, phases := (phases S)(t := p), trace := es\<rparr>) y"
  using assms by (auto simp: explains_def)

lemma explains_passive:
  assumes "explains P S y" and "\<And>c k g. p \<noteq> Running c k g" and "\<And>c k. phases S t \<noteq> Running c k UniqueGuard"
  shows "explains P (S\<lparr>mutex := m, phases := (phases S)(t := p), trace := es\<rparr>) y"
  using assms unfolding explains_def by (auto split: if_splits) metis+

declare split_paired_Ex [simp del] split_paired_All [simp del]

text \<open>Every step keeps the explanation; a committing one extends it by the call it commits.\<close>

lemma commit_explained:
  assumes ph: "phases S t = Running c k g" and o: "micro P now k (shared S) = (Return r, x)"
    and "mutex_ok (mutex S) (phases S)" and "tasks_ok (phases S)" and ex: "explains P S y"
  shows "\<exists>m z. perform P c m y = (r, z) \<and>
    explains P (S\<lparr>shared := x, phases := (phases S)(t := Leaving c r g), trace := es\<rparr>) z"
proof -
  note k = tasks_okD [OF assms(4) ph]
  show ?thesis
  proof (cases g)
    case NoGuard
    then have "k = start c" and x: "x = shared S" using k discipline(4) [OF o] by auto
    then have "micro P now (start c) y = (Return r, y)" using micro_first o by blast
    then have "perform P c now y = (r, y)" using complete_step [of P now "start c" y] by (simp add: complete_start)
    moreover have "explains P (S\<lparr>mutex := mutex S, phases := (phases S)(t := Leaving c r g), trace := es\<rparr>) y"
      using ex ph NoGuard by (intro explains_passive) auto
    ultimately show ?thesis using x by auto
  next
    case SharedGuard
    then have x: "x = shared S" using k discipline(4) [OF o] by auto
    have "held (phases S t) = SharedGuard" using ph SharedGuard by simp
    then have y: "shared S = y" by (intro explains_quiet [OF ex] mutex_ok_reader [OF assms(3)])
    have "agrees P c k y (shared S)" using ex ph SharedGuard by (auto simp: explains_def)
    from agrees_return [OF this o] have "perform P c (dated k now) y = (r, y)" using x y by simp
    moreover have "explains P (S\<lparr>mutex := mutex S, phases := (phases S)(t := Leaving c r g), trace := es\<rparr>) y"
      using ex ph SharedGuard by (intro explains_passive) auto
    ultimately show ?thesis using x by auto
  next
    case UniqueGuard
    then have h: "held (phases S t) = UniqueGuard" using ph by simp
    have "agrees P c k y (shared S)" using ex ph UniqueGuard by (auto simp: explains_def)
    from agrees_return [OF this o] have "perform P c (dated k now) y = (r, x)" .
    moreover have "explains P (S\<lparr>shared := x, phases := (phases S)(t := Leaving c r g), trace := es\<rparr>) x"
      using UniqueGuard by (intro explains_writer [OF assms(3) h]) auto
    ultimately show ?thesis by blast
  qed
qed

lemma acquire_explained:
  assumes ph: "phases S t = Running c k NoGuard" and o: "micro P now k (shared S) = (out, x)" and "after out = Inr k'"
    and x: "x = shared S" and "mutex_ok (mutex S) (phases S)" and "tasks_ok (phases S)" and ex: "explains P S y"
    and "mutex S \<noteq> Exclusive"
  shows "explains P (S\<lparr>shared := x, mutex := m, phases := (phases S)(t := Running c k' g)\<rparr>) y"
proof -
  have y: "shared S = y" by (intro explains_quiet [OF ex] mutex_ok_readers [OF assms(5,8)])
  have "k = start c" using tasks_okD(2) [OF assms(6) ph] by simp
  then have "agrees P c k y (shared S)" using y agrees_start by simp
  from agrees_step [OF this o assms(3)] x y have "agrees P c k' y y" by simp
  then have "explains P (S\<lparr>mutex := m, phases := (phases S)(t := Running c k' g), trace := trace S\<rparr>) y"
    by (intro explains_reader [OF ex y]) auto
  then show ?thesis using x by simp
qed

lemma work_explained:
  assumes ph: "phases S t = Running c k g" and o: "micro P now k (shared S) = (Continue k', x)"
    and "mutex_ok (mutex S) (phases S)" and "tasks_ok (phases S)" and ex: "explains P S y"
  shows "explains P (S\<lparr>shared := x, phases := (phases S)(t := Running c k' g)\<rparr>) y"
proof -
  note k = tasks_okD [OF assms(4) ph] discipline(3) [OF o refl]
  then have "g \<noteq> NoGuard" by auto
  then have "agrees P c k y (shared S)" using ex ph by (auto simp: explains_def)
  then have a: "agrees P c k' y x" using agrees_step [OF _ o] by simp
  show ?thesis
  proof (cases g)
    case SharedGuard
    then have x: "x = shared S" and "held (phases S t) = SharedGuard" using k ph by auto
    then have y: "shared S = y" by (intro explains_quiet [OF ex] mutex_ok_reader [OF assms(3)])
    have "explains P (S\<lparr>mutex := mutex S, phases := (phases S)(t := Running c k' g), trace := trace S\<rparr>) y"
      using a x y by (intro explains_reader [OF ex y]) auto
    then show ?thesis using x by simp
  next
    case UniqueGuard
    then have "held (phases S t) = UniqueGuard" using ph by simp
    then have "explains P (S\<lparr>shared := x, phases := (phases S)(t := Running c k' g), trace := trace S\<rparr>) y"
      using a UniqueGuard by (intro explains_writer [OF assms(3)]) auto
    then show ?thesis by simp
  qed (use \<open>g \<noteq> NoGuard\<close> in blast)
qed

lemma lock_not_exclusive: "lock g m = Some m' \<Longrightarrow> g \<noteq> NoGuard \<Longrightarrow> m \<noteq> Exclusive"
  by (cases g) auto

lemma thread_step_explained:
  assumes "thread_step P t S S'" and mx: "mutex_ok (mutex S) (phases S)" and tk: "tasks_ok (phases S)"
    and "serial P (commits (trace S)) x0 y" and ex: "explains P S y"
  shows "\<exists>z. serial P (commits (trace S')) x0 z \<and> explains P S' z"
  using assms(1)
proof cases
  case (acquire_unique c k now k' x m)
  have "explains P S' y" unfolding acquire_unique(1)
    by (rule acquire_explained [OF acquire_unique(2,3) _ _ mx tk ex])
      (use discipline(1) [OF acquire_unique(3) refl] lock_not_exclusive [OF acquire_unique(4)] in auto)
  with assms(4) acquire_unique(1) show ?thesis by auto
next
  case (acquire_shared c k now k' x m)
  have "explains P S' y" unfolding acquire_shared(1)
    by (rule acquire_explained [OF acquire_shared(2,3) _ _ mx tk ex])
      (use discipline(2) [OF acquire_shared(3) refl] lock_not_exclusive [OF acquire_shared(4)] in auto)
  with assms(4) acquire_shared(1) show ?thesis by auto
next
  case (work c k g now k' x)
  have "explains P S' y" unfolding work(1) by (rule work_explained [OF work(2,3) mx tk ex])
  with assms(4) work(1) show ?thesis by auto
next
  case (commit c k g now r x)
  from commit_explained [OF commit(2,3) mx tk ex] obtain m z where "perform P c m y = (r, z)" "explains P S' z"
    unfolding commit(1) by blast
  moreover from this(1) have "serial P (commits (trace S')) x0 z" using serial.step [OF assms(4)] commit(1) by simp
  ultimately show ?thesis by blast
next
  case (release c r g)
  have "explains P (S\<lparr>mutex := unlock g (mutex S), phases := (phases S)(t := Leaving c r NoGuard), trace := trace S\<rparr>) y"
    using release by (intro explains_passive [OF ex]) auto
  with assms(4) release(1) show ?thesis by auto
next
  case (respond c r)
  have "explains P (S\<lparr>mutex := mutex S, phases := (phases S)(t := Idle), trace := trace S'\<rparr>) y"
    using respond by (intro explains_passive [OF ex]) auto
  with assms(4) respond(1) show ?thesis by auto
qed

lemma thread_step_inv: "thread_step P t S S' \<Longrightarrow> system_inv P x0 S \<Longrightarrow> system_inv P x0 S'"
  using thread_step_frame [of P t S S'] thread_step_explained [of P t S S' x0] unfolding system_inv_def by blast

lemma enter_inv:
  assumes "system_inv P x0 S" and "phases S t = Idle"
  shows "system_inv P x0 (enter t c S)"
proof -
  from assms(1) obtain y where y: "serial P (commits (trace S)) x0 y" "explains P S y" by (auto simp: system_inv_def)
  then have "explains P (enter t c S) y"
    using assms(2) unfolding explains_def enter_def by simp (metis phase.distinct(1))
  moreover have "\<forall>u. follow u (trace (enter t c S)) = Some (progress_of (phases (enter t c S) u))"
    using assms by (simp add: system_inv_def enter_def)
  ultimately show ?thesis using assms y
    by (auto simp: system_inv_def enter_def mutex_ok_same task_ok_def intro: tasks_ok_upd finite_active)
qed

lemma initial_inv: "system_inv P x0 (initial x0)"
  by (auto simp: system_inv_def initial_def mutex_ok_def holders_def tasks_ok_def active_def explains_def intro: serial.stop)

lemma reachable_inv: "reachable P x0 S \<Longrightarrow> system_inv P x0 S"
  by (induction rule: reachable.induct) (simp_all add: initial_inv enter_inv thread_step_inv)

end
