(* ===== verification/Thread_Progress.thy ===== *)
theory Thread_Progress
  imports Thread_System
begin

text \<open>
  Threads that call one engine do not wait for each other forever: whoever holds the mutex can go on, a thread
  that waits can go on once the mutex is free, and every call needs only finitely many steps.
\<close>

section \<open>Enabled steps\<close>

text \<open>A thread that holds the mutex is never blocked.\<close>

lemma holder_steps:
  assumes "tasks_ok (phases S)" and "held (phases S t) \<noteq> NoGuard"
  shows "\<exists>S'. thread_step P t S S'"
proof (cases "phases S t")
  case (Running c k g)
  obtain out x where o: "micro P 0 k (shared S) = (out, x)" by (cases "micro P 0 k (shared S)") blast
  have "guard_of k \<noteq> NoGuard" using tasks_okD [OF assms(1) Running] assms(2) Running by auto
  with micro_discipline [of k "shared S" P 0] have "(\<exists>k'. out = Continue k') \<or> (\<exists>r. out = Return r)"
    by (cases out) (auto simp: keeps_discipline_def o)
  with o Running show ?thesis by (auto intro: thread_step.work thread_step.commit)
next
  case (Leaving c r g)
  with assms(2) show ?thesis by (auto intro: thread_step.release)
qed (use assms(2) in simp)

text \<open>A thread at the start of a call goes on unless the mutex is held: by a writer, if the call only reads.\<close>

lemma waiting_steps:
  assumes "tasks_ok (phases S)" and "phases S t = Running c k NoGuard"
    and "mutex S = Unlocked \<or> read_only c \<and> mutex S \<noteq> Exclusive"
  shows "\<exists>S'. thread_step P t S S'"
proof -
  have k: "k = start c" using tasks_okD(2) [OF assms(1,2)] by simp
  consider (unique) k' where "micro P 0 k (shared S) = (LockUnique k', shared S)" "\<not> read_only c"
    | (shared) k' where "micro P 0 k (shared S) = (LockShared k', shared S)"
    | (returns) r where "micro P 0 k (shared S) = (Return r, shared S)"
    using micro_start [of P 0 c "shared S"] k by blast
  then show ?thesis
  proof cases
    case (unique k')
    then have "lock UniqueGuard (mutex S) = Some Exclusive" using assms(3) by simp
    from thread_step.acquire_unique [OF assms(2) unique(1) this] show ?thesis by blast
  next
    case (shared k')
    obtain m where "lock SharedGuard (mutex S) = Some m" using assms(3) by (cases "mutex S") auto
    from thread_step.acquire_shared [OF assms(2) shared this] show ?thesis by blast
  next
    case (returns r)
    from thread_step.commit [OF assms(2) returns] show ?thesis by blast
  qed
qed

lemma mutex_held:
  assumes "mutex_ok m ph"
  shows "m \<noteq> Unlocked \<Longrightarrow> \<exists>u. held (ph u) \<noteq> NoGuard" and "m = Exclusive \<Longrightarrow> \<exists>u. held (ph u) = UniqueGuard"
proof -
  show e: "m = Exclusive \<Longrightarrow> \<exists>u. held (ph u) = UniqueGuard"
    using assms by (auto simp: mutex_ok_def holders_def)
  show "\<exists>u. held (ph u) \<noteq> NoGuard" if "m \<noteq> Unlocked"
  proof (cases m)
    case (Shared n)
    with assms have "holders ph SharedGuard \<noteq> {}" by (auto simp: mutex_ok_def)
    then obtain u where "u \<in> holders ph SharedGuard" by blast
    then show ?thesis by (intro exI [of _ u]) (simp add: holders_def)
  next
    case Exclusive
    from e [OF this] obtain u where "held (ph u) = UniqueGuard" ..
    then show ?thesis by (intro exI [of _ u]) simp
  qed (use that in blast)
qed

text \<open>A call that cannot go on waits for a thread that can; a read waits for a writer only.\<close>

lemma step_or_wait:
  assumes inv: "system_inv P x0 S" and "progress_of (phases S t) = Pending c \<or> progress_of (phases S t) = Done c r"
  shows "(\<exists>S'. thread_step P t S S') \<or>
    (\<exists>u. held (phases S u) \<noteq> NoGuard \<and> (read_only c \<longrightarrow> held (phases S u) = UniqueGuard) \<and> (\<exists>S'. thread_step P u S S'))"
proof (cases "held (phases S t) = NoGuard")
  case False
  with inv holder_steps show ?thesis by (auto simp: system_inv_def)
next
  case True
  show ?thesis
  proof (cases "phases S t")
    case Idle
    with assms(2) show ?thesis by simp
  next
    case (Leaving c' r' g)
    with True show ?thesis by (auto intro: thread_step.respond)
  next
    case (Running c' k g)
    then have c: "c' = c" using assms(2) by simp
    show ?thesis
    proof (cases "mutex S = Unlocked \<or> read_only c \<and> mutex S \<noteq> Exclusive")
      case True': True
      with waiting_steps [of S t c k] Running True c inv show ?thesis by (auto simp: system_inv_def)
    next
      case False
      have mx: "mutex_ok (mutex S) (phases S)" and tk: "tasks_ok (phases S)" using inv by (simp_all add: system_inv_def)
      have "\<exists>u. held (phases S u) \<noteq> NoGuard \<and> (read_only c \<longrightarrow> held (phases S u) = UniqueGuard)"
      proof (cases "read_only c")
        case True
        with False mutex_held(2) [OF mx] obtain u where "held (phases S u) = UniqueGuard" by blast
        then show ?thesis by (intro exI [of _ u]) simp
      next
        case nr: False
        with False mutex_held(1) [OF mx] show ?thesis by blast
      qed
      with holder_steps [OF tk] show ?thesis by blast
    qed
  qed
qed

section \<open>Finitely many steps\<close>

fun waiting :: "phase \<Rightarrow> bool" where
  "waiting (Running c k g) = (g = NoGuard)"
| "waiting p = False"

fun phase_weight :: "shared_state \<Rightarrow> phase \<Rightarrow> nat" where
  "phase_weight x Idle = 0"
| "phase_weight x (Running c k g) = (if g = NoGuard then 0 else weight k x + 3)"
| "phase_weight x (Leaving c r g) = (if g = NoGuard then 1 else 2)"

text \<open>The calls that wait for their lock, and then the steps that the others have left.\<close>

definition waiters :: "(tid \<Rightarrow> phase) \<Rightarrow> tid set" where
  "waiters ph = {t. waiting (ph t)}"

definition work_left :: "shared_state \<Rightarrow> (tid \<Rightarrow> phase) \<Rightarrow> nat" where
  "work_left x ph = (\<Sum>t\<in>active ph. phase_weight x (ph t))"

definition system_measure :: "system \<Rightarrow> nat \<times> nat" where
  "system_measure S = (card (waiters (phases S)), work_left (shared S) (phases S))"

lemma waiting_fewer:
  assumes "finite (active ph)" and "waiting (ph t)" and "\<not> waiting p"
  shows "card (waiters (ph(t := p))) < card (waiters ph)"
proof (rule psubset_card_mono)
  have "waiters ph \<subseteq> active ph" by (auto simp: active_def waiters_def)
  then show "finite (waiters ph)" using assms(1) finite_subset by blast
qed (use assms(2,3) in \<open>auto simp: waiters_def\<close>)

lemma waiting_same:
  assumes "\<not> waiting (ph t)" and "\<not> waiting p"
  shows "waiters (ph(t := p)) = waiters ph"
  using assms by (auto simp: waiters_def)

lemma weight_less:
  assumes "finite (active ph)" and "ph t \<noteq> Idle" and "phase_weight y p < phase_weight x (ph t)"
    and same: "\<And>u. u \<noteq> t \<Longrightarrow> y = x \<or> held (ph u) = NoGuard"
  shows "work_left y (ph(t := p)) < work_left x ph"
proof -
  have others: "phase_weight y (ph u) = phase_weight x (ph u)" if "u \<noteq> t" for u
    using same [OF that] by (cases "ph u") auto
  have "(\<Sum>u\<in>active (ph(t := p)). phase_weight y ((ph(t := p)) u)) \<le> (\<Sum>u\<in>active ph. phase_weight y ((ph(t := p)) u))"
    using assms(1,2) by (intro sum_mono2) (auto simp: active_def)
  also have "\<dots> < (\<Sum>u\<in>active ph. phase_weight x (ph u))"
  proof (rule sum_strict_mono_ex1 [OF assms(1)])
    show "\<forall>u\<in>active ph. phase_weight y ((ph(t := p)) u) \<le> phase_weight x (ph u)" using others assms(3) by auto
    show "\<exists>u\<in>active ph. phase_weight y ((ph(t := p)) u) < phase_weight x (ph u)"
      using assms(2,3) by (intro bexI [of _ t]) (auto simp: active_def)
  qed
  finally show ?thesis by (simp only: work_left_def)
qed

text \<open>A step that changes the shared state is a writer's, and the writer is alone.\<close>

lemma others_unaffected:
  assumes "system_inv P x0 S" and "phases S t = Running c k g" and "micro P now k (shared S) = (out, y)" and "u \<noteq> t"
  shows "y = shared S \<or> held (phases S u) = NoGuard"
proof (cases "guard_of k = UniqueGuard")
  case True
  then have "held (phases S t) = UniqueGuard" using assms(1,2) tasks_okD(1) by (auto simp: system_inv_def)
  with mutex_ok_alone assms(1,4) show ?thesis by (auto simp: system_inv_def)
next
  case False
  then show ?thesis using micro_discipline [of k "shared S" P now] assms(3)
    by (cases out; cases "guard_of k") (auto simp: keeps_discipline_def)
qed

lemma thread_step_measure:
  assumes "thread_step P t S S'" and inv: "system_inv P x0 S"
  shows "(system_measure S', system_measure S) \<in> less_than <*lex*> less_than"
proof -
  have fin: "finite (active (phases S))" and tk: "tasks_ok (phases S)" using inv by (simp_all add: system_inv_def)
  from assms(1) show ?thesis
  proof cases
    case (acquire_unique c k now k' x m)
    then show ?thesis using waiting_fewer [OF fin, of t "Running c k' UniqueGuard"] by (simp add: system_measure_def)
  next
    case (acquire_shared c k now k' x m)
    then show ?thesis using waiting_fewer [OF fin, of t "Running c k' SharedGuard"] by (simp add: system_measure_def)
  next
    case (work c k g now k' x)
    have g: "g \<noteq> NoGuard" using discipline(3) [OF work(3) refl] tasks_okD(1) [OF tk work(2)] by auto
    have "phase_weight x (Running c k' g) < phase_weight (shared S) (phases S t)"
      using micro_weight [OF work(3)] g work(2) by simp
    with weight_less [OF fin, of t] others_unaffected [OF inv work(2,3)] work(1,2) g show ?thesis
      by (simp add: system_measure_def waiting_same)
  next
    case (commit c k g now r x)
    show ?thesis
    proof (cases "g = NoGuard")
      case True
      then show ?thesis using commit waiting_fewer [OF fin, of t "Leaving c r g"] by (simp add: system_measure_def)
    next
      case False
      then have "phase_weight x (Leaving c r g) < phase_weight (shared S) (phases S t)" using commit(2) by simp
      with weight_less [OF fin, of t] others_unaffected [OF inv commit(2,3)] commit(1,2) False show ?thesis
        by (simp add: system_measure_def waiting_same)
    qed
  next
    case (release c r g)
    then show ?thesis using weight_less [OF fin, of t "shared S" "Leaving c r NoGuard" "shared S"]
      by (simp add: system_measure_def waiting_same)
  next
    case (respond c r)
    then show ?thesis using weight_less [OF fin, of t "shared S" Idle "shared S"]
      by (simp add: system_measure_def waiting_same)
  qed
qed

end
