(* ===== verification/Thread_Properties.thy ===== *)
theory Thread_Properties
  imports Thread_Progress Sample_Engine
begin

text \<open>
  The properties of an engine that several threads call: what they get is explained by one order of whole
  calls, an in-memory engine is an atomic map, writers exclude each other and all readers, and every call
  returns.
\<close>

section \<open>A concrete system\<close>

text \<open>Thread 0 has entered \<open>set\<close>, thread 1 has entered \<open>get\<close> for the same key, and thread 0 has taken the mutex.\<close>

definition sample_system :: system where
  "sample_system =
    \<lparr>shared = (makeInMemory 2, sample_os), mutex = Exclusive,
     phases = (\<lambda>_. Idle)(0 := Running (CallSet [107] [118] (Double 5)) (SetTask (SetClock [107] [118] (Double 5))) UniqueGuard,
       1 := Running (CallGet [107]) (GetTask (GetEnter [107])) NoGuard),
     trace = [Invoked 0 (CallSet [107] [118] (Double 5)), Invoked 1 (CallGet [107])]\<rparr>"

lemma sample_system_reachable: "reachable P (makeInMemory 2, sample_os) sample_system"
proof -
  let ?c = "CallSet [107] [118] (Double 5)" and ?d = "CallGet [107]"
  let ?S = "enter 1 ?d (enter 0 ?c (initial (makeInMemory 2, sample_os)))"
  have r: "reachable P (makeInMemory 2, sample_os) ?S"
    by (intro reachable.invoke reachable.start) (simp_all add: enter_def initial_def)
  have "thread_step P 0 ?S (?S\<lparr>shared := shared ?S, mutex := Exclusive,
      phases := (phases ?S)(0 := Running ?c (SetTask (SetClock [107] [118] (Double 5))) UniqueGuard)\<rparr>)"
    by (rule thread_step.acquire_unique [where k = "start ?c" and now = 0])
      (simp_all add: enter_def initial_def relabel_def kMaxFieldSize_def engine_kMaxFieldSize_def)
  also have "?S\<lparr>shared := shared ?S, mutex := Exclusive,
      phases := (phases ?S)(0 := Running ?c (SetTask (SetClock [107] [118] (Double 5))) UniqueGuard)\<rparr> = sample_system"
    by (auto simp: sample_system_def enter_def initial_def)
  finally show ?thesis using reachable.step [OF r] by blast
qed

text \<open>From there thread 0 finishes its body and lets go, and thread 1 reads what it has written.\<close>

definition sample_end :: system where
  "sample_end =
    \<lparr>shared = (makeInMemory 2\<lparr>m_data := [([107], [\<lparr>rec_value = [118], rec_duration = Double 5, rec_timestamp = 7\<rparr>])]\<rparr>, sample_os),
     mutex = Shared 1,
     phases = (\<lambda>_. Idle)(0 := Leaving (CallSet [107] [118] (Double 5)) Returned NoGuard,
       1 := Leaving (CallGet [107]) (Got (Some [118])) SharedGuard),
     trace = [Invoked 0 (CallSet [107] [118] (Double 5)), Invoked 1 (CallGet [107]),
       Committed 0 (CallSet [107] [118] (Double 5)) Returned, Committed 1 (CallGet [107]) (Got (Some [118]))]\<rparr>"

lemma sample_run:
  "run_schedule P [(0, 7), (0, 7), (0, 7), (0, 7), (1, 0), (1, 0), (1, 0)] sample_system = Some sample_end"
  by (simp add: sample_system_def sample_end_def act_def relabel_def makeInMemory_def appendCapped_def kUnlimitedHistory_def
      fun_upd_twist)

lemma sample_end_reachable: "reachable P (makeInMemory 2, sample_os) sample_end"
  by (rule run_schedule_reachable [OF sample_system_reachable sample_run])

lemma sample_end_quiet: "\<forall>t c k. phases sample_end t \<noteq> Running c k UniqueGuard"
  by (simp add: sample_end_def)

section \<open>Linearizability\<close>

text \<open>A read does not change the object and never uses a dangling iterator.\<close>

lemma perform_read: "read_only c \<Longrightarrow> perform P c now x = (r, y) \<Longrightarrow> y = x \<and> r \<noteq> Failed f"
  by (cases c; cases x) auto

lemma serial_reads: "serial P h x y \<Longrightarrow> (c, r) \<in> set h \<Longrightarrow> read_only c \<Longrightarrow> r \<noteq> Failed f"
  by (induction rule: serial.induct) (auto dest: perform_read)

text \<open>C5. However threads interleave, there is one order of the calls in which each is a single step of its method, and
  every call gets the reply it gets there. Each call takes its place in the order between its beginning and its end, so the
  order keeps what happens before what; while no writer is at work, the shared state is the one the order
  ends in. No read uses an iterator that a writer has invalidated.\<close>

theorem threads_linearize:
  assumes "reachable P x0 S"
  shows "(\<forall>t. follow t (trace S) = Some (progress_of (phases S t))) \<and>
    (\<exists>y. serial P (commits (trace S)) x0 y \<and> ((\<forall>t c k. phases S t \<noteq> Running c k UniqueGuard) \<longrightarrow> shared S = y)) \<and>
    (\<forall>c r f. (c, r) \<in> set (commits (trace S)) \<and> read_only c \<longrightarrow> r \<noteq> Failed f)"
  using reachable_inv [OF assms] serial_reads unfolding system_inv_def explains_def by blast

theorem threads_linearize_witness:
  "\<exists>y. serial sample_platform (commits (trace sample_end)) (makeInMemory 2, sample_os) y \<and> shared sample_end = y \<and>
    commits (trace sample_end) = [(CallSet [107] [118] (Double 5), Returned), (CallGet [107], Got (Some [118]))]"
proof -
  have "\<exists>y. serial sample_platform (commits (trace sample_end)) (makeInMemory 2, sample_os) y \<and> shared sample_end = y"
    using threads_linearize [OF sample_end_reachable [of sample_platform]] sample_end_quiet by blast
  then show ?thesis by (simp add: sample_end_def)
qed

section \<open>Atomic maps\<close>

text \<open>What a call means on a map of histories that is used without a log.\<close>

definition mean :: "Record list \<Rightarrow> double" where
  "mean h = double_div (foldl (\<lambda>acc r. double_add acc (rec_duration r)) (Double 0) h) (double_of_nat (length h))"

fun spec_call :: "nat \<Rightarrow> call \<Rightarrow> i64 \<Rightarrow> store \<Rightarrow> reply \<times> store" where
  "spec_call cap (CallSet key val duration) now m =
    (if length key > kMaxFieldSize \<or> length val > engine_kMaxFieldSize
     then (Failed (Throws (length_error
       (if length key > kMaxFieldSize then ''key exceeds '' @ to_string kMaxFieldSize @ '' bytes''
        else ''value exceeds '' @ to_string engine_kMaxFieldSize @ '' bytes''))), m)
     else (Returned, spec_put cap key \<lparr>rec_value = val, rec_duration = duration, rec_timestamp = now\<rparr> m))"
| "spec_call cap (CallRemove key) now m = (Found (m key \<noteq> None), spec_remove key m)"
| "spec_call cap CallSnapshot now m = (Failed (Throws (runtime_error ''snapshot() called on engine with no WAL'')), m)"
| "spec_call cap CallRecover now m = (Failed Undefined, m)"
| "spec_call cap (CallGet key) now m = (Got (map_option (\<lambda>h. rec_value (last h)) (m key)), m)"
| "spec_call cap (CallAverage key) now m = (Averaged (map_option mean (m key)), m)"
| "spec_call cap CallCount now m = (Counted (card (dom m)), m)"
| "spec_call cap (CallHistory key) now m = (Counted (case m key of None \<Rightarrow> 0 | Some h \<Rightarrow> length h), m)"

inductive spec_serial :: "nat \<Rightarrow> (call \<times> reply) list \<Rightarrow> store \<Rightarrow> store \<Rightarrow> bool" for cap where
  stop: "spec_serial cap [] m m"
| step: "spec_serial cap h m m' \<Longrightarrow> spec_call cap c now m' = (r, m'') \<Longrightarrow> spec_serial cap (h @ [(c, r)]) m m''"

definition in_memory :: "nat \<Rightarrow> os \<Rightarrow> shared_state \<Rightarrow> bool" where
  "in_memory cap s x \<longleftrightarrow> m_wal (fst x) = None \<and> m_maxHistoryPerKey (fst x) = cap \<and> data_wf cap (m_data (fst x)) \<and> snd x = s"

lemma data_wf_map_of:
  assumes "data_wf cap data"
  shows "map_of data key = Some h \<Longrightarrow> h \<noteq> []" and "length data = card (dom (map_of data))"
proof -
  have d: "distinct (map fst data)" using assms by (simp add: data_wf_def)
  with assms show "map_of data key = Some h \<Longrightarrow> h \<noteq> []"
    using data_wf_histories [OF d, of cap] unfolding histories_of_def by blast
  show "length data = card (dom (map_of data))"
    using distinct_card [OF d] by (simp add: dom_map_of_conv_image_fst)
qed

lemma perform_in_memory:
  assumes "in_memory cap s x" and "perform P c now x = (r, y)" and "c \<noteq> CallRecover"
  shows "in_memory cap s y \<and> spec_call cap c now (histories_of (m_data (fst x))) = (r, histories_of (m_data (fst y)))"
proof -
  obtain e t where x: "x = (e, t)" by fastforce
  note i = assms(1) [unfolded in_memory_def x fst_conv snd_conv]
  note wf = data_wf_map_of [of cap "m_data e"]
  show ?thesis
  proof (cases c)
    case (CallSet key val duration)
    then show ?thesis using assms(2) i
      by (auto simp: x in_memory_def StorageEngine_set_def answer_def appendCapped_put histories_put data_wf_put split: if_splits)
  next
    case (CallRemove key)
    then show ?thesis using assms(2) i
      by (auto simp: x in_memory_def StorageEngine_remove_def answer_def Let_def histories_erase histories_of_def [of "m_data e"] data_wf_delete)
  next
    case CallSnapshot
    then show ?thesis using assms(2) i by (auto simp: x in_memory_def StorageEngine_snapshot_def answer_def)
  next
    case (CallGet key)
    then show ?thesis using assms(1,2) i wf(1)
      by (cases "map_of (m_data e) key") (auto simp: x StorageEngine_get_def histories_of_def)
  next
    case (CallAverage key)
    then show ?thesis using assms(1,2) i wf(1)
      by (cases "map_of (m_data e) key") (auto simp: x StorageEngine_getAverage_def histories_of_def mean_def Let_def)
  next
    case CallCount
    then show ?thesis using assms(1,2) i wf(2) by (auto simp: x StorageEngine_count_def histories_of_def)
  next
    case (CallHistory key)
    then show ?thesis using assms(1,2)
      by (cases "map_of (m_data e) key") (auto simp: x StorageEngine_historyCount_def histories_of_def)
  qed (use assms(3) in blast)
qed

lemma serial_in_memory:
  "serial P h x y \<Longrightarrow> in_memory cap s x \<Longrightarrow> (\<forall>r. (CallRecover, r) \<notin> set h) \<Longrightarrow>
    in_memory cap s y \<and> spec_serial cap h (histories_of (m_data (fst x))) (histories_of (m_data (fst y)))"
proof (induction rule: serial.induct)
  case (stop x)
  then show ?case by (simp add: spec_serial.stop)
next
  case (step h x y c now r z)
  then have i: "in_memory cap s y" "spec_serial cap h (histories_of (m_data (fst x))) (histories_of (m_data (fst y)))" by auto
  have "c \<noteq> CallRecover" using step.prems(2) by auto
  from perform_in_memory [OF i(1) step.hyps(2) this] spec_serial.step [OF i(2)] show ?case by blast
qed

text \<open>C14. An in-memory engine that any number of threads use is one atomic map of capped histories: every reply is the one
  the map gives when the calls are made one after the other in their order of effect, and while no writer is at work the
  engine holds that map. The calls may be any but \<open>recover\<close>, which without a log is undefined behaviour.\<close>

theorem threads_share_one_map:
  assumes "reachable P (makeInMemory cap, s) S" and "\<forall>r. (CallRecover, r) \<notin> set (commits (trace S))"
  shows "\<exists>m. spec_serial cap (commits (trace S)) Map.empty m \<and>
    ((\<forall>t c k. phases S t \<noteq> Running c k UniqueGuard) \<longrightarrow> histories_of (m_data (fst (shared S))) = m \<and> snd (shared S) = s)"
proof -
  from reachable_inv [OF assms(1)] obtain y where y: "serial P (commits (trace S)) (makeInMemory cap, s) y"
      "(\<forall>t c k. phases S t \<noteq> Running c k UniqueGuard) \<longrightarrow> shared S = y"
    unfolding system_inv_def explains_def by blast
  have "in_memory cap s (makeInMemory cap, s)" by (simp add: in_memory_def makeInMemory_def)
  from serial_in_memory [OF y(1) this assms(2)] y(2) show ?thesis
    by (auto simp: in_memory_def makeInMemory_def histories_of_def)
qed

theorem threads_share_one_map_witness:
  "spec_serial 2 [(CallSet [107] [118] (Double 5), Returned), (CallGet [107], Got (Some [118]))] Map.empty
    [[107] \<mapsto> [\<lparr>rec_value = [118], rec_duration = Double 5, rec_timestamp = 7\<rparr>]]"
proof -
  have "\<forall>r. (CallRecover, r) \<notin> set (commits (trace sample_end))" by (simp add: sample_end_def)
  from threads_share_one_map [OF sample_end_reachable this]
  have "spec_serial 2 (commits (trace sample_end)) Map.empty (histories_of (m_data (fst (shared sample_end))))"
    using sample_end_quiet by blast
  then show ?thesis by (simp add: sample_end_def histories_of_def)
qed

section \<open>Exclusion\<close>

text \<open>C16. A thread inside the body of \<open>set\<close>, \<open>remove\<close>, \<open>snapshot\<close> or \<open>recover\<close> holds the engine's mutex as a writer, a
  thread inside the body of one of the other methods holds it as a reader; and while one holds it as a writer, even on
  its way out, no other thread holds it in any mode.\<close>

theorem writers_are_alone:
  assumes "reachable P x0 S"
  shows "(\<forall>t c k g. phases S t = Running c k g \<and> k \<noteq> start c \<longrightarrow> g = (if read_only c then SharedGuard else UniqueGuard)) \<and>
    (\<forall>t u. held (phases S t) = UniqueGuard \<and> u \<noteq> t \<longrightarrow> held (phases S u) = NoGuard)"
proof (intro conjI allI impI)
  have tk: "tasks_ok (phases S)" and mx: "mutex_ok (mutex S) (phases S)"
    using reachable_inv [OF assms] by (simp_all add: system_inv_def)
  show "g = (if read_only c then SharedGuard else UniqueGuard)" if "phases S t = Running c k g \<and> k \<noteq> start c" for t c k g
    using that tasks_okD [OF tk, of t c k g] by (cases g) auto
  show "held (phases S u) = NoGuard" if "held (phases S t) = UniqueGuard \<and> u \<noteq> t" for t u
    using mutex_ok_alone [OF mx, of t u] that by blast
qed

theorem writers_are_alone_witness:
  "held (phases sample_system 0) = UniqueGuard \<and> held (phases sample_system 1) = NoGuard"
proof -
  have "held (phases sample_system 0) = UniqueGuard" by (simp add: sample_system_def)
  moreover from this have "held (phases sample_system 1) = NoGuard"
    using writers_are_alone [OF sample_system_reachable [of sample_platform]] zero_neq_one by metis
  ultimately show ?thesis ..
qed

section \<open>Progress\<close>

text \<open>C17. There is no deadlock: a call that has begun and cannot take a step waits for a thread that holds the mutex and
  can take one, and a call that only reads waits for a writer, never for another reader.\<close>

theorem waiting_is_for_running:
  assumes "reachable P x0 S" and "progress_of (phases S t) = Pending c \<or> progress_of (phases S t) = Done c r"
  shows "(\<exists>S'. thread_step P t S S') \<or>
    (\<exists>u. held (phases S u) \<noteq> NoGuard \<and> (read_only c \<longrightarrow> held (phases S u) = UniqueGuard) \<and> (\<exists>S'. thread_step P u S S'))"
  using reachable_inv [OF assms(1)] assms(2) by (rule step_or_wait)

theorem waiting_is_for_running_witness:
  "\<exists>u S'. thread_step sample_platform u sample_system S'"
  using waiting_is_for_running [OF sample_system_reachable [of sample_platform], of 1 "CallGet [107]"]
  by (auto simp: sample_system_def)

text \<open>C15. The calls that have begun return, if no new ones begin: from any reachable state the threads can then take only
  finitely many steps, whatever the scheduler does, and when they can take no more, no call is left. (While new
  readers keep coming, a writer may wait for ever: the standard does not say that the mutex is fair.) The loop of
  \<open>getAverage\<close> ends because no writer can lengthen the history under it.\<close>

theorem calls_return:
  assumes "reachable P x0 S"
  shows "(\<nexists>f. f 0 = S \<and> (\<forall>i. \<exists>t. thread_step P t (f i) (f (Suc i)))) \<and>
    ((\<nexists>t S'. thread_step P t S S') \<longrightarrow> (\<forall>t. phases S t = Idle))"
proof (intro conjI)
  show "\<nexists>f. f 0 = S \<and> (\<forall>i. \<exists>t. thread_step P t (f i) (f (Suc i)))"
  proof
    assume "\<exists>f. f 0 = S \<and> (\<forall>i. \<exists>t. thread_step P t (f i) (f (Suc i)))"
    then obtain f where f: "f 0 = S" "\<And>i. \<exists>t. thread_step P t (f i) (f (Suc i))" by blast
    have "system_inv P x0 (f i)" for i
    proof (induction i)
      case 0
      then show ?case using reachable_inv [OF assms] f(1) by simp
    next
      case (Suc i)
      then show ?case using f(2) thread_step_inv by blast
    qed
    then have "\<forall>i. (system_measure (f (Suc i)), system_measure (f i)) \<in> less_than <*lex*> less_than"
      using f(2) thread_step_measure by blast
    then have "\<exists>g. \<forall>i. (g (Suc i), g i) \<in> less_than <*lex*> less_than"
      by (rule exI [of _ "\<lambda>i. system_measure (f i)"])
    moreover have "wf (less_than <*lex*> less_than)" by (simp add: wf_lex_prod)
    ultimately show False unfolding wf_iff_no_infinite_down_chain by (rule notE [rotated])
  qed
  show "(\<nexists>t S'. thread_step P t S S') \<longrightarrow> (\<forall>t. phases S t = Idle)"
  proof (intro impI allI)
    fix t
    assume stuck: "\<nexists>t S'. thread_step P t S S'"
    show "phases S t = Idle"
    proof (rule ccontr)
      assume "phases S t \<noteq> Idle"
      then obtain c r where "progress_of (phases S t) = Pending c \<or> progress_of (phases S t) = Done c r"
        by (cases "phases S t") auto
      from step_or_wait [OF reachable_inv [OF assms] this] stuck show False by blast
    qed
  qed
qed

theorem calls_return_witness:
  "\<nexists>f. f 0 = sample_system \<and> (\<forall>i. \<exists>t. thread_step sample_platform t (f i) (f (Suc i)))"
  using calls_return [OF sample_system_reachable [of sample_platform]] by blast

end
