(* ===== verification/Findings.thy ===== *)
theory Findings
  imports Engine_Properties
begin

text \<open>
  Where the code does not do what it means to: each theorem derives a lost or refused write from one
  failed system call. None of them needs more than one failure.
\<close>

section \<open>A failed read is taken for a torn tail\<close>


text \<open>C35. \<open>walkChain\<close> does not tell an I/O error from the end of the file: one failed \<open>read\<close> at the first entry
  makes \<open>recover\<close> report a torn tail and cut off the whole log, although every record in it is intact.\<close>

theorem read_error_erases_the_log:
  assumes "wal_holds w s rs" and "rs \<noteq> []" and "xfers s = [IoError]" and "ctls s = []" and "\<not> dead s"
  shows "case WAL_recover f m st w s of (r, st', w', t) \<Rightarrow>
    status r = TruncatedTail \<and> st' = st \<and> fcontent t (m_fd w) = take 16 (fcontent s (m_fd w))"
proof -
  let ?fd = "m_fd w" and ?c = "fcontent s (m_fd w)"
  obtain r st' w' t where rc: "WAL_recover f m st w s = (r, st', w', t)" by (metis prod_cases4)
  have nn: "?fd \<noteq> -1" and app: "appending s ?fd" and hb: "holds_bytes ?c rs" using assms(1) by (simp_all add: wal_holds_def)
  obtain g where g: "fds s ?fd = Some g" using app by (auto simp: appending_def)
  have c: "?c = cached (inodes s (f_ino g))" using g by (simp add: fcontent_def)
  have len: "16 < length ?c"
    using holds_bytes_len [OF hb] assms(2) by (cases rs) (auto simp: length_entry_bytes)
  let ?s2 = "set_offset s ?fd g 16"
  have nc: "next_ctl s = (True, s)" using assms(4,5) by (simp add: next_ctl_def)
  have fs: "sys_fstat_size ?fd s = (Some (length ?c), s)"
    using g c by (simp add: sys_fstat_size_def nc)
  have ls: "sys_lseek ?fd (SEEK_SET 16) s = (Some 16, ?s2)"
    using g by (simp add: sys_lseek_def nc)
  have rd: "sys_read ?fd n ?s2 = (Err, [], ?s2\<lparr>xfers := []\<rparr>)" for n
    using g assms(3,5) by (simp add: sys_read_def next_xfer_def set_offset_def)
  have torn: "walk_entry ?fd z p h q ?s2 = (Torn, ?s2\<lparr>xfers := []\<rparr>)" for z p h q
    by (simp add: walk_entry_def readExact_def readExact_loop.simps [of ?fd 4] rd)
  have loop: "walk_loop ?fd (Some f) m (length ?c) 16 zero_hash 0 st ?s2 = (WalkEnd True 16 zero_hash 0, st, ?s2\<lparr>xfers := []\<rparr>)"
    using len by (subst walk_loop.simps) (simp add: torn)
  let ?s3 = "?s2\<lparr>xfers := []\<rparr>"
  obtain o4 s4 where tr: "sys_ftruncate ?fd 16 ?s3 = (o4, s4)" by fastforce
  obtain o5 s5 where le: "sys_lseek ?fd SEEK_END s4 = (o5, s5)" by fastforce
  have "walkChain w (Some f) m True st s =
      (RecoveryResult_default\<lparr>entriesVerified := 0, headHash := zero_hash, status := TruncatedTail\<rparr>, st, s5)"
    using nn by (simp add: walkChain_def fs ls loop tr le kHeaderSize_def)
  with rc have r: "status r = TruncatedTail" "st' = st" "t = s5" by (auto simp: WAL_recover_def)
  have "o4" using tr g assms(4,5) by (simp add: sys_ftruncate_def next_ctl_def set_offset_def Let_def)
  moreover have "fcontent ?s3 ?fd = ?c" using g by (simp add: fcontent_def set_offset_def)
  ultimately have "fcontent s5 ?fd = take 16 ?c"
    using sys_ftruncate_any [OF tr] sys_lseek_any [OF le] len by simp
  with rc r show ?thesis by simp
qed

theorem read_error_erases_the_log_witness:
  "\<exists>w s. wal_holds w s [sample_record] \<and>
    (case WAL_recover (\<lambda>n _ _ _ _. n + 1) None (0 :: nat) w (s\<lparr>xfers := [IoError], ctls := []\<rparr>) of (r, st', w', t) \<Rightarrow>
      status r = TruncatedTail \<and> st' = 0)"
proof -
  obtain res w s where ap: "WAL_append PUT [107] [118] 7 sample_wal sample_os = (res, w, s)" by (metis prod_cases3)
  have r: "new_record sample_wal PUT [107] [118] 7 = sample_record"
    by (simp add: new_record_def sample_record_def sample_wal_def)
  from WAL_append_any [OF ap sample_holds, unfolded r] have h: "wal_holds w s [sample_record]" "kind s" by auto
  let ?s = "s\<lparr>xfers := [IoError], ctls := []\<rparr>"
  have "wal_holds w ?s [sample_record]" "\<not> dead ?s"
    using h by (auto simp: wal_holds_def appending_def fcontent_def kind_def)
  with read_error_erases_the_log [where w = w and s = ?s and rs = "[sample_record]" and f = "\<lambda>n _ _ _ _. n + 1"
      and m = None and st = "0 :: nat"] h(1)
  show ?thesis by (auto split: prod.splits intro!: exI [of _ w] exI [of _ s])
qed

text \<open>
  When \<open>fstat\<close> fails, \<open>walkChain\<close> returns its default result: \<open>verify\<close> answers \<open>Ok\<close>, with no entries, for
  every file, a tampered one included.
\<close>

theorem stat_error_verifies_anything:
  assumes "m_fd w \<noteq> -1" and "ctls s = Refuse # cs" and "\<not> dead s"
  shows "fst (WAL_verify w s) = RecoveryResult_default \<and> status (fst (WAL_verify w s)) = Ok"
proof -
  have "fst (sys_fstat_size (m_fd w) s) = None" using assms(2,3) by (simp add: sys_fstat_size_def next_ctl_def)
  then obtain u where "sys_fstat_size (m_fd w) s = (None, u)" by (metis prod.collapse)
  with assms(1) show ?thesis by (simp add: WAL_verify_def walkChain_def RecoveryResult_default_def)
qed

section \<open>A failed sync while rotating\<close>

text \<open>C36. \<open>reset\<close> empties the file and writes a fresh header before it clears its sequence number and head hash.
  When only the last sync fails, the file is a fresh log but the object goes on with the old chain: the
  next \<open>append\<close> returns, and leaves a log that every later opening refuses as tampered.\<close>

theorem failed_rotation_poisons_the_log:
  assumes "wal_holds w s rs" and "(of_nat (length rs) :: u64) \<noteq> 0"
    and "WAL_reset w s = (False, w', t)" and "fcontent t (m_fd w) = header_bytes"
    and "storable (new_record w type key val ts)" and "WAL_append type key val ts w' t = (Inr (), w'', u)"
  shows "chain_result (fcontent u (m_fd w)) = result_of [] (BadAt Tampered)"
proof -
  have w: "m_fd w \<noteq> -1" "appending s (m_fd w)" "m_seq w = of_nat (length rs)" using assms(1) by (simp_all add: wal_holds_def)
  note r = WAL_reset_any [OF assms(3) w(2,1)]
  then have "w' = w" and of: "only_file (m_fd w) s t" by simp_all
  have app: "appending t (m_fd w)" using w(2) only_file_appending [OF of] by simp
  from WAL_append_bytes [OF assms(6) [unfolded \<open>w' = w\<close>] w(1) app assms(5)]
  have "fcontent u (m_fd w) = header_bytes @ entry_bytes (m_headHash w) (m_seq w) (new_record w type key val ts)"
    using assms(4) by simp
  then show ?thesis
    using scan_log_misplaced [of "[]" _ "m_seq w" "m_headHash w" "[]", OF _ assms(5)] assms(2) w(3)
    by (simp add: chain_result_def file_scan_def)
qed

section \<open>A snapshot reported as failed\<close>

text \<open>C34. \<open>Snapshot::save\<close> returns \<open>false\<close> when only the sync of the directory fails, after the rename.
  \<open>snapshot\<close> then throws without moving to the next epoch, so a record that is logged afterwards has the epoch
  of the snapshot, and recovery skips it: a \<open>set\<close> that returned is gone after the next opening.\<close>

theorem late_snapshot_failure_loses_writes:
  assumes "engine_inv P e s rs" and "m_wal e = Some w" and "good_platform P" and "image_fits (engine_image P e w)"
    and "Snapshot_save (m_snapshotPath e) (engine_image P e w) s = (False, t)"
    and "file_of t (m_snapshotPath e) = Some (snapshot_file (engine_image P e w))"
    and "StorageEngine_set P key val duration now e t = (Inr (), e', u)"
    and "length key \<le> kMaxFieldSize" and "length val \<le> engine_kMaxFieldSize"
  shows "(\<exists>m. StorageEngine_snapshot P e s = (Inl (Throws m), e, t)) \<and>
    histories_of (m_data e') = spec_put (m_maxHistoryPerKey e) key
      \<lparr>rec_value = val, rec_duration = duration, rec_timestamp = now\<rparr> (histories_of (m_data e)) \<and>
    disk_store P (m_maxHistoryPerKey e) (file_of u (m_walPath e)) (file_of u (m_snapshotPath e)) = Some (histories_of (m_data e))"
proof -
  let ?sp = "m_snapshotPath e" and ?wp = "m_walPath e" and ?img = "engine_image P e w"
  note i = engine_inv_wal [OF assms(1,2)] and er = engine_image_restores [OF assms(1-3)]
  have wf: "os_wf s" using assms(1) unfolding engine_inv_def by blast
  note fr = Snapshot_save_frame [OF assms(5) wf i(3)]
  have wh: "wal_holds w t rs" using i(1) fr by (simp add: wal_holds_def)
  from assms(7,2,8,9) show ?thesis
  proof (rule set_steps)
    fix r w'
    assume ap: "WAL_append PUT key (serialize P duration val) now w t = (r, w', u)"
      and res: "Inr () = (case r of Inl x \<Rightarrow> Inl (Throws x) | Inr _ \<Rightarrow> Inr ())"
      and e': "e' = (case r of Inl x \<Rightarrow> e\<lparr>m_wal := Some w'\<rparr> | Inr _ \<Rightarrow> e\<lparr>m_wal := Some w', m_data :=
        put_data (m_maxHistoryPerKey e) key \<lparr>rec_value = val, rec_duration = duration, rec_timestamp = now\<rparr> (m_data e)\<rparr>)"
      and len: "length (serialize P duration val) \<le> kMaxFieldSize"
    have r: "r = Inr ()" using res by (cases r) auto
    let ?r = "new_record w PUT key (serialize P duration val) now"
    have st: "storable ?r" using assms(8) len by (simp add: storable_new_record type_byte_def as_RecordType_def)
    note a = WAL_append_any [OF ap wh st]
    then have hold: "wal_holds w' u (rs @ [?r])" and fd: "m_fd w' = m_fd w" and of: "only_file (m_fd w) t u" using r by auto
    have "apart ?wp u (m_fd w) ?sp \<and> file_of u ?sp = file_of t ?sp" using apart_only_file [OF _ of] fr by blast
    then have f: "file_of u ?wp = Some (fcontent u (m_fd w))" "image_of (file_of u ?sp) = Some ?img"
      using apart_file_of assms(6) image_of_snapshot_file [OF assms(4)] by auto
    have hb: "holds_bytes (fcontent u (m_fd w)) (rs @ [?r])" using hold fd by (simp add: wal_holds_def)
    have "\<forall>q \<in> set (rs @ [?r]). r_epoch q \<le> si_epoch ?img" using er(2) by (simp add: new_record_def engine_image_def)
    from recovered_skipped [OF this] have "disk_store P (m_maxHistoryPerKey e) (file_of u ?wp) (file_of u ?sp) = Some (histories_of (m_data e))"
      unfolding f(1) disk_store_holds [OF hb] f(2) using er(1) by simp
    moreover have "histories_of (m_data e') = spec_put (m_maxHistoryPerKey e) key
        \<lparr>rec_value = val, rec_duration = duration, rec_timestamp = now\<rparr> (histories_of (m_data e))"
      unfolding e' r by (simp add: histories_put)
    moreover have "\<exists>m. StorageEngine_snapshot P e s = (Inl (Throws m), e, t)"
      using assms(2,5) by (simp add: StorageEngine_snapshot_def engine_image_def Let_def)
    ultimately show ?thesis by blast
  qed
qed

section \<open>The name of a new log\<close>

definition append_calls :: "log_call list \<Rightarrow> WAL \<times> os \<Rightarrow> WAL \<times> os" where
  "append_calls cs x = foldl (\<lambda>x c. snd (wal_append_ok c (fst x) (snd x))) x cs"

lemma sys_write_stable_names: "sys_write fd bs s = (r, t) \<Longrightarrow> stable_names t = stable_names s"
  by (auto simp: sys_write_def do_write_def Let_def set_offset_def set_content_def next_xfer_def
      split: if_splits list.splits prod.splits option.splits xfer.splits)

lemma writeExact_loop_names:
  "writeExact_loop fd data written s = (ok, t) \<Longrightarrow> stable_names t = stable_names s"
proof (induction fd data written s arbitrary: ok t rule: writeExact_loop.induct)
  case (1 fd data written s)
  show ?case
  proof (cases "written < length data")
    case False
    with "1.prems" show ?thesis by (auto simp: writeExact_loop.simps [of fd data written s])
  next
    case True
    obtain r u where w: "sys_write fd (drop written data) s = (r, u)" by fastforce
    with "1.prems" True "1.IH"(2) [OF True w [symmetric]] "1.IH"(1) [OF True w [symmetric]] sys_write_stable_names [OF w]
    show ?thesis
      by (cases r) (auto simp: writeExact_loop.simps [of fd data written s] split: if_splits)
  qed
qed

lemma writeExact_names: "writeExact fd data s = (ok, t) \<Longrightarrow> stable_names t = stable_names s"
  by (simp add: writeExact_def writeExact_loop_names)

lemma append_stable_names:
  assumes "WAL_append type key val ts w s = (res, w', t)"
  shows "stable_names t = stable_names s"
proof -
  have w: "stable_names s1 = stable_names s" if "writeExact fd data s = (ok, s1)" for fd data ok s1
    using writeExact_names [OF that] .
  have f: "stable_names s2 = stable_names s1" if "sys_fsync fd s1 = (ok, s2)" for fd ok s1 s2
    using sys_fsync_any [OF that] by (simp add: only_file_def)
  from assms show ?thesis
    unfolding WAL_append_def Let_def by (auto split: if_splits prod.splits dest!: w f)
qed

lemma append_calls_stable_names: "stable_names (snd (append_calls cs x)) = stable_names (snd x)"
proof (induction cs arbitrary: x)
  case (Cons c cs)
  obtain type key val ts where c: "c = (type, key, val, ts)" by (metis prod_cases4)
  obtain res w' t where ap: "WAL_append type key val ts (fst x) (snd x) = (res, w', t)" by (metis prod_cases3)
  have "append_calls (c # cs) x = append_calls cs (w', t)" by (simp add: append_calls_def wal_append_ok_def c ap)
  with Cons.IH [of "(w', t)"] append_stable_names [OF ap] show ?case by simp
qed (simp add: append_calls_def)

text \<open>C38. The constructor creates the log but never syncs its directory, and neither \<open>append\<close> nor \<open>close\<close> does: until a
  snapshot is saved next to it, a power failure may take a new log away as a whole, after any number of calls
  of \<open>append\<close>, whatever they return and however often they have synced the file.\<close>

theorem new_log_may_vanish:
  assumes "os_wf s" and "stable_names s p = None" and "WAL_open p n s = (Inr w, t)" and "append_calls cs (w, t) = (w', u)"
  shows "crash_leaves u p None \<and> crash_leaves (snd (WAL_close w' u)) p None"
proof -
  have "stable_names u p = None"
    using WAL_open_any [OF assms(3,1)] append_calls_stable_names [of cs "(w, t)"] assms(2,4) by simp
  moreover have "stable_names (snd (WAL_close w' u)) = stable_names u"
    by (cases "WAL_close w' u") (auto dest: WAL_close_any)
  ultimately show ?thesis by (simp add: crash_leaves_def)
qed

section \<open>A failed write\<close>

lemma fixed_part_sample:
  "fixed_part 0 8 0 [107] [118] PUT =
    [0, 0, 0, 0, 0, 0, 0, 0] @ [8, 0, 0, 0] @ [0, 0, 0, 0] @ [0, 0, 0, 0, 0, 0, 0, 0] @ [1, 0, 0, 0] @ [1, 0, 0, 0] @ [1]"
  by code_simp

lemma write_one_byte:
  assumes "1 < length data"
  obtains t where "writeExact 3 data (sample_os\<lparr>xfers := [Short 1, IoError]\<rparr>) = (False, t)"
    and "fcontent t 3 = header_bytes @ take 1 data" and "appending t 3" and "kind t"
proof -
  let ?f = "\<lparr>f_ino = 0, f_off = 16, f_append = True\<rparr>" and ?s = "sample_os\<lparr>xfers := [IoError]\<rparr>"
  let ?u = "set_offset (set_content ?s 0 (header_bytes @ take 1 data)) 3 ?f 17"
  have c: "cached (inodes ?s 0) = header_bytes" by (simp add: sample_os_def sample_inodes_def)
  have one: "length (take 1 data) = 1" using assms by simp
  have "write_at header_bytes 16 (take 1 data) = header_bytes @ take 1 data"
    using write_at_end [of header_bytes "take 1 data"] by simp
  then have w1: "sys_write 3 data (sample_os\<lparr>xfers := [Short 1, IoError]\<rparr>) = (Rc 1, ?u)"
    using one c by (simp add: sys_write_def next_xfer_def do_write_def Let_def sample_os_def)
  have w2: "sys_write 3 (drop 1 data) ?u = (Err, ?u\<lparr>xfers := []\<rparr>)"
    by (simp add: sys_write_def next_xfer_def set_offset_def set_content_def sample_os_def)
  have "writeExact 3 data (sample_os\<lparr>xfers := [Short 1, IoError]\<rparr>) = (False, ?u\<lparr>xfers := []\<rparr>)"
    using assms w1 w2
    by (auto simp: writeExact_def writeExact_loop.simps [of 3 data 0] writeExact_loop.simps [of 3 data "Suc 0"])
  moreover have "fcontent (?u\<lparr>xfers := []\<rparr>) 3 = header_bytes @ take 1 data"
    by (simp add: fcontent_def set_offset_def set_content_def)
  moreover have "appending (?u\<lparr>xfers := []\<rparr>) 3" by (simp add: appending_def set_offset_def)
  moreover have "kind (?u\<lparr>xfers := []\<rparr>)" by (simp add: kind_def set_offset_def set_content_def sample_os_def)
  ultimately show ?thesis by (rule that)
qed

lemma scan_shifted_entry:
  assumes "r_key r = [107]" and "r_value r = [118]" and "entry_fixed 0 r = fixed_part 0 8 0 [107] [118] PUT"
  shows "scan_entry (b # entry_bytes zero_hash 0 r) prev seq = Torn"
proof -
  obtain c0 c1 c2 c3 where c: "putLE32 [] (CRC32_calculate (entry_body zero_hash 0 r)) = [c0, c1, c2, c3]"
  proof -
    have "length (putLE32 [] (CRC32_calculate (entry_body zero_hash 0 r))) = Suc (Suc (Suc (Suc 0)))" by simp
    then show ?thesis using that by (auto simp only: length_Suc_conv length_0_conv)
  qed
  have e: "entry_bytes zero_hash 0 r = [c0, c1, c2, c3] @ fixed_part 0 8 0 [107] [118] PUT @ 107 # 118 # entry_hash zero_hash 0 r"
    unfolding entry_bytes_def c by (simp add: entry_body_def assms)
  have p: "putLE32 [] 256 = [0, 1, 0, 0]" by code_simp
  let ?f = "take 33 (drop 4 (b # entry_bytes zero_hash 0 r))"
  have f: "drop 24 ?f = putLE32 [] 256 @ putLE32 [] 256 @ [0]" "drop 28 ?f = putLE32 [] 256 @ [0]"
    unfolding e fixed_part_sample p by simp_all
  have "length (b # entry_bytes zero_hash 0 r) = 72" by (simp add: length_entry_bytes assms)
  moreover have "getLE32 (drop OFF_KEY_LEN ?f) = 256" "getLE32 (drop OFF_VALUE_LEN ?f) = 256"
    unfolding layout_values using f by (simp_all add: le32.dec_enc)
  ultimately show ?thesis by (simp add: scan_entry_def Let_def kMaxFieldSize_def)
qed

text \<open>C37. When a write fails after some bytes of an entry, they stay in the file and the object goes on as if they
  were not there. Here one byte stays; the next \<open>append\<close> returns, but its entry is one byte out of place,
  so the reader takes the rest of the file for a torn tail, and recovery cuts the entry off.\<close>

theorem failed_append_loses_a_later_record:
  "case WAL_append PUT [107] [118] 7 sample_wal (sample_os\<lparr>xfers := [Short 1, IoError]\<rparr>) of (res1, w1, s1) \<Rightarrow>
    case WAL_append PUT [107] [118] 8 w1 s1 of (res2, w2, s2) \<Rightarrow>
      res1 = Inl (runtime_error ''Failed to write entry to WAL'') \<and> res2 = Inr () \<and>
      chain_result (fcontent s2 3) = result_of [] TornTail"
proof -
  let ?s0 = "sample_os\<lparr>xfers := [Short 1, IoError]\<rparr>" and ?r = "\<lambda>ts. new_record sample_wal PUT [107] [118] ts"
  let ?e = "\<lambda>ts. entry_bytes (m_headHash sample_wal) (m_seq sample_wal) (?r ts)"
  have w: "m_seq sample_wal = 0" "m_headHash sample_wal = zero_hash" by (simp_all add: sample_wal_def)
  have st: "storable (?r ts)" for ts by (simp add: storable_new_record kMaxFieldSize_def type_byte_def as_RecordType_def)
  have len: "length (?e ts) = 71" for ts by (simp add: length_entry_bytes new_record_def)
  obtain t where t: "writeExact 3 (?e 7) ?s0 = (False, t)" "fcontent t 3 = header_bytes @ take 1 (?e 7)" "appending t 3" "kind t"
    using write_one_byte [of "?e 7"] len by auto
  note entry = append_writes_entry [where w = sample_wal and type = PUT and key = "[107]" and val = "[118]" and ts = 7]
  have a1: "WAL_append PUT [107] [118] 7 sample_wal ?s0 = (Inl (runtime_error ''Failed to write entry to WAL''), sample_wal, t)"
    unfolding WAL_append_def Let_def entry sample_fd t(1) by (simp add: kMaxFieldSize_def)
  obtain res2 w2 s2 where a2: "WAL_append PUT [107] [118] 8 sample_wal t = (res2, w2, s2)" by (metis prod_cases3)
  have "m_fd sample_wal \<noteq> -1" "appending t (m_fd sample_wal)" using t(3) by simp_all
  from WAL_append_bytes [OF a2 this st] t(2,4)
  have r2: "res2 = Inr ()" and c2: "fcontent s2 3 = (header_bytes @ take 1 (?e 7)) @ ?e 8" by auto
  obtain b where b: "take 1 (?e 7) = [b]" using len [of 7] by (cases "?e 7") auto
  have "scan_entry (b # ?e 8) prev seq = Torn" for prev seq
    unfolding w by (rule scan_shifted_entry) (simp_all add: new_record_def entry_fixed_def)
  then have "scan_log (b # ?e 8) zero_hash 0 = ([], TornTail)" by (subst scan_log.simps) simp
  then have "chain_result (fcontent s2 3) = result_of [] TornTail"
    unfolding c2 b by (simp add: chain_result_def file_scan_def)
  with a1 a2 r2 show ?thesis by simp
qed

lemma writeExact_full:
  assumes "xfers s = []" and "\<not> dead s" and "fds s fd = Some f" and "data \<noteq> []"
  shows "writeExact fd data s = (True, snd (do_write s fd f data))"
proof -
  have "sys_write fd data s = do_write s fd f data" using assms by (simp add: sys_write_def next_xfer_def)
  moreover have "fst (do_write s fd f data) = Rc (length data)" by (simp add: do_write_def Let_def)
  ultimately have w: "sys_write fd data s = (Rc (length data), snd (do_write s fd f data))" by (metis prod.collapse)
  show ?thesis using assms(4)
    by (simp add: writeExact_def writeExact_loop.simps [of fd data 0] writeExact_loop.simps [of fd data "length data"] w)
qed

definition refusing_os :: os where
  "refusing_os = sample_os\<lparr>ctls := [Succeed, Succeed, Succeed, Succeed, Succeed, Refuse]\<rparr>"

lemma refused_save:
  "\<exists>t. Snapshot_save ''w.snap'' \<lparr>si_epoch = 0, si_state = []\<rparr> refusing_os = (False, t) \<and> kind t \<and>
    file_of t ''w.snap'' = Some (snapshot_file \<lparr>si_epoch = 0, si_state = []\<rparr>)"
proof -
  let ?f = "snapshot_file \<lparr>si_epoch = 0, si_state = []\<rparr>"
  have "0 < length ?f" by (simp add: snapshot_file_eq)
  then have ne: "?f \<noteq> []" by auto
  then show ?thesis
    by (simp add: Snapshot_save_def Snapshot_writeExact_eq sys_open_creat_def refusing_os_def sample_os_def next_ctl_def
        new_fd_def Let_def fresh_inode_def writeExact_full do_write_def sys_fsync_def sys_close_def sys_rename_def
        fsyncParentDir_def sys_open_dir_def sys_fsync_dir_def sys_close_dir_def set_offset_def set_content_def
        kind_def file_of_def write_at_def)
qed

lemma refusing_inv: "engine_inv P sample_engine refusing_os []"
proof -
  have "refusing_os = sample_os\<lparr>ctls := ctls refusing_os\<rparr>" by (simp add: refusing_os_def)
  moreover have "engine_inv P sample_engine (sample_os\<lparr>ctls := cs\<rparr>) []" for cs
    using sample_engine_inv [of P] unfolding engine_inv_def
    by (auto simp: wal_holds_def appending_def fcontent_def apart_def separate_names_def os_wf_def file_of_def
        stored_image_def split: option.splits)
  ultimately show ?thesis by metis
qed

theorem late_snapshot_failure_loses_writes_witness:
  "\<exists>t e' u. StorageEngine_snapshot sample_platform sample_engine refusing_os = (Inl (Throws (runtime_error
      ''Failed to write snapshot to disk: w.snap'')), sample_engine, t) \<and>
    StorageEngine_set sample_platform [107] [118] (Double 5) 7 sample_engine t = (Inr (), e', u) \<and>
    StorageEngine_get e' [107] = Some [118] \<and>
    disk_store sample_platform 2 (file_of u ''w'') (file_of u ''w.snap'') = Some Map.empty"
proof -
  obtain t where sv: "Snapshot_save ''w.snap'' \<lparr>si_epoch = 0, si_state = []\<rparr> refusing_os = (False, t)"
      and k: "kind t" and f: "file_of t ''w.snap'' = Some (snapshot_file \<lparr>si_epoch = 0, si_state = []\<rparr>)"
    using refused_save by blast
  have sn: "StorageEngine_snapshot sample_platform sample_engine refusing_os = (Inl (Throws (runtime_error
      ''Failed to write snapshot to disk: w.snap'')), sample_engine, t)"
    using sv by (simp add: StorageEngine_snapshot_def exportSnapshotState_def sample_platform_def Let_def)
  obtain res e' u where st: "StorageEngine_set sample_platform [107] [118] (Double 5) 7 sample_engine t = (res, e', u)"
    by (metis prod_cases3)
  have small: "length [107 :: 8 word] \<le> kMaxFieldSize" "length [118 :: 8 word] \<le> engine_kMaxFieldSize"
    by (simp_all add: kMaxFieldSize_def engine_kMaxFieldSize_def)
  have wf: "os_wf refusing_os" using refusing_inv unfolding engine_inv_def by blast
  note i = engine_inv_wal [OF refusing_inv sample_engine_simps(2)]
  from Snapshot_save_frame [OF sv wf i(3) [simplified]] i(4) have app: "m_fd sample_wal \<noteq> -1" "appending t (m_fd sample_wal)"
    using i(5) by simp_all
  from st sample_engine_simps(2) small have res: "res = Inr ()"
  proof (rule set_steps)
    fix r w'
    assume ap: "WAL_append PUT [107] (serialize sample_platform (Double 5) [118]) 7 sample_wal t = (r, w', u)"
      and res: "res = (case r of Inl x \<Rightarrow> Inl (Throws x) | Inr _ \<Rightarrow> Inr ())"
      and len: "length (serialize sample_platform (Double 5) [118]) \<le> kMaxFieldSize"
    have "storable (new_record sample_wal PUT [107] (serialize sample_platform (Double 5) [118]) 7)"
      using small len by (simp add: storable_new_record type_byte_def as_RecordType_def)
    from WAL_append_bytes [OF ap app this] k res show "res = Inr ()" by simp
  qed
  from late_snapshot_failure_loses_writes [OF refusing_inv sample_engine_simps(2) sample_platform_good _ _ _ st [unfolded res] small]
    sv f have l: "histories_of (m_data e') = spec_put 2 [107] \<lparr>rec_value = [118], rec_duration = Double 5, rec_timestamp = 7\<rparr> (histories_of [])"
      "disk_store sample_platform 2 (file_of u ''w'') (file_of u ''w.snap'') = Some (histories_of [])"
    by simp_all
  have "StorageEngine_get e' [107] = Some [118]"
    using l(1) by (simp add: StorageEngine_get_def histories_of_def spec_put_def)
  moreover have "histories_of [] = Map.empty" by (simp add: histories_of_def)
  ultimately show ?thesis using sn st res l(2) by auto
qed

theorem new_log_may_vanish_witness:
  "\<exists>w t w' u r. WAL_open ''n'' 1 sample_os = (Inr w, t) \<and> append_calls [(PUT, [107], [118], 7)] (w, t) = (w', u) \<and>
    wal_holds w' u [r] \<and> crash_leaves u ''n'' None"
proof -
  have n: "file_of sample_os ''n'' = None" "stable_names sample_os ''n'' = None" by (simp_all add: file_of_def sample_os_def)
  from WAL_open_kind [OF sample_os_wf sample_kind, of "''n''" 1] n obtain w t where
    o: "WAL_open ''n'' 1 sample_os = (Inr w, t)" "kind t" by auto
  have hold: "wal_holds w t []"
  proof -
    note a = WAL_open_any [OF o(1) sample_os_wf]
    then have eq: "w = \<lparr>m_path = ''n'', m_fd = m_fd w, m_epoch = 0, m_seq = 0, m_headHash = zero_hash,
        m_syncEveryN = (if 1 < (1 :: nat) then 1 else 1), m_pendingWrites = 0\<rparr>" by blast
    have "m_seq w = 0" "m_headHash w = zero_hash" using arg_cong [OF eq, of m_seq] arg_cong [OF eq, of m_headHash] by simp_all
    with a n(1) show ?thesis by (simp add: wal_holds_def holds_bytes_header)
  qed
  obtain res w' u where ap: "WAL_append PUT [107] [118] 7 w t = (res, w', u)" by (metis prod_cases3)
  have "storable (new_record w PUT [107] [118] 7)"
    by (simp add: storable_new_record kMaxFieldSize_def type_byte_def as_RecordType_def)
  from WAL_append_any [OF ap hold this] o(2) have "wal_holds w' u [new_record w PUT [107] [118] 7]" by auto
  moreover have run: "append_calls [(PUT, [107], [118], 7)] (w, t) = (w', u)"
    by (simp add: append_calls_def wal_append_ok_def ap)
  moreover from new_log_may_vanish [OF sample_os_wf n(2) o(1) run] have "crash_leaves u ''n'' None" by simp
  ultimately show ?thesis using o(1) by blast
qed

definition sample_full_wal :: WAL where
  "sample_full_wal = sample_wal\<lparr>m_seq := 1, m_headHash := entry_hash zero_hash 0 sample_record\<rparr>"

definition sample_full_os :: os where
  "sample_full_os = sample_os\<lparr>inodes := (\<lambda>_. \<lparr>cached = sample_log, stable = sample_log\<rparr>),
     ctls := [Succeed, Succeed, Succeed, Refuse]\<rparr>"

lemma sample_full_holds: "wal_holds sample_full_wal sample_full_os [sample_record]"
  using sample_log_holds
  by (simp add: wal_holds_def sample_full_wal_def sample_full_os_def sample_os_def sample_wal_def appending_def fcontent_def)

lemma sample_full_reset:
  "\<exists>t. WAL_reset sample_full_wal sample_full_os = (False, sample_full_wal, t) \<and> fcontent t 3 = header_bytes \<and>
    kind t \<and> appending t 3"
proof -
  have "header_bytes \<noteq> []" using length_header_bytes by (metis list.size(3) zero_neq_numeral)
  moreover have "m_fd sample_full_wal = 3" by (simp add: sample_full_wal_def)
  ultimately show ?thesis
    by (simp add: WAL_reset_def WAL_writeHeader_def header_bytes_def [symmetric] sys_fsync_def sys_ftruncate_def
        sys_lseek_def sample_full_os_def sample_os_def next_ctl_def Let_def set_content_def set_offset_def writeExact_full
        do_write_def kind_def fcontent_def write_at_def appending_def)
qed

theorem failed_rotation_poisons_the_log_witness:
  "\<exists>t w'' u. WAL_reset sample_full_wal sample_full_os = (False, sample_full_wal, t) \<and>
    WAL_append PUT [107] [118] 7 sample_full_wal t = (Inr (), w'', u) \<and> chain_result (fcontent u 3) = result_of [] (BadAt Tampered)"
proof -
  obtain t where r: "WAL_reset sample_full_wal sample_full_os = (False, sample_full_wal, t)"
    and t: "fcontent t 3 = header_bytes" "kind t" "appending t 3" using sample_full_reset by blast
  obtain res w'' u where ap: "WAL_append PUT [107] [118] 7 sample_full_wal t = (res, w'', u)" by (metis prod_cases3)
  have fd: "m_fd sample_full_wal = 3" by (simp add: sample_full_wal_def)
  have st: "storable (new_record sample_full_wal PUT [107] [118] 7)"
    by (simp add: storable_new_record kMaxFieldSize_def type_byte_def as_RecordType_def)
  have "res = Inr ()" using WAL_append_bytes [OF ap _ _ st] t fd by simp
  with failed_rotation_poisons_the_log [OF sample_full_holds _ r _ st, of w'' u] ap t(1) fd r show ?thesis by auto
qed

end
