(* ===== verification/Spec2Isabelle.thy ===== *)
theory Spec2Isabelle
  imports Codec_Properties WAL_Properties Snapshot_Properties Engine_Properties Average_Properties Tool_Properties Thread_Properties Findings
begin

text \<open>
  A verification development for LiteSpeedStore, a key-value store with histories, a hash-chained
  write-ahead log and point-in-time snapshots.

  \<^bold>\<open>The program.\<close> \<^verbatim>\<open>StorageEngine\<close> (src/src/StorageEngine.cpp) keeps a map from keys to histories of
  records in memory. Every change is first appended to a log (\<^verbatim>\<open>WAL\<close>, src/src/WAL.cpp); \<^verbatim>\<open>snapshot()\<close> writes
  the whole map to a snapshot file (\<^verbatim>\<open>Snapshot\<close>, src/src/Snapshot.cpp), moves to the next epoch and empties the
  log; the constructor loads the snapshot and replays the records of later epochs. Log entries carry a
  CRC-32, a sequence number and a SHA-256 hash over the hash of the entry before, so that a reader can tell
  a torn tail, which a crash leaves, from a changed file.

  \<^bold>\<open>The environment.\<close> The store is code around system calls, so \<open>Posix\<close> models them: names, inodes with
  cached and stable contents, descriptors with offsets, and two lists of outcomes, \<open>xfers\<close> for reads and
  writes and \<open>ctls\<close> for all other calls, which say of each call whether it is cut short, interrupted,
  refused, or the last thing before a crash. A statement about an arbitrary state is a statement
  about every pattern of failures and every crash point; \<open>kind\<close> says that no call fails, although transfers may
  still be short or interrupted. Accordingly the lemmas about an operation come in pairs: \<open>_any\<close>, what it
  does in every environment, and \<open>_kind\<close>, that it succeeds and computes its result in a kind one.

  \<^bold>\<open>Theories and code.\<close> Each model theory translates one source file, one definition per function.

  \<^item> \<open>Prelude\<close>: the types of bytes and machine words, and lemmas on lists, maps and words.
  \<^item> \<open>Endian\<close>, \<open>CRC32\<close>, \<open>SHA256\<close>: the headers of the same names in src/include/persistence. The laws: the codecs
    invert each other; the table-driven CRC is the one of IEEE 802.3, which is defined on its own as a shift register
    with the standard's generator, and detects every changed byte; the streaming
    SHA-256 is the function of FIPS 180-4 for every way of cutting the message. \<open>SHA256_Vectors\<close> evaluates two
    published digests. \<open>Codec_Properties\<close> states the properties.
  \<^item> \<open>ExactIO\<close>: \<^verbatim>\<open>writeExact\<close> and \<^verbatim>\<open>readExact\<close> of WAL.cpp, loops over \<open>write\<close> and \<open>read\<close> that terminate because the
    outcome lists are finite, and the whole-file read of an \<^verbatim>\<open>std::ifstream\<close>.
  \<^item> \<open>WAL\<close>: every method of the class. \<^verbatim>\<open>walkChain\<close> is \<open>walk_entry\<close> (one iteration), \<open>walk_loop\<close> (the loop, which
    terminates because every verified entry moves the offset) and \<open>walkChain\<close> (the rest).
  \<^item> \<open>WAL_Format\<close>, \<open>WAL_Chain\<close>: the format as a pure reader \<open>scan_log\<close> and an encoder \<open>log_bytes\<close>, each the
    other's inverse; what a cut, a changed byte or a misplaced entry does to the reader; what a head hash binds.
  \<^item> \<open>WAL_Walk\<close>, \<open>WAL_Log\<close>: the methods against the format. \<open>wal_holds w s rs\<close> says that the open log holds the
    records \<open>rs\<close>, \<open>wal_synced\<close> what group commit promises of stable storage. \<open>WAL_Properties\<close> states the properties.
  \<^item> \<open>Snapshot\<close>: \<^verbatim>\<open>save\<close> and \<^verbatim>\<open>load\<close>; every access to the payload goes through \<open>slice\<close>, so that a read outside of it would be
    the outcome \<open>OutOfBounds\<close> of the parser.
    \<open>Snapshot_Format\<close>, \<open>Snapshot_Atomic\<close>: the format's round trip, and saving as an atomic replacement.
    \<open>Snapshot_Properties\<close> states the properties.
  \<^item> \<open>Interfaces\<close>: what the engine needs of a log and of a snapshot file, as the locales \<open>journal\<close> and
    \<open>snapshot_store\<close>, interpreted in \<open>WAL_Log\<close> and \<open>Snapshot_Atomic\<close>.
  \<^item> \<open>Engine\<close>: the class \<^verbatim>\<open>StorageEngine\<close>. \<open>Engine_Map\<close>: its map as a store of capped histories (the locale
    \<open>history_store\<close>), and exporting and restoring it. \<open>Engine_Recovery\<close>: \<^verbatim>\<open>recover()\<close> as a function of the two
    files. \<open>Engine_Invariant\<close>: \<open>engine_inv\<close>, the live map is the one on disk, and opening. \<open>Engine_Writes\<close>,
    \<open>Engine_Snapshot\<close>: the operations in every environment. \<open>Engine_Crash\<close>: what a power failure can leave of
    them. \<open>Engine_Runs\<close>: a step relation over commands and its refinement of an abstract map. \<open>Engine_Durability\<close>:
    which commands of a run a power failure can undo, fewer than \<open>m_syncEveryN\<close> of the last.
    \<open>Engine_Properties\<close> states the properties.
  \<^item> \<open>Binary64\<close>: IEEE 754 addition, division and conversion from integers, rounding to nearest, ties to even, on
    bit patterns; a finite double is a multiple of 2 to the -1074, so values are integers in that unit, and
    \<open>round_bits_nearest\<close> says that no double is nearer to the exact quotient. \<open>Engine_Average\<close>: \<^verbatim>\<open>getAverage\<close>.
  \<^item> \<open>Engine_Threads\<close>: the methods of \<^verbatim>\<open>StorageEngine\<close> once more, each as the small steps between its locking of the
    \<^verbatim>\<open>std::shared_mutex\<close> and its return; run alone they are the methods of \<open>Engine\<close> (\<open>complete_start\<close>).
    \<open>Thread_System\<close>: any number of threads whose steps interleave, as a step relation, with the invariant that one
    order of whole calls explains the replies and the state. \<open>Thread_Progress\<close>: no deadlock, and a measure that every
    step lowers. \<open>Thread_Properties\<close> states the properties. So what the theories before say of sequences of calls
    holds of concurrent ones, too.
  \<^item> \<open>FastTrace\<close>, \<open>ExampleMain\<close>: the scope timer of src/include/FastTrace.hpp and the program of src/src/main.cpp, with
    \<^verbatim>\<open>std::to_string\<close> of a double and the default output format of a stream. \<open>Average_Properties\<close> states the
    properties of these three.
  \<^item> \<open>VerifyTool\<close>, \<open>Demo\<close>, \<open>Fuzz\<close>: src/tools/verify.cpp, src/tools/demo.cpp and the two entry points of src/fuzz, each
    \<^verbatim>\<open>main\<close> as one definition over the classes' models, with everything it prints. \<open>Tool_Properties\<close> states the
    properties.
  \<^item> \<open>Findings\<close>: lost or refused writes, each derived from one failed system call.
  \<^item> \<open>Sample_States\<close>, \<open>Sample_Engine\<close>: concrete states for the witnesses.

  \<^bold>\<open>What is abstracted.\<close> A method is one step on the object and the system, which \<open>Thread_Properties\<close>
  justifies for threads that share an engine; there, a statement that touches the object is one step, memory is
  sequentially consistent, which the mutex guarantees, and the order in which waiting threads get the mutex
  is open: no fairness is assumed. An \<open>fsync\<close> that succeeds is taken to make the whole file stable, also after an
  earlier one failed, where some systems drop the data; the loss of data by a failed \<open>fsync\<close> is covered as long as no
  later one on the file succeeds. The mutex of a log is taken only under that of its engine. Messages that the store's classes print on
  \<^verbatim>\<open>std::cerr\<close> are left out, those of the tools are results. A \<^verbatim>\<open>double\<close> is its bit pattern. A
  \<^verbatim>\<open>std::unordered_map\<close> is an association list, and the order in which it is iterated is a parameter, any
  permutation; so is the byte order of the host, which \<^verbatim>\<open>serialize\<close> exposes. The clock is an argument. \<^verbatim>\<open>size_t\<close>
  values that count bytes in memory are naturals; where the code subtracts them, the model wraps at 64 bits
  and a lemma shows that it does not. Memory allocation does not fail.

  \<^bold>\<open>Hypotheses.\<close> The engine's theorems assume that the log, the snapshot and its temporary file are different
  files (\<open>apart\<close>), that a snapshot fits the format's 32-bit counts (\<open>image_fits\<close>), and that the 64-bit epoch has not
  run out. Those about a crash inside \<open>set\<close> or \<open>snapshot\<close> start from a durable state (\<open>durable_inv\<close>), which a snapshot that returns establishes
  and a set or removal that returns keeps; before the first snapshot not even the name of a new log is durable.
  SHA-256 is never assumed to be free of collisions, a theorem that needs it exhibits the collision.

  \<^bold>\<open>Not modelled.\<close> The benchmark, which is timing code over a library, and the tests, whose cases are instances of
  the properties. The payload of a NaN that arithmetic returns, which the standard leaves open, is fixed. Reading
  a clock, sleeping and the number of the process are arguments of the definitions that use them.
\<close>

end
